(* ===== verification/Prelude.thy ===== *)
theory Prelude
  imports Main "HOL-Library.Word" "HOL-Library.AList" "HOL-Library.Monad_Syntax"
begin

text \<open>
  Shared vocabulary of the development: the Go types the cache uses, the model of Go maps
  and of run-time panics, and generic facts on lists, association lists and words.

  \<^item> \<open>int64\<close>, \<open>int\<close> and \<open>time.Duration\<close> are mathematical integers; every
    operation that can leave the 64-bit range goes through \<open>wrap64\<close>.
  \<^item> \<open>uint16\<close>, \<open>int32\<close>, \<open>uint32\<close>, \<open>uint\<close> are words.
  \<^item> A Go map is an association list with distinct keys (\<open>gomap\<close>): \<open>map_of\<close>,
    \<open>AList.update\<close> and \<open>AList.delete\<close> are lookup, assignment and \<open>delete\<close>,
    and \<open>length\<close> is \<open>len\<close>. Go iterates a map in an unspecified order: operations
    that range over a map take that order as an argument.
  \<^item> A run-time panic (index out of range, nil dereference, division by zero) is
    \<open>None\<close>; operations that can panic return an \<open>option\<close> and are written in
    the option monad.
  \<^item> An interface value of type \<open>Value\<close> is an \<open>'v option\<close>: \<open>None\<close> is nil.
\<close>

unbundle bit_operations_syntax

named_theorems go_simps
  \<open>evaluation rules of the model: reads and writes that are in range\<close>

named_theorems inv_intros
  \<open>introduction rules that re-establish a component's invariant\<close>

type_synonym u8 = "8 word"
type_synonym u16 = "16 word"
type_synonym u32 = "32 word"
type_synonym u64 = "64 word"
type_synonym bytes = "u8 list"

type_synonym ('k, 'v) gomap = "('k \<times> 'v) list"

text \<open>The invocations of an \<open>onEvicted\<close> callback, in order.\<close>

type_synonym 'v calls = "(string \<times> 'v option) list"

abbreviation gomap_ok :: "('k, 'v) gomap \<Rightarrow> bool" where
  "gomap_ok m \<equiv> distinct (map fst m)"

text \<open>The iteration order of \<open>range\<close> over a map: some arrangement of its keys.\<close>

definition range_order :: "('k, 'v) gomap \<Rightarrow> 'k list \<Rightarrow> bool" where
  "range_order m ks \<longleftrightarrow> distinct ks \<and> set ks = fst ` set m"

text \<open>Two's complement wrap-around of 64-bit signed arithmetic.\<close>

definition wrap64 :: "int \<Rightarrow> int" where
  "wrap64 x = (x + 2 ^ 63) mod 2 ^ 64 - 2 ^ 63"

definition in_int64 :: "int \<Rightarrow> bool" where
  "in_int64 x \<longleftrightarrow> - (2 ^ 63) \<le> x \<and> x < 2 ^ 63"

text \<open>\<open>math.MaxInt64\<close>.\<close>

definition MaxInt64 :: int where
  "MaxInt64 = 9223372036854775807"

text \<open>\<open>Time.Sub\<close> saturates at the bounds of a \<open>Duration\<close>.\<close>

definition time_Sub :: "int \<Rightarrow> int \<Rightarrow> int" where
  "time_Sub t u = max (- (2 ^ 63)) (min MaxInt64 (t - u))"

lemma wrap64_in: "in_int64 (wrap64 x)"
  unfolding wrap64_def in_int64_def
  using pos_mod_bound [of "2 ^ 64 :: int" "x + 2 ^ 63"]
    pos_mod_sign [of "2 ^ 64 :: int" "x + 2 ^ 63"] by simp

lemma wrap64_id: "in_int64 x \<Longrightarrow> wrap64 x = x"
  unfolding wrap64_def in_int64_def by simp

lemma wrap64_wrap_add: "wrap64 (wrap64 x + y) = wrap64 (x + y)"
  unfolding wrap64_def by (simp add: mod_simps algebra_simps)

text \<open>The bytes of a Go string, \<open>[]byte(s)\<close>, and the byte at a position.\<close>

definition bytes_of_string :: "string \<Rightarrow> bytes" where
  "bytes_of_string s = map of_char s"

lemma length_bytes_of_string [simp]: "length (bytes_of_string s) = length s"
  by (simp add: bytes_of_string_def)

subsection \<open>Association lists as Go maps\<close>

lemma gomap_mem: "gomap_ok m \<Longrightarrow> (k, v) \<in> set m \<longleftrightarrow> map_of m k = Some v"
  by (auto simp: map_of_is_SomeI dest: map_of_SomeD)

lemma gomap_dom: "fst ` set m = dom (map_of m)"
  by (simp add: dom_map_of_conv_image_fst)

lemma gomap_update_ok [simp]: "gomap_ok m \<Longrightarrow> gomap_ok (AList.update k v m)"
  by (rule distinct_update)

lemma gomap_delete_ok [simp]: "gomap_ok m \<Longrightarrow> gomap_ok (AList.delete k m)"
  by (rule distinct_delete)

lemma map_of_update [simp]: "map_of (AList.update k v m) = (map_of m)(k \<mapsto> v)"
  by (rule update_conv')

lemma map_of_delete [simp]: "map_of (AList.delete k m) = (map_of m)(k := None)"
  by (rule delete_conv')

lemma gomap_length_card: "gomap_ok m \<Longrightarrow> length m = card (dom (map_of m))"
  by (metis distinct_card gomap_dom length_map list.set_map)

lemma gomap_empty_iff: "m = [] \<longleftrightarrow> (\<forall>k. map_of m k = None)"
  by (metis gomap_dom image_is_empty domIff ex_in_conv set_empty)

subsection \<open>Words\<close>

lemma unat_u16_less: "unat (w :: u16) < 65536"
  using unsigned_less [of w] by simp

lemma unat_of_nat_u16: "n < 65536 \<Longrightarrow> unat (of_nat n :: u16) = n"
  by (simp add: unat_of_nat)

lemma sint_small: "unat (w :: u32) < 2 ^ 31 \<Longrightarrow> sint w = int (unat w)"
proof -
  assume "unat w < 2 ^ 31"
  then have "int (unat w) < int (2 ^ 31)" by (simp only: of_nat_less_iff)
  then have "uint w < 2 ^ 31" by simp
  moreover have "0 \<le> uint w" by simp
  ultimately have "signed_take_bit 31 (uint w) = uint w" by (intro signed_take_bit_int_eq_self) linarith+
  then show ?thesis by (simp add: sint_uint)
qed

subsection \<open>Lists\<close>

lemma remove1_split: "distinct xs \<Longrightarrow> xs = ys @ x # zs \<Longrightarrow> remove1 x xs = ys @ zs"
  by (auto simp: remove1_append)

lemma distinct_split:
  assumes "x \<in> set xs" and "distinct xs"
  obtains ys zs where "xs = ys @ x # zs" and "x \<notin> set ys" and "x \<notin> set zs"
  using assms by (metis distinct.simps(2) distinct_append not_distinct_conv_prefix split_list_first)

lemma remove1_filter: "distinct xs \<Longrightarrow> remove1 x xs = filter (\<lambda>y. y \<noteq> x) xs"
  by (induction xs) (auto intro: filter_True [symmetric])

lemma map_list_update_inj:
  assumes "distinct is" and "i < length ms" and "\<forall>j \<in> set is. j < length ms"
  shows "map (\<lambda>j. ms[i := y] ! j) is = map (\<lambda>j. if j = i then y else ms ! j) is"
  using assms by (auto simp: nth_list_update)

lemma length_filter_update:
  "t < length xs \<Longrightarrow>
    length (filter P (xs[t := y])) + (if P (xs ! t) then 1 else 0) = length (filter P xs) + (if P y then 1 else 0)"
proof (induction xs arbitrary: t)
  case (Cons x xs)
  then show ?case by (cases t) (auto simp: less_Suc_eq_0_disj)
qed simp

subsection \<open>Runs and simulation\<close>

text \<open>
  A component's operations as a step function that may panic, the run of a sequence of
  operations with the list of its results, and the same for a specification, which never
  fails.
\<close>

primrec run_ops :: "('op \<Rightarrow> 's \<Rightarrow> ('o \<times> 's) option) \<Rightarrow> 'op list \<Rightarrow> 's \<Rightarrow> ('o list \<times> 's) option" where
  "run_ops step [] s = Some ([], s)"
| "run_ops step (x # xs) s =
     Option.bind (step x s) (\<lambda>(out, s').
       Option.bind (run_ops step xs s') (\<lambda>(outs, s''). Some (out # outs, s'')))"

primrec run_spec :: "('op \<Rightarrow> 'a \<Rightarrow> 'o \<times> 'a) \<Rightarrow> 'op list \<Rightarrow> 'a \<Rightarrow> 'o list \<times> 'a" where
  "run_spec spec [] a = ([], a)"
| "run_spec spec (x # xs) a =
     (let r = spec x a; rs = run_spec spec xs (snd r) in (fst r # fst rs, snd rs))"

text \<open>
  The contract of a refinement: a representation relation that every operation preserves,
  with the same result on both sides and no panic. The client's lemma is about runs.
\<close>

locale simulation =
  fixes rep :: "'c \<Rightarrow> 'a \<Rightarrow> bool"
    and step :: "'op \<Rightarrow> 'c \<Rightarrow> ('o \<times> 'c) option"
    and spec :: "'op \<Rightarrow> 'a \<Rightarrow> 'o \<times> 'a"
  assumes step_sim: "rep c a \<Longrightarrow> \<exists>c'. step x c = Some (fst (spec x a), c') \<and> rep c' (snd (spec x a))"
begin

lemma run_sim:
  "rep c a \<Longrightarrow> \<exists>c'. run_ops step xs c = Some (fst (run_spec spec xs a), c') \<and> rep c' (snd (run_spec spec xs a))"
proof (induction xs arbitrary: c a)
  case (Cons x xs)
  from step_sim [OF Cons.prems] obtain c1 where
    "step x c = Some (fst (spec x a), c1)" "rep c1 (snd (spec x a))" by blast
  with Cons.IH [OF this(2)] show ?case by (auto simp: Let_def)
qed simp

end

end
