(* ===== verification/Clock.thy ===== *)
theory Clock
  imports Prelude
begin

text \<open>
  The clock of \<^verbatim>\<open>store/lru2.go\<close>: \<open>Now()\<close> reads a variable that a goroutine sets to the real
  time once per round and advances by 100 ms after each of nine sleeps of 100 ms. A state is the
  moment after an update of the variable, with the number of advances in this round; real time
  is part of the state. The duration of each sleep is chosen by the scheduler: at least 100 ms,
  and more under load.
\<close>

record clock_state =
  ck_clock :: int
  ck_real :: int
  ck_i :: nat

definition tick_ns :: int where
  "tick_ns = 100000000"

text \<open>The end of a sleep of \<open>d\<close> nanoseconds with the update that follows it.\<close>

definition clock_tick :: "int \<Rightarrow> clock_state \<Rightarrow> clock_state" where
  "clock_tick d s =
     (let real = ck_real s + d in
      if ck_i s < 9 then s\<lparr>ck_clock := wrap64 (ck_clock s + tick_ns), ck_real := real, ck_i := ck_i s + 1\<rparr>
      else s\<lparr>ck_clock := wrap64 real, ck_real := real, ck_i := 0\<rparr>)"

definition clock_start :: "int \<Rightarrow> clock_state" where
  "clock_start t = \<lparr>ck_clock = t, ck_real = t, ck_i = 0\<rparr>"

text \<open>\<open>Now()\<close>.\<close>

definition lru2_Now :: "clock_state \<Rightarrow> int" where
  "lru2_Now s = ck_clock s"

text \<open>After \<open>i\<close> sleeps that overshoot by at most \<open>e\<close> each, the clock is at most \<open>i * e\<close> behind.\<close>

definition clock_ok :: "int \<Rightarrow> clock_state \<Rightarrow> bool" where
  "clock_ok e s \<longleftrightarrow> ck_i s \<le> 9 \<and> ck_clock s \<le> ck_real s \<and> ck_real s - ck_clock s \<le> int (ck_i s) * e \<and> 0 \<le> ck_clock s"

lemma clock_tick_ok:
  assumes "clock_ok e s" and "tick_ns \<le> d" and "d \<le> tick_ns + e" and "ck_real s + d < 2 ^ 63"
  shows "clock_ok e (clock_tick d s)" and "ck_real (clock_tick d s) = ck_real s + d" and "ck_clock s \<le> ck_clock (clock_tick d s)"
proof -
  have s: "ck_clock s \<le> ck_real s" "ck_real s - ck_clock s \<le> int (ck_i s) * e" "0 \<le> ck_clock s" "0 \<le> e"
    using assms(1-3) by (auto simp: clock_ok_def)
  have d: "0 < d" using assms(2) by (simp add: tick_ns_def)
  have "in_int64 (ck_real s + d)" "in_int64 (ck_clock s + tick_ns)"
    using assms(2,4) s(1,3) d by (auto simp: in_int64_def tick_ns_def)
  note w = this [THEN wrap64_id]
  show "ck_real (clock_tick d s) = ck_real s + d" by (simp add: clock_tick_def Let_def)
  show "ck_clock s \<le> ck_clock (clock_tick d s)"
    using s d by (simp add: clock_tick_def Let_def w) (simp add: tick_ns_def)
  show "clock_ok e (clock_tick d s)"
  proof (cases "ck_i s < 9")
    case True
    have "int (ck_i s + 1) * e = int (ck_i s) * e + e" by (simp add: distrib_right)
    with True s assms(2,3) show ?thesis by (simp add: clock_tick_def clock_ok_def Let_def w) (simp add: tick_ns_def)
  next
    case False
    with s d show ?thesis by (simp add: clock_tick_def clock_ok_def Let_def w)
  qed
qed

lemma clock_run_ok:
  assumes "clock_ok e s" and "list_all (\<lambda>d. tick_ns \<le> d \<and> d \<le> tick_ns + e) ds" and "ck_real s + sum_list ds < 2 ^ 63"
  shows "clock_ok e (fold clock_tick ds s) \<and> ck_real (fold clock_tick ds s) = ck_real s + sum_list ds \<and>
    ck_clock s \<le> ck_clock (fold clock_tick ds s)"
  using assms
proof (induction ds arbitrary: s)
  case (Cons d ds)
  have "0 \<le> sum_list ds" using Cons.prems(2) by (intro sum_list_nonneg) (auto simp: list_all_iff tick_ns_def)
  then have "ck_real s + d < 2 ^ 63" using Cons.prems(3) by simp
  note t = clock_tick_ok [OF Cons.prems(1) _ _ this]
  from Cons.IH [OF t(1)] t(2,3) Cons.prems show ?case by (auto simp: add.assoc)
qed simp



end
