(* ===== verification/Ring.thy ===== *)
theory Ring
  imports Prelude
begin

text \<open>
  Doubly linked rings through a sentinel. Both caches of the program keep their recency
  order in such a ring: \<^verbatim>\<open>store/lru2.go\<close> in an array of \<open>[2]uint16\<close> pairs whose
  entry 0 is the sentinel, \<^verbatim>\<open>store/lru.go\<close> in a \<open>container/list\<close>, whose root
  element is the sentinel. The links are two functions \<open>s\<close> (successor) and \<open>p\<close>
  (predecessor); an operation is a sequence of function updates. The theory shows once
  what unlinking a node and linking it behind the sentinel do to the sequence the ring
  represents.
\<close>

primrec chain :: "('a \<Rightarrow> 'a) \<Rightarrow> ('a \<Rightarrow> 'a) \<Rightarrow> 'a \<Rightarrow> 'a list \<Rightarrow> 'a \<Rightarrow> bool" where
  "chain s p a [] b \<longleftrightarrow> s a = b \<and> p b = a"
| "chain s p a (x # xs) b \<longleftrightarrow> s a = x \<and> p x = a \<and> chain s p x xs b"

definition ring :: "('a \<Rightarrow> 'a) \<Rightarrow> ('a \<Rightarrow> 'a) \<Rightarrow> 'a \<Rightarrow> 'a list \<Rightarrow> bool" where
  "ring s p z xs \<longleftrightarrow> distinct (z # xs) \<and> chain s p z xs z"

lemma chain_append:
  "chain s p a (xs @ x # ys) b \<longleftrightarrow> chain s p a xs x \<and> chain s p x ys b"
  by (induction xs arbitrary: a) auto

lemma chain_frame:
  assumes "chain s p a xs b"
    and "\<And>i. i \<in> insert a (set xs) \<Longrightarrow> s' i = s i"
    and "\<And>i. i \<in> insert b (set xs) \<Longrightarrow> p' i = p i"
  shows "chain s' p' a xs b"
  using assms by (induction xs arbitrary: a) auto

lemma chain_rev: "chain s p a xs b \<longleftrightarrow> chain p s b (rev xs) a"
proof (induction xs arbitrary: a)
  case (Cons x xs)
  then show ?case by (auto simp: chain_append)
qed auto

lemma ring_rev: "ring s p z xs \<longleftrightarrow> ring p s z (rev xs)"
  unfolding ring_def using chain_rev [of s p z xs z] by simp

lemma chain_pred_mem: "chain s p a ys x \<Longrightarrow> p x \<in> insert a (set ys)"
  by (induction ys arbitrary: a) auto

lemma chain_succ_mem: "chain s p x zs b \<Longrightarrow> s x \<in> insert b (set zs)"
  by (cases zs) auto

lemma chain_first: "chain s p a xs b \<Longrightarrow> s a = hd (xs @ [b])"
  by (cases xs) auto

lemma chain_last: "chain s p a xs b \<Longrightarrow> p b = last (a # xs)"
  by (induction xs arbitrary: a) auto

subsection \<open>Unlinking a node\<close>

lemma chain_unlink:
  assumes "chain s p a ys x" and "chain s p x zs b" and "distinct (ys @ x # zs)"
    and "a \<notin> set (ys @ x # zs)" and "b \<notin> set (ys @ x # zs)"
  shows "chain (s(p x := s x)) (p(s x := p x)) a (ys @ zs) b"
  using assms
proof (induction ys arbitrary: a)
  case Nil
  show ?case
  proof (cases zs)
    case (Cons r zs')
    with Nil have "chain s p r zs' b" by simp
    then have "chain (s(p x := s x)) (p(s x := p x)) r zs' b"
      by (rule chain_frame) (use Nil Cons in auto)
    with Nil Cons show ?thesis by (simp del: fun_upd_apply add: fun_upd_same)
  qed (use Nil in auto)
next
  case (Cons y ys')
  have "p x \<in> insert y (set ys')" and "s x \<in> insert b (set zs)"
    using Cons.prems chain_pred_mem [of s p y ys' x] chain_succ_mem [of s p x zs b] by auto
  then have "p x \<noteq> a" and "s x \<noteq> y" using Cons.prems by auto
  moreover have "chain (s(p x := s x)) (p(s x := p x)) y (ys' @ zs) b"
    by (rule Cons.IH) (use Cons.prems in auto)
  ultimately show ?case using Cons.prems
    by (simp del: fun_upd_apply add: fun_upd_same fun_upd_other)
qed

lemma ring_unlink:
  assumes "ring s p z xs" and "x \<in> set xs"
  shows "ring (s(p x := s x)) (p(s x := p x)) z (remove1 x xs)"
proof -
  from assms have "distinct xs" by (simp add: ring_def)
  with assms(2) obtain ys zs where xs: "xs = ys @ x # zs" by (auto elim: distinct_split)
  have "chain s p z ys x" and "chain s p x zs z"
    using assms(1) by (simp_all add: ring_def xs chain_append)
  then have "chain (s(p x := s x)) (p(s x := p x)) z (ys @ zs) z"
    by (rule chain_unlink) (use assms(1) in \<open>auto simp: ring_def xs\<close>)
  moreover have "remove1 x xs = ys @ zs" using \<open>distinct xs\<close> xs by (rule remove1_split)
  ultimately show ?thesis using assms(1) by (auto simp: ring_def xs)
qed

subsection \<open>Linking a node behind the sentinel\<close>

lemma chain_push:
  assumes "chain s p a xs b" and "x \<notin> insert a (insert b (set xs))" and "distinct xs"
    and "a \<notin> set xs" and "b \<notin> set xs"
  shows "chain (s(a := x, x := s a)) (p(s a := x, x := a)) a (x # xs) b"
proof (cases xs)
  case (Cons y ys)
  with assms have "chain s p y ys b" by simp
  then have "chain (s(a := x, x := s a)) (p(s a := x, x := a)) y ys b"
    by (rule chain_frame) (use assms Cons in auto)
  with assms Cons show ?thesis
    by (auto simp del: fun_upd_apply simp: fun_upd_same fun_upd_other)
qed (use assms in auto)

lemma ring_push:
  assumes "ring s p z xs" and "x \<noteq> z" and "x \<notin> set xs"
  shows "ring (s(z := x, x := s z)) (p(s z := x, x := z)) z (x # xs)"
  using assms chain_push [of s p z xs z x] by (simp add: ring_def)

lemma ring_frame:
  assumes "ring s p z xs"
    and "\<And>i. i \<in> insert z (set xs) \<Longrightarrow> s' i = s i"
    and "\<And>i. i \<in> insert z (set xs) \<Longrightarrow> p' i = p i"
  shows "ring s' p' z xs"
  using assms chain_frame [of s p z xs z s' p'] by (auto simp: ring_def)

lemma ring_first: "ring s p z xs \<Longrightarrow> s z = hd (xs @ [z])"
  by (auto simp: ring_def dest: chain_first)

lemma ring_pred_first: "ring s p z xs \<Longrightarrow> p (s z) = z"
  by (cases xs) (auto simp: ring_def)

lemma ring_last: "ring s p z xs \<Longrightarrow> p z = last (z # xs)"
  by (auto simp: ring_def dest: chain_last)

lemma ring_succ_mem:
  assumes "ring s p z xs" and "x \<in> insert z (set xs)"
  shows "s x \<in> insert z (set xs)"
proof (cases "x = z")
  case True
  with assms show ?thesis by (auto simp: ring_def dest: chain_succ_mem)
next
  case False
  with assms obtain ys zs where "xs = ys @ x # zs" by (auto dest: split_list)
  with assms(1) have "chain s p x zs z" by (simp add: ring_def chain_append)
  then have "s x \<in> insert z (set zs)" by (rule chain_succ_mem)
  with \<open>xs = ys @ x # zs\<close> show ?thesis by auto
qed

lemma ring_pred_mem:
  "ring s p z xs \<Longrightarrow> x \<in> insert z (set xs) \<Longrightarrow> p x \<in> insert z (set xs)"
  using ring_succ_mem [of p s z "rev xs" x] by (simp flip: ring_rev)

lemma ring_succ_neq:
  assumes "ring s p z xs" and "x \<in> set xs"
  shows "s x \<noteq> x"
proof -
  from assms obtain ys zs where xs: "xs = ys @ x # zs" by (auto dest: split_list)
  with assms(1) have "chain s p x zs z" by (simp add: ring_def chain_append)
  then have "s x \<in> insert z (set zs)" by (rule chain_succ_mem)
  with assms(1) xs show ?thesis by (auto simp: ring_def)
qed

lemma ring_pred_neq: "ring s p z xs \<Longrightarrow> x \<in> set xs \<Longrightarrow> p x \<noteq> x"
  using ring_succ_neq [of p s z "rev xs" x] by (simp flip: ring_rev)

lemma ring_pred_sentinel:
  assumes "ring s p z xs" and "x \<in> set xs" and "p x = z"
  shows "xs = x # remove1 x xs"
proof -
  from assms have "distinct xs" by (simp add: ring_def)
  with assms(2) obtain ys zs where xs: "xs = ys @ x # zs" by (auto elim: distinct_split)
  with assms(1) have "chain s p z ys x" by (simp add: ring_def chain_append)
  then have "p x = last (z # ys)" by (rule chain_last)
  with assms(1,3) xs have "ys = []"
    by (metis (no_types, lifting) Un_iff distinct.simps(2) last_ConsR last_in_set ring_def set_append)
  with xs show ?thesis by simp
qed

lemma chain_end: "chain s p a xs b \<Longrightarrow> s (p b) = b"
  by (induction xs arbitrary: a) auto

lemma ring_succ_pred:
  assumes "ring s p z xs" and "x \<in> set xs"
  shows "s (p x) = x"
proof -
  from assms obtain ys zs where "xs = ys @ x # zs" by (auto dest: split_list)
  with assms(1) have "chain s p z ys x" by (simp add: ring_def chain_append)
  then show ?thesis by (rule chain_end)
qed

text \<open>
  The whole move: unlink \<open>x\<close> and link it behind the sentinel. The updates are the ones
  the two implementations perform, in their order.
\<close>

lemma ring_move_front:
  assumes "ring s p z xs" and "x \<in> set xs"
  defines "s1 \<equiv> s(p x := s x)" and "p1 \<equiv> p(s x := p x)"
  shows "ring (s1(z := x, x := s1 z)) (p1(s1 z := x, x := z)) z (x # remove1 x xs)"
proof (rule ring_push)
  show "ring s1 p1 z (remove1 x xs)" unfolding s1_def p1_def using assms(1,2) by (rule ring_unlink)
  show "x \<noteq> z" and "x \<notin> set (remove1 x xs)" using assms(1,2) by (auto simp: ring_def)
qed

end
