(* ===== verification/Lru2_Cache.thy ===== *)
theory Lru2_Cache
  imports Ring
begin

text \<open>
  The cache of one level of one bucket, \<^verbatim>\<open>store/lru2.go\<close> lines 228 to 350: a node
  array \<open>m\<close>, a map \<open>hmap\<close> from keys to node numbers (1-based) and the recency
  order as a doubly linked ring \<open>dlnk\<close> of \<open>uint16\<close> node numbers through the
  sentinel entry 0. Deletion only sets a tombstone (\<open>deleted\<close>) and moves the node to
  the tail; the slot is reused when it reaches the eviction point.

  The theory gives the array-level operations, the sequence-level operations they are
  meant to implement (\<open>spec_put\<close>, \<open>spec_get\<close>, \<open>spec_del\<close>, \<open>live\<close>), the
  representation relation \<open>cache_repr\<close> between the two, and one simulation lemma per
  operation: on a well-formed cache the operation does not panic and commutes with the
  abstraction.
\<close>

subsection \<open>Data\<close>

text \<open>The package variables \<open>p = 0\<close> and \<open>n = 1\<close> select an entry of a link pair.\<close>

datatype side = Pv | Nx

record 'v node =
  node_k :: string
  node_v :: "'v option"
  node_expireAt :: int
  node_deleted :: bool

record 'v cache =
  cache_dlnk :: "(u16 \<times> u16) list"
  cache_m :: "'v node list"
  cache_hmap :: "(string, u16) gomap"
  cache_last :: u16

record 'v evicted =
  ev_key :: string
  ev_val :: "'v option"
  ev_expireAt :: int

definition noExpiration :: int where
  "noExpiration = MaxInt64"

definition zero_node :: "'v node" where
  "zero_node = \<lparr>node_k = [], node_v = None, node_expireAt = 0, node_deleted = False\<rparr>"

definition no_evicted :: "'v evicted" where
  "no_evicted = \<lparr>ev_key = [], ev_val = None, ev_expireAt = 0\<rparr>"

text \<open>\<open>Create\<close>: the length \<open>cap+1\<close> of the link array is computed in \<open>uint16\<close>.\<close>

definition Create :: "u16 \<Rightarrow> 'v cache" where
  "Create cp = \<lparr>cache_dlnk = replicate (unat (cp + 1)) (0, 0),
     cache_m = replicate (unat cp) zero_node, cache_hmap = [], cache_last = 0\<rparr>"

subsection \<open>Array accesses\<close>

definition lk :: "(u16 \<times> u16) list \<Rightarrow> side \<Rightarrow> u16 \<Rightarrow> u16" where
  "lk d f i = (case f of Pv \<Rightarrow> fst (d ! unat i) | Nx \<Rightarrow> snd (d ! unat i))"

definition dupd :: "(u16 \<times> u16) list \<Rightarrow> u16 \<Rightarrow> side \<Rightarrow> u16 \<Rightarrow> (u16 \<times> u16) list" where
  "dupd d i f v =
     d[unat i := (case f of Pv \<Rightarrow> (v, snd (d ! unat i)) | Nx \<Rightarrow> (fst (d ! unat i), v))]"

text \<open>\<open>c.dlnk[i][f]\<close> and \<open>c.dlnk[i][f] = v\<close>.\<close>

definition dget :: "(u16 \<times> u16) list \<Rightarrow> u16 \<Rightarrow> side \<Rightarrow> u16 option" where
  "dget d i f = (if unat i < length d then Some (lk d f i) else None)"

definition dset :: "(u16 \<times> u16) list \<Rightarrow> u16 \<Rightarrow> side \<Rightarrow> u16 \<Rightarrow> (u16 \<times> u16) list option" where
  "dset d i f v = (if unat i < length d then Some (dupd d i f v) else None)"

text \<open>\<open>c.m[idx-1]\<close>, the subtraction in \<open>uint16\<close>.\<close>

definition node_at :: "'v node list \<Rightarrow> u16 \<Rightarrow> 'v node" where
  "node_at ms idx = ms ! unat (idx - 1)"

definition mget :: "'v node list \<Rightarrow> u16 \<Rightarrow> 'v node option" where
  "mget ms idx = (if unat (idx - 1) < length ms then Some (node_at ms idx) else None)"

definition mset_at :: "'v node list \<Rightarrow> u16 \<Rightarrow> 'v node \<Rightarrow> 'v node list option" where
  "mset_at ms idx nd = (if unat (idx - 1) < length ms then Some (ms[unat (idx - 1) := nd]) else None)"

subsection \<open>Operations\<close>

definition cache_adjust ::
  "(u16 \<times> u16) list \<Rightarrow> u16 \<Rightarrow> side \<Rightarrow> side \<Rightarrow> (u16 \<times> u16) list option" where
  "cache_adjust d idx f t = do {
     v \<leftarrow> dget d idx f;
     if v \<noteq> 0 then do {
       a \<leftarrow> dget d idx t; b \<leftarrow> dget d idx f;
       d1 \<leftarrow> dset d a f b;
       b \<leftarrow> dget d1 idx f; a \<leftarrow> dget d1 idx t;
       d2 \<leftarrow> dset d1 b t a;
       d3 \<leftarrow> dset d2 idx f 0;
       h \<leftarrow> dget d3 0 t;
       d4 \<leftarrow> dset d3 idx t h;
       h \<leftarrow> dget d4 0 t;
       d5 \<leftarrow> dset d4 h f idx;
       dset d5 0 t idx
     } else Some d
   }"

definition new_node :: "string \<Rightarrow> 'v option \<Rightarrow> int \<Rightarrow> 'v node" where
  "new_node key val e = \<lparr>node_k = key, node_v = val, node_expireAt = e, node_deleted = False\<rparr>"

definition node_evicted :: "'v node \<Rightarrow> 'v evicted" where
  "node_evicted nd = (if \<not> node_deleted nd
     then \<lparr>ev_key = node_k nd, ev_val = node_v nd, ev_expireAt = node_expireAt nd\<rparr>
     else no_evicted)"

definition cache_put ::
  "string \<Rightarrow> 'v option \<Rightarrow> int \<Rightarrow> 'v cache \<Rightarrow> ('v evicted \<times> 'v cache) option" where
  "cache_put key val e c =
     (case map_of (cache_hmap c) key of
        Some idx \<Rightarrow> do {
          nd \<leftarrow> mget (cache_m c) idx;
          ms \<leftarrow> mset_at (cache_m c) idx
                 (nd\<lparr>node_v := val, node_expireAt := e, node_deleted := False\<rparr>);
          d \<leftarrow> cache_adjust (cache_dlnk c) idx Pv Nx;
          Some (no_evicted, c\<lparr>cache_m := ms, cache_dlnk := d\<rparr>)
        }
      | None \<Rightarrow>
          if cache_last c = of_nat (length (cache_m c)) then do {
            ti \<leftarrow> dget (cache_dlnk c) 0 Pv;
            tail \<leftarrow> mget (cache_m c) ti;
            ms \<leftarrow> mset_at (cache_m c) ti (new_node key val e);
            d \<leftarrow> cache_adjust (cache_dlnk c) ti Pv Nx;
            Some (node_evicted tail,
              c\<lparr>cache_m := ms, cache_dlnk := d,
                cache_hmap := AList.update key ti (AList.delete (node_k tail) (cache_hmap c))\<rparr>)
          } else do {
            let l = cache_last c + 1;
            d1 \<leftarrow> (if length (cache_hmap c) \<le> 0 then dset (cache_dlnk c) 0 Pv l
                   else do { h \<leftarrow> dget (cache_dlnk c) 0 Nx; dset (cache_dlnk c) h Pv l });
            nd \<leftarrow> mget (cache_m c) l;
            ms \<leftarrow> mset_at (cache_m c) l (new_node key val e);
            h \<leftarrow> dget d1 0 Nx;
            d2 \<leftarrow> dset d1 l Pv 0;
            d3 \<leftarrow> dset d2 l Nx h;
            d4 \<leftarrow> dset d3 0 Nx l;
            Some (no_evicted,
              c\<lparr>cache_m := ms, cache_dlnk := d4,
                cache_hmap := AList.update key l (cache_hmap c), cache_last := l\<rparr>)
          })"

text \<open>
  \<open>get\<close> and \<open>del\<close> return a pointer to the node and a status that is 1 exactly when
  the pointer is not nil. No caller writes to the same cache between the call and its last
  use of the pointer, so the model returns the node itself, \<open>None\<close> for nil with
  status 0.
\<close>

definition cache_get :: "string \<Rightarrow> 'v cache \<Rightarrow> ('v node option \<times> 'v cache) option" where
  "cache_get key c =
     (case map_of (cache_hmap c) key of
        Some idx \<Rightarrow> do {
          d \<leftarrow> cache_adjust (cache_dlnk c) idx Pv Nx;
          nd \<leftarrow> mget (cache_m c) idx;
          Some (Some nd, c\<lparr>cache_dlnk := d\<rparr>)
        }
      | None \<Rightarrow> Some (None, c))"

definition cache_del :: "string \<Rightarrow> 'v cache \<Rightarrow> (('v node \<times> int) option \<times> 'v cache) option" where
  "cache_del key c =
     (case map_of (cache_hmap c) key of
        Some idx \<Rightarrow> do {
          nd \<leftarrow> mget (cache_m c) idx;
          if \<not> node_deleted nd then do {
            ms \<leftarrow> mset_at (cache_m c) idx (nd\<lparr>node_deleted := True\<rparr>);
            d \<leftarrow> cache_adjust (cache_dlnk c) idx Nx Pv;
            nd' \<leftarrow> mget ms idx;
            Some (Some (nd', node_expireAt nd), c\<lparr>cache_m := ms, cache_dlnk := d\<rparr>)
          } else Some (None, c)
        }
      | None \<Rightarrow> Some (None, c))"

text \<open>
  \<open>walk\<close> follows the links from the head until the sentinel; the walker's captured
  variables are the state \<open>'s\<close> it threads, its result says whether to go on. The loop
  follows links of the array, so it is not structurally terminating.
\<close>

partial_function (option) walk_loop ::
  "'v cache \<Rightarrow> (string \<Rightarrow> 'v option \<Rightarrow> int \<Rightarrow> 's \<Rightarrow> bool \<times> 's) \<Rightarrow> u16 \<Rightarrow> 's \<Rightarrow> 's option" where
  "walk_loop c w idx st =
     (if idx = 0 then Some st
      else Option.bind (mget (cache_m c) idx) (\<lambda>nd.
        let r = (if node_deleted nd then (True, st)
                 else w (node_k nd) (node_v nd) (node_expireAt nd) st)
        in if fst r
           then Option.bind (dget (cache_dlnk c) idx Nx) (\<lambda>i. walk_loop c w i (snd r))
           else Some (snd r)))"

definition cache_walk ::
  "'v cache \<Rightarrow> (string \<Rightarrow> 'v option \<Rightarrow> int \<Rightarrow> 's \<Rightarrow> bool \<times> 's) \<Rightarrow> 's \<Rightarrow> 's option" where
  "cache_walk c w st = do { h \<leftarrow> dget (cache_dlnk c) 0 Nx; walk_loop c w h st }"

subsection \<open>The sequence level\<close>

text \<open>
  What the operations promise on the sequence of nodes, most recently used first.
\<close>

definition find_node :: "string \<Rightarrow> 'v node list \<Rightarrow> 'v node option" where
  "find_node k ns = find (\<lambda>nd. node_k nd = k) ns"

definition others :: "string \<Rightarrow> 'v node list \<Rightarrow> 'v node list" where
  "others k ns = filter (\<lambda>nd. node_k nd \<noteq> k) ns"

definition live :: "'v node list \<Rightarrow> 'v node list" where
  "live ns = filter (\<lambda>nd. \<not> node_deleted nd) ns"

definition spec_put ::
  "nat \<Rightarrow> string \<Rightarrow> 'v option \<Rightarrow> int \<Rightarrow> 'v node list \<Rightarrow> 'v evicted \<times> 'v node list" where
  "spec_put cp k v e ns =
     (case find_node k ns of
        Some _ \<Rightarrow> (no_evicted, new_node k v e # others k ns)
      | None \<Rightarrow>
          if length ns = cp then (node_evicted (last ns), new_node k v e # butlast ns)
          else (no_evicted, new_node k v e # ns))"

definition spec_get :: "string \<Rightarrow> 'v node list \<Rightarrow> 'v node option \<times> 'v node list" where
  "spec_get k ns =
     (case find_node k ns of
        Some nd \<Rightarrow> (Some nd, nd # others k ns)
      | None \<Rightarrow> (None, ns))"

definition spec_del :: "string \<Rightarrow> 'v node list \<Rightarrow> ('v node \<times> int) option \<times> 'v node list" where
  "spec_del k ns =
     (case find_node k ns of
        Some nd \<Rightarrow>
          if node_deleted nd then (None, ns)
          else (Some (nd\<lparr>node_deleted := True\<rparr>, node_expireAt nd),
                others k ns @ [nd\<lparr>node_deleted := True\<rparr>])
      | None \<Rightarrow> (None, ns))"

text \<open>\<open>walk\<close> hands the walker the nodes that are not tombstones, in recency order.\<close>

primrec spec_walk ::
  "(string \<Rightarrow> 'v option \<Rightarrow> int \<Rightarrow> 's \<Rightarrow> bool \<times> 's) \<Rightarrow> 'v node list \<Rightarrow> 's \<Rightarrow> 's" where
  "spec_walk w [] st = st"
| "spec_walk w (nd # ns) st =
     (if node_deleted nd then spec_walk w ns st
      else let r = w (node_k nd) (node_v nd) (node_expireAt nd) st
           in if fst r then spec_walk w ns (snd r) else snd r)"

text \<open>Sequences of operations on one cache.\<close>

datatype 'v cache_op = CPut string "'v option" int | CGet string | CDel string | CWalk

datatype 'v cache_out =
    OEvicted "'v evicted" | OGet "'v node option" | ODel "('v node \<times> int) option"
  | OWalk "(string \<times> 'v option \<times> int) list"

definition collect :: "string \<Rightarrow> 'v option \<Rightarrow> int \<Rightarrow> (string \<times> 'v option \<times> int) list
    \<Rightarrow> bool \<times> (string \<times> 'v option \<times> int) list" where
  "collect k v e acc = (True, acc @ [(k, v, e)])"

primrec cache_step :: "'v cache_op \<Rightarrow> 'v cache \<Rightarrow> ('v cache_out \<times> 'v cache) option" where
  "cache_step (CPut k v e) c = map_option (map_prod OEvicted id) (cache_put k v e c)"
| "cache_step (CGet k) c = map_option (map_prod OGet id) (cache_get k c)"
| "cache_step (CDel k) c = map_option (map_prod ODel id) (cache_del k c)"
| "cache_step CWalk c = map_option (\<lambda>ws. (OWalk ws, c)) (cache_walk c collect [])"

primrec cache_spec :: "nat \<Rightarrow> 'v cache_op \<Rightarrow> 'v node list \<Rightarrow> 'v cache_out \<times> 'v node list" where
  "cache_spec cp (CPut k v e) ns = map_prod OEvicted id (spec_put cp k v e ns)"
| "cache_spec cp (CGet k) ns = map_prod OGet id (spec_get k ns)"
| "cache_spec cp (CDel k) ns = map_prod ODel id (spec_del k ns)"
| "cache_spec cp CWalk ns =
     (OWalk (map (\<lambda>nd. (node_k nd, node_v nd, node_expireAt nd)) (live ns)), ns)"

subsection \<open>The representation relation\<close>

definition links_ok :: "(u16 \<times> u16) list \<Rightarrow> u16 list \<Rightarrow> bool" where
  "links_ok d xs \<longleftrightarrow> ring (lk d Nx) (lk d Pv) 0 xs \<and> (\<forall>i \<in> insert 0 (set xs). unat i < length d)"

definition cache_inv :: "'v cache \<Rightarrow> u16 list \<Rightarrow> bool" where
  "cache_inv c xs \<longleftrightarrow>
     length (cache_dlnk c) = Suc (length (cache_m c)) \<and>
     0 < length (cache_m c) \<and> length (cache_m c) < 65535 \<and>
     links_ok (cache_dlnk c) xs \<and>
     unat (cache_last c) \<le> length (cache_m c) \<and>
     set xs = {i. i \<noteq> 0 \<and> i \<le> cache_last c} \<and>
     gomap_ok (cache_hmap c) \<and>
     (\<forall>k i. map_of (cache_hmap c) k = Some i \<longleftrightarrow> i \<in> set xs \<and> node_k (node_at (cache_m c) i) = k)"

definition cache_cap :: "'v cache \<Rightarrow> nat" where
  "cache_cap c = length (cache_m c)"

definition cache_repr :: "'v cache \<Rightarrow> 'v node list \<Rightarrow> bool" where
  "cache_repr c ns \<longleftrightarrow> (\<exists>xs. cache_inv c xs \<and> ns = map (node_at (cache_m c)) xs)"

subsection \<open>Links\<close>

lemma dget_in [go_simps]: "unat i < length d \<Longrightarrow> dget d i f = Some (lk d f i)"
  by (simp add: dget_def)

lemma dset_in [go_simps]: "unat i < length d \<Longrightarrow> dset d i f v = Some (dupd d i f v)"
  by (simp add: dset_def)

lemma length_dupd [simp]: "length (dupd d i f v) = length d"
  by (simp add: dupd_def)

lemma lk_dupd [go_simps]:
  "unat i < length d \<Longrightarrow> lk (dupd d i f v) g j = (if g = f \<and> j = i then v else lk d g j)"
  by (cases "j = i") (auto simp: lk_def dupd_def nth_list_update word_unat_eq_iff split: side.splits)

lemma lk_dupd_fun:
  "unat i < length d \<Longrightarrow> lk (dupd d i f v) g = (if g = f then (lk d g)(i := v) else lk d g)"
  by (rule ext) (simp add: lk_dupd)

lemma links_ok_side: "links_ok d xs \<Longrightarrow> ring (lk d Pv) (lk d Nx) 0 (rev xs)"
  by (simp add: links_ok_def flip: ring_rev)

lemma adjust_ring:
  assumes "ring (lk d t) (lk d f) 0 xs" and "f \<noteq> t" and "i \<in> set xs"
    and bound: "\<forall>j \<in> insert 0 (set xs). unat j < length d"
  shows "\<exists>d'. cache_adjust d i f t = Some d' \<and> length d' = length d \<and>
           ring (lk d' t) (lk d' f) 0 (i # remove1 i xs)"
proof (cases "lk d f i = 0")
  case True
  then have "xs = i # remove1 i xs" using assms(1,3) ring_pred_sentinel by metis
  with True assms show ?thesis by (auto simp: cache_adjust_def go_simps)
next
  case False
  let ?s1 = "(lk d t)(lk d f i := lk d t i)" and ?p1 = "(lk d f)(lk d t i := lk d f i)"
  have mem: "lk d t i \<in> insert 0 (set xs)" "lk d f i \<in> insert 0 (set xs)" "lk d t 0 \<in> insert 0 (set xs)"
    using ring_succ_mem [OF assms(1)] ring_pred_mem [OF assms(1)] assms(3) by blast+
  have neq: "lk d t i \<noteq> i" "lk d f i \<noteq> i" "i \<noteq> 0"
    using ring_succ_neq [OF assms(1,3)] ring_pred_neq [OF assms(1,3)] assms(1,3)
    by (auto simp: ring_def)
  have first: "lk d t 0 \<noteq> i" using ring_pred_first [OF assms(1)] False by auto
  have in_d: "unat i < length d" "0 < length d" "unat (lk d t i) < length d"
    "unat (lk d f i) < length d" "unat (lk d t 0) < length d"
    using bound mem assms(3) by auto
  let ?d' = "dupd (dupd (dupd (dupd (dupd (dupd d (lk d t i) f (lk d f i)) (lk d f i) t (lk d t i))
    i f 0) i t (lk d t 0)) (lk d t 0) f i) 0 t i"
  have "cache_adjust d i f t = Some ?d'"
    using False assms(2) neq in_d by (auto simp: cache_adjust_def go_simps)
  moreover have "ring (lk ?d' t) (lk ?d' f) 0 (i # remove1 i xs)"
    using ring_move_front [OF assms(1,3)] False assms(2) neq in_d first
    by (simp add: lk_dupd_fun fun_upd_twist)
  ultimately show ?thesis by auto
qed


lemma links_ok_bound: "links_ok d xs \<Longrightarrow> i \<in> insert 0 (set xs) \<Longrightarrow> unat i < length d"
  by (auto simp: links_ok_def)

lemma links_front:
  assumes "links_ok d xs" and "i \<in> set xs"
  shows "\<exists>d'. cache_adjust d i Pv Nx = Some d' \<and> length d' = length d \<and> links_ok d' (i # remove1 i xs)"
proof -
  obtain d' where "cache_adjust d i Pv Nx = Some d'" "length d' = length d"
    "ring (lk d' Nx) (lk d' Pv) 0 (i # remove1 i xs)"
    using adjust_ring [of d Nx Pv xs i] assms by (auto simp: links_ok_def)
  moreover from assms have "distinct xs" by (simp add: links_ok_def ring_def)
  ultimately show ?thesis using assms by (auto simp: links_ok_def)
qed

lemma links_back:
  assumes "links_ok d xs" and "i \<in> set xs"
  shows "\<exists>d'. cache_adjust d i Nx Pv = Some d' \<and> length d' = length d \<and> links_ok d' (remove1 i xs @ [i])"
proof -
  have "distinct xs" using assms(1) by (simp add: links_ok_def ring_def)
  then have rv: "rev (remove1 i (rev xs)) = remove1 i xs" by (simp add: remove1_filter rev_filter)
  obtain d' where "cache_adjust d i Nx Pv = Some d'" "length d' = length d"
    "ring (lk d' Pv) (lk d' Nx) 0 (i # remove1 i (rev xs))"
    using adjust_ring [of d Pv Nx "rev xs" i] links_ok_side [OF assms(1)] assms
    by (auto simp: links_ok_def)
  moreover from this(3) have "ring (lk d' Nx) (lk d' Pv) 0 (remove1 i xs @ [i])"
    by (subst ring_rev) (simp flip: rv)
  ultimately show ?thesis using assms \<open>distinct xs\<close> by (auto simp: links_ok_def)
qed

lemma links_push:
  assumes "links_ok d xs" and "i \<noteq> 0" and "i \<notin> set xs" and "unat i < length d"
  shows "links_ok (dupd (dupd (dupd (dupd d (lk d Nx 0) Pv i) i Pv 0) i Nx (lk d Nx 0)) 0 Nx i) (i # xs)"
proof -
  have r: "ring (lk d Nx) (lk d Pv) 0 xs" and b: "\<forall>j \<in> insert 0 (set xs). unat j < length d"
    using assms(1) by (auto simp: links_ok_def)
  have "lk d Nx 0 \<in> insert 0 (set xs)" using ring_succ_mem [OF r] by simp
  then have "unat (lk d Nx 0) < length d" "lk d Nx 0 \<noteq> i" using b assms(2,3) by auto
  moreover have "0 < length d" using b by simp
  ultimately show ?thesis
    using ring_push [OF r assms(2,3)] assms b by (simp add: links_ok_def lk_dupd_fun fun_upd_twist)
qed

subsection \<open>Nodes\<close>

lemma unat_pred: "i \<noteq> 0 \<Longrightarrow> unat ((i::u16) - 1) = unat i - 1"
  by (simp add: unat_minus_one)

lemma mget_in [go_simps]: "unat (i - 1) < length ms \<Longrightarrow> mget ms i = Some (node_at ms i)"
  by (simp add: mget_def)

lemma mset_at_in [go_simps]:
  "unat (i - 1) < length ms \<Longrightarrow> mset_at ms i nd = Some (ms[unat (i - 1) := nd])"
  by (simp add: mset_at_def)

lemma node_at_update [go_simps]:
  "unat (i - 1) < length ms \<Longrightarrow>
     node_at (ms[unat (i - 1) := nd]) j = (if j = i then nd else node_at ms j)"
  by (auto simp: node_at_def nth_list_update word_unat_eq_iff [symmetric])

lemma cache_invI [inv_intros]:
  assumes "length (cache_dlnk c) = Suc (length (cache_m c))"
    and "0 < length (cache_m c)" and "length (cache_m c) < 65535"
    and "links_ok (cache_dlnk c) xs" and "unat (cache_last c) \<le> length (cache_m c)"
    and "set xs = {i. i \<noteq> 0 \<and> i \<le> cache_last c}" and "gomap_ok (cache_hmap c)"
    and "\<And>k i. map_of (cache_hmap c) k = Some i \<longleftrightarrow> i \<in> set xs \<and> node_k (node_at (cache_m c) i) = k"
  shows "cache_inv c xs"
  using assms by (simp add: cache_inv_def)

lemma cache_inv_sizes:
  assumes "cache_inv c xs"
  shows "length (cache_dlnk c) = Suc (length (cache_m c))"
    and "0 < length (cache_m c)" and "length (cache_m c) < 65535"
    and "unat (cache_last c) \<le> length (cache_m c)" and "gomap_ok (cache_hmap c)"
  using assms by (simp_all add: cache_inv_def)

lemma cache_inv_set: "cache_inv c xs \<Longrightarrow> set xs = {i. i \<noteq> 0 \<and> i \<le> cache_last c}"
  by (simp add: cache_inv_def)

lemma cache_inv_lookup:
  "cache_inv c xs \<Longrightarrow>
     map_of (cache_hmap c) k = Some i \<longleftrightarrow> i \<in> set xs \<and> node_k (node_at (cache_m c) i) = k"
  by (simp add: cache_inv_def)

lemma cache_invD:
  assumes "cache_inv c xs" and "i \<in> set xs"
  shows "i \<noteq> 0" and "unat (i - 1) < length (cache_m c)" and "unat i < length (cache_dlnk c)"
proof -
  show "i \<noteq> 0" using assms by (simp add: cache_inv_def)
  moreover have "unat i \<le> length (cache_m c)"
    using assms by (auto simp: cache_inv_def word_le_nat_alt)
  moreover have "0 < length (cache_m c)" using assms by (simp add: cache_inv_def)
  ultimately show "unat (i - 1) < length (cache_m c)"
    using unat_pred [of i] by linarith
  show "unat i < length (cache_dlnk c)"
    using assms by (auto simp: cache_inv_def links_ok_def)
qed

lemma card_word_upto: "card {i :: u16. i \<noteq> 0 \<and> i \<le> l} = unat l"
proof -
  have "unat ` {i :: u16. i \<noteq> 0 \<and> i \<le> l} = {1..unat l}"
  proof (rule set_eqI, rule iffI)
    fix j
    assume "j \<in> {1..unat l}"
    then have j: "1 \<le> j" "j \<le> unat l" "j < 65536" using unat_u16_less [of l] by auto
    then have "unat (of_nat j :: u16) = j" by (simp add: unat_of_nat_u16)
    with j have "(of_nat j :: u16) \<in> {i. i \<noteq> 0 \<and> i \<le> l}" by (auto simp: word_le_nat_alt)
    with \<open>unat (of_nat j) = j\<close> show "j \<in> unat ` {i :: u16. i \<noteq> 0 \<and> i \<le> l}"
      by (auto intro: rev_image_eqI)
  qed (auto simp: word_le_nat_alt Suc_le_eq unat_gt_0)
  moreover have "inj_on unat {i :: u16. i \<noteq> 0 \<and> i \<le> l}" 
    by (rule inj_onI) (rule word_unat_eq_iff [THEN iffD2])
  ultimately show ?thesis using card_image [of unat "{i :: u16. i \<noteq> 0 \<and> i \<le> l}"] by simp
qed

lemma cache_inv_distinct: "cache_inv c xs \<Longrightarrow> distinct xs"
  by (simp add: cache_inv_def links_ok_def ring_def)

lemma cache_inv_length: "cache_inv c xs \<Longrightarrow> length xs = unat (cache_last c)"
  using cache_inv_distinct [of c xs] distinct_card [of xs] card_word_upto [of "cache_last c"]
  by (simp add: cache_inv_def)

lemma cache_inv_links: "cache_inv c xs \<Longrightarrow> links_ok (cache_dlnk c) xs"
  by (simp add: cache_inv_def)

lemma cache_inv_hmap:
  "cache_inv c xs \<Longrightarrow> map_of (cache_hmap c) k = Some i \<Longrightarrow>
     i \<in> set xs \<and> node_k (node_at (cache_m c) i) = k"
  by (simp add: cache_inv_def)

lemma cache_inv_key_inj:
  assumes "cache_inv c xs" and "map_of (cache_hmap c) k = Some i" and "j \<in> set xs"
  shows "node_k (node_at (cache_m c) j) = k \<longleftrightarrow> j = i"
  using assms unfolding cache_inv_def by (metis option.inject)

lemma cache_inv_miss:
  assumes "cache_inv c xs" and "map_of (cache_hmap c) k = None" and "i \<in> set xs"
  shows "node_k (node_at (cache_m c) i) \<noteq> k"
  using assms unfolding cache_inv_def by (metis option.distinct(1))

lemma find_node_repr:
  assumes "cache_inv c xs"
  shows "find_node k (map (node_at (cache_m c)) xs)
           = map_option (node_at (cache_m c)) (map_of (cache_hmap c) k)"
proof (cases "map_of (cache_hmap c) k")
  case None
  with cache_inv_miss [OF assms] show ?thesis by (auto simp: find_node_def find_None_iff)
next
  case (Some i)
  have i: "i \<in> set xs" "node_k (node_at (cache_m c) i) = k" using cache_inv_hmap [OF assms Some] by auto
  then obtain nd where nd: "find_node k (map (node_at (cache_m c)) xs) = Some nd"
    unfolding find_node_def by (fastforce simp: find_None_iff)
  then obtain n where "n < length xs" "nd = node_at (cache_m c) (xs ! n)" "node_k nd = k"
    unfolding find_node_def by (auto simp: find_Some_iff)
  with cache_inv_key_inj [OF assms Some] nd Some show ?thesis by auto
qed

lemma others_repr:
  assumes "cache_inv c xs" and "map_of (cache_hmap c) k = Some i"
  shows "others k (map (node_at (cache_m c)) xs) = map (node_at (cache_m c)) (remove1 i xs)"
proof -
  have "others k (map (node_at (cache_m c)) xs)
      = map (node_at (cache_m c)) (filter (\<lambda>j. node_k (node_at (cache_m c) j) \<noteq> k) xs)"
    by (simp add: others_def filter_map comp_def)
  also have "filter (\<lambda>j. node_k (node_at (cache_m c) j) \<noteq> k) xs = filter (\<lambda>j. j \<noteq> i) xs"
    by (rule filter_cong) (simp_all add: cache_inv_key_inj [OF assms])
  finally show ?thesis using cache_inv_distinct [OF assms(1)] by (simp add: remove1_filter)
qed

lemma map_node_at_update [go_simps]:
  "unat (i - 1) < length ms \<Longrightarrow> i \<notin> set ys \<Longrightarrow>
     map (node_at (ms[unat (i - 1) := nd])) ys = map (node_at ms) ys"
  by (auto simp: node_at_update)

lemma cache_inv_relink:
  assumes "cache_inv c xs" and "links_ok d' xs'" and "length d' = length (cache_dlnk c)"
    and "set xs' = set xs" and "length ms' = length (cache_m c)"
    and "\<And>i. i \<in> set xs \<Longrightarrow> node_k (node_at ms' i) = node_k (node_at (cache_m c) i)"
  shows "cache_inv (c\<lparr>cache_m := ms', cache_dlnk := d'\<rparr>) xs'"
  using assms cache_inv_sizes [OF assms(1)] cache_inv_set [OF assms(1)] cache_inv_lookup [OF assms(1)]
  by (intro cache_invI) auto

subsection \<open>Simulation of the operations\<close>

lemma cache_reprI: "cache_inv c xs \<Longrightarrow> map (node_at (cache_m c)) xs = ns \<Longrightarrow> cache_repr c ns"
  by (auto simp: cache_repr_def)

lemma put_hit:
  assumes inv: "cache_inv c xs" and hit: "map_of (cache_hmap c) k = Some i"
  shows "\<exists>c'. cache_put k v e c = Some (no_evicted, c') \<and> cache_cap c' = cache_cap c \<and>
    cache_repr c' (new_node k v e # others k (map (node_at (cache_m c)) xs))"
proof -
  have i: "i \<in> set xs" "node_k (node_at (cache_m c) i) = k" using cache_inv_hmap [OF inv hit] by auto
  note b = cache_invD [OF inv i(1)]
  obtain d' where d': "cache_adjust (cache_dlnk c) i Pv Nx = Some d'"
    "length d' = length (cache_dlnk c)" "links_ok d' (i # remove1 i xs)"
    using links_front [OF cache_inv_links [OF inv] i(1)] by blast
  let ?nd = "(node_at (cache_m c) i)\<lparr>node_v := v, node_expireAt := e, node_deleted := False\<rparr>"
  let ?ms = "(cache_m c)[unat (i - 1) := ?nd]"
  have nd: "?nd = new_node k v e" using i(2) by (simp add: new_node_def)
  have dist: "distinct xs" by (rule cache_inv_distinct [OF inv])
  have "cache_inv (c\<lparr>cache_m := ?ms, cache_dlnk := d'\<rparr>) (i # remove1 i xs)"
    by (rule cache_inv_relink [OF inv d'(3,2)]) (use b i dist in \<open>auto simp: go_simps\<close>)
  moreover have "cache_put k v e c = Some (no_evicted, c\<lparr>cache_m := ?ms, cache_dlnk := d'\<rparr>)"
    using hit b d' by (simp add: cache_put_def go_simps)
  moreover have "map (node_at ?ms) (i # remove1 i xs)
      = new_node k v e # others k (map (node_at (cache_m c)) xs)"
    using b dist nd by (simp add: others_repr [OF inv hit] go_simps)
  ultimately show ?thesis by (auto simp: cache_cap_def intro!: cache_reprI [where xs = "i # remove1 i xs"])
qed

lemma remove1_last: "distinct xs \<Longrightarrow> xs \<noteq> [] \<Longrightarrow> remove1 (last xs) xs = butlast xs"
  by (metis append_Nil2 append_butlast_last_id remove1_split)

lemma put_evict:
  assumes inv: "cache_inv c xs" and miss: "map_of (cache_hmap c) k = None"
    and full: "cache_last c = of_nat (length (cache_m c))"
  shows "\<exists>c'. cache_put k v e c = Some (node_evicted (node_at (cache_m c) (last xs)), c') \<and>
    cache_cap c' = cache_cap c \<and> length xs = cache_cap c \<and>
    cache_repr c' (new_node k v e # butlast (map (node_at (cache_m c)) xs))"
proof -
  let ?t = "last xs"
  have len: "length xs = length (cache_m c)"
    using inv full cache_inv_length [OF inv] by (simp add: cache_inv_def unat_of_nat_u16)
  then have ne: "xs \<noteq> []" using inv by (auto simp: cache_inv_def)
  then have t: "?t \<in> set xs" by simp
  note b = cache_invD [OF inv t]
  have dist: "distinct xs" by (rule cache_inv_distinct [OF inv])
  have tail: "lk (cache_dlnk c) Pv 0 = ?t" "0 < length (cache_dlnk c)"
    using ring_last [of "lk (cache_dlnk c) Nx" "lk (cache_dlnk c) Pv" 0 xs] inv ne
    by (auto simp: cache_inv_def links_ok_def)
  obtain d' where d': "cache_adjust (cache_dlnk c) ?t Pv Nx = Some d'"
    "length d' = length (cache_dlnk c)" "links_ok d' (?t # remove1 ?t xs)"
    using links_front [OF cache_inv_links [OF inv] t] by blast
  let ?ms = "(cache_m c)[unat (?t - 1) := new_node k v e]"
  let ?h = "AList.update k ?t (AList.delete (node_k (node_at (cache_m c) ?t)) (cache_hmap c))"
  let ?c = "c\<lparr>cache_m := ?ms, cache_dlnk := d', cache_hmap := ?h\<rparr>"
  have "cache_put k v e c = Some (node_evicted (node_at (cache_m c) ?t), ?c)"
    using miss full b d' tail by (simp add: cache_put_def go_simps)
  moreover have "map_of ?h k' = Some i \<longleftrightarrow> i \<in> set xs \<and> node_k (node_at ?ms i) = k'" for k' i
  proof -
    have hm: "map_of (cache_hmap c) k' = Some i \<longleftrightarrow> i \<in> set xs \<and> node_k (node_at (cache_m c) i) = k'"
      for k' i using inv by (simp add: cache_inv_def)
    then have "map_of (cache_hmap c) (node_k (node_at (cache_m c) ?t)) = Some ?t" using t by simp
    note inj = cache_inv_key_inj [OF inv this] and other = cache_inv_miss [OF inv miss]
    show ?thesis using b t inj other by (auto simp: go_simps new_node_def hm)
  qed
  then have "cache_inv ?c (?t # remove1 ?t xs)"
    using cache_inv_sizes [OF inv] cache_inv_set [OF inv] d' t dist
    by (intro cache_invI) (simp_all add: insert_absorb)
  moreover have "map (node_at ?ms) (?t # remove1 ?t xs)
      = new_node k v e # butlast (map (node_at (cache_m c)) xs)"
    using b dist ne by (simp add: go_simps) (simp add: remove1_last map_butlast)
  ultimately show ?thesis using len
    by (auto simp: cache_cap_def intro!: cache_reprI [where xs = "?t # remove1 ?t xs"])
qed

lemma put_insert:
  assumes inv: "cache_inv c xs" and miss: "map_of (cache_hmap c) k = None"
    and room: "cache_last c \<noteq> of_nat (length (cache_m c))"
  shows "\<exists>c'. cache_put k v e c = Some (no_evicted, c') \<and>
    cache_cap c' = cache_cap c \<and> length xs < cache_cap c \<and>
    cache_repr c' (new_node k v e # map (node_at (cache_m c)) xs)"
proof -
  let ?d = "cache_dlnk c"
  define l where "l = cache_last c + 1"
  have small: "unat (cache_last c) < length (cache_m c)" "length (cache_m c) < 65535"
    using inv room by (auto simp: cache_inv_def word_unat_eq_iff unat_of_nat_u16 order_le_less)
  then have lS: "unat l = Suc (unat (cache_last c))" by (simp add: l_def unat_word_ariths)
  then have "l \<noteq> 0" "unat (l - 1) < length (cache_m c)" "unat l < length ?d" "l \<notin> set xs"
    using small inv by (auto simp: cache_inv_def word_le_nat_alt unat_pred simp flip: unat_eq_zero)
  note l = lS this
  have r: "ring (lk ?d Nx) (lk ?d Pv) 0 xs" and b0: "0 < length ?d"
    using inv by (auto simp: cache_inv_def links_ok_def)
  have h: "unat (lk ?d Nx 0) < length ?d"
    using ring_succ_mem [OF r, of 0] links_ok_bound [OF cache_inv_links [OF inv]] by auto
  have empty: "lk ?d Nx 0 = 0" if "cache_hmap c = []"
  proof -
    have "i \<notin> set xs" for i using that cache_inv_lookup [OF inv, of _ i] by auto
    then have "xs = []" by (cases xs) auto
    then show ?thesis using ring_first [OF r] by simp
  qed
  let ?ms = "(cache_m c)[unat (l - 1) := new_node k v e]"
  let ?d' = "dupd (dupd (dupd (dupd ?d (lk ?d Nx 0) Pv l) l Pv 0) l Nx (lk ?d Nx 0)) 0 Nx l"
  let ?h = "AList.update k l (cache_hmap c)"
  let ?c = "c\<lparr>cache_m := ?ms, cache_dlnk := ?d', cache_hmap := ?h, cache_last := l\<rparr>"
  have "cache_put k v e c = Some (no_evicted, ?c)"
    using miss room l h b0 empty by (cases "cache_hmap c = []") 
      (simp_all add: cache_put_def go_simps Let_def flip: l_def)
  moreover have hm: "map_of ?h k' = Some i \<longleftrightarrow> i \<in> set (l # xs) \<and> node_k (node_at ?ms i) = k'" for k' i
    using cache_inv_miss [OF inv miss] l by (auto simp: cache_inv_lookup [OF inv] go_simps new_node_def)
  have st: "set (l # xs) = {i. i \<noteq> 0 \<and> i \<le> l}"
    using l by (auto simp: cache_inv_set [OF inv] word_le_nat_alt word_unat_eq_iff)
  moreover have "cache_inv ?c (l # xs)"
  proof (rule cache_invI)
    show "map_of (cache_hmap ?c) k' = Some i \<longleftrightarrow>
        i \<in> set (l # xs) \<and> node_k (node_at (cache_m ?c) i) = k'" for k' i
      using hm [of k' i] by simp
    show "set (l # xs) = {i. i \<noteq> 0 \<and> i \<le> cache_last ?c}" using st by simp
  qed (use cache_inv_sizes [OF inv] small l links_push [OF cache_inv_links [OF inv] l(2,5,4)]
       in simp_all)
  moreover have "map (node_at ?ms) (l # xs) = new_node k v e # map (node_at (cache_m c)) xs"
    using l by (simp add: go_simps)
  ultimately show ?thesis using small cache_inv_length [OF inv]
    by (auto simp: cache_cap_def intro!: cache_reprI [where xs = "l # xs"])
qed

lemma cache_put_sim:
  assumes "cache_repr c ns"
  shows "\<exists>c'. cache_put k v e c = Some (fst (spec_put (cache_cap c) k v e ns), c') \<and>
    cache_repr c' (snd (spec_put (cache_cap c) k v e ns)) \<and> cache_cap c' = cache_cap c"
proof -
  from assms obtain xs where inv: "cache_inv c xs" and ns: "ns = map (node_at (cache_m c)) xs"
    by (auto simp: cache_repr_def)
  have ne: "ns \<noteq> []" if "length ns = cache_cap c"
    using that cache_inv_sizes(2) [OF inv] by (auto simp: cache_cap_def)
  show ?thesis
  proof (cases "map_of (cache_hmap c) k")
    case (Some i)
    with put_hit [OF inv Some, of v e] show ?thesis
      by (auto simp: spec_put_def find_node_repr [OF inv] ns intro: cache_reprI)
  next
    case None
    show ?thesis
    proof (cases "cache_last c = of_nat (length (cache_m c))")
      case True
      from put_evict [OF inv None True, of v e] ne show ?thesis
        by (auto simp: spec_put_def find_node_repr [OF inv] ns None last_map intro: cache_reprI)
    next
      case False
      from put_insert [OF inv None False, of v e] show ?thesis
        by (auto simp: spec_put_def find_node_repr [OF inv] ns None intro: cache_reprI)
    qed
  qed
qed

lemma cache_get_sim:
  assumes "cache_repr c ns"
  shows "\<exists>c'. cache_get k c = Some (fst (spec_get k ns), c') \<and>
    cache_repr c' (snd (spec_get k ns)) \<and> cache_cap c' = cache_cap c"
proof -
  from assms obtain xs where inv: "cache_inv c xs" and ns: "ns = map (node_at (cache_m c)) xs"
    by (auto simp: cache_repr_def)
  show ?thesis
  proof (cases "map_of (cache_hmap c) k")
    case (Some i)
    have i: "i \<in> set xs" using cache_inv_hmap [OF inv Some] by simp
    then obtain d' where d': "cache_adjust (cache_dlnk c) i Pv Nx = Some d'"
      "length d' = length (cache_dlnk c)" "links_ok d' (i # remove1 i xs)"
      using links_front [OF cache_inv_links [OF inv]] by blast
    have "cache_inv (c\<lparr>cache_m := cache_m c, cache_dlnk := d'\<rparr>) (i # remove1 i xs)"
      by (rule cache_inv_relink [OF inv d'(3,2)]) (use i cache_inv_distinct [OF inv] in auto)
    then have "cache_repr (c\<lparr>cache_dlnk := d'\<rparr>) (node_at (cache_m c) i # others k ns)"
      unfolding cache_repr_def ns others_repr [OF inv Some]
      by (intro exI [where x = "i # remove1 i xs"]) simp
    then show ?thesis using Some d' cache_invD(2) [OF inv i]
      by (simp add: cache_get_def spec_get_def find_node_repr [OF inv] ns go_simps cache_cap_def)
  next
    case None
    with assms show ?thesis by (simp add: cache_get_def spec_get_def find_node_repr [OF inv] ns)
  qed
qed

lemma cache_del_sim:
  assumes "cache_repr c ns"
  shows "\<exists>c'. cache_del k c = Some (fst (spec_del k ns), c') \<and>
    cache_repr c' (snd (spec_del k ns)) \<and> cache_cap c' = cache_cap c"
proof -
  from assms obtain xs where inv: "cache_inv c xs" and ns: "ns = map (node_at (cache_m c)) xs"
    by (auto simp: cache_repr_def)
  show ?thesis
  proof (cases "map_of (cache_hmap c) k")
    case (Some i)
    let ?nd = "node_at (cache_m c) i"
    have i: "i \<in> set xs" using cache_inv_hmap [OF inv Some] by simp
    note b = cache_invD(2) [OF inv i]
    show ?thesis
    proof (cases "node_deleted ?nd")
      case True
      with Some b assms show ?thesis
        by (simp add: cache_del_def spec_del_def find_node_repr [OF inv] ns go_simps)
    next
      case False
      obtain d' where d': "cache_adjust (cache_dlnk c) i Nx Pv = Some d'"
        "length d' = length (cache_dlnk c)" "links_ok d' (remove1 i xs @ [i])"
        using links_back [OF cache_inv_links [OF inv] i] by blast
      let ?ms = "(cache_m c)[unat (i - 1) := ?nd\<lparr>node_deleted := True\<rparr>]"
      have dist: "distinct xs" by (rule cache_inv_distinct [OF inv])
      have "cache_inv (c\<lparr>cache_m := ?ms, cache_dlnk := d'\<rparr>) (remove1 i xs @ [i])"
        by (rule cache_inv_relink [OF inv d'(3,2)]) (use i b dist in \<open>auto simp: go_simps\<close>)
      then have "cache_repr (c\<lparr>cache_m := ?ms, cache_dlnk := d'\<rparr>)
          (others k ns @ [?nd\<lparr>node_deleted := True\<rparr>])"
        unfolding cache_repr_def ns others_repr [OF inv Some] using b dist
        by (intro exI [where x = "remove1 i xs @ [i]"]) (simp add: go_simps)
      then show ?thesis using Some False d' b
        by (simp add: cache_del_def spec_del_def find_node_repr [OF inv] ns go_simps cache_cap_def)
    qed
  next
    case None
    with assms show ?thesis by (simp add: cache_del_def spec_del_def find_node_repr [OF inv] ns)
  qed
qed

subsection \<open>The walk terminates\<close>

lemma walk_loop_chain:
  assumes "chain (lk (cache_dlnk c) Nx) (lk (cache_dlnk c) Pv) a xs 0"
    and "\<And>i. i \<in> set xs \<Longrightarrow> i \<noteq> 0 \<and> unat (i - 1) < length (cache_m c) \<and> unat i < length (cache_dlnk c)"
  shows "walk_loop c w (hd (xs @ [0])) st = Some (spec_walk w (map (node_at (cache_m c)) xs) st)"
  using assms
proof (induction xs arbitrary: a st)
  case Nil
  then show ?case by (simp add: walk_loop.simps)
next
  case (Cons i xs)
  then have ch: "chain (lk (cache_dlnk c) Nx) (lk (cache_dlnk c) Pv) i xs 0" by simp
  then have nx: "lk (cache_dlnk c) Nx i = hd (xs @ [0])" by (rule chain_first)
  have i: "i \<noteq> 0" "unat (i - 1) < length (cache_m c)" "unat i < length (cache_dlnk c)"
    using Cons.prems(2) [of i] by auto
  note IH = Cons.IH [OF ch Cons.prems(2)]
  show ?case using i nx IH by (subst walk_loop.simps) (simp add: go_simps Let_def)
qed

lemma cache_walk_sim:
  assumes "cache_repr c ns"
  shows "cache_walk c w st = Some (spec_walk w ns st)"
proof -
  from assms obtain xs where inv: "cache_inv c xs" and ns: "ns = map (node_at (cache_m c)) xs"
    by (auto simp: cache_repr_def)
  then have "chain (lk (cache_dlnk c) Nx) (lk (cache_dlnk c) Pv) 0 xs 0"
    by (simp add: cache_inv_def links_ok_def ring_def)
  moreover from this have "lk (cache_dlnk c) Nx 0 = hd (xs @ [0])" by (rule chain_first)
  ultimately show ?thesis
    using walk_loop_chain [of c 0 xs w st] cache_invD [OF inv] cache_inv_sizes(1) [OF inv]
    by (simp add: cache_walk_def go_simps ns)
qed

lemma spec_walk_fold:
  assumes "\<And>k v e st. w k v e st = (True, f k v e st)"
  shows "spec_walk w ns st = fold (\<lambda>nd. f (node_k nd) (node_v nd) (node_expireAt nd)) (live ns) st"
  using assms by (induction ns arbitrary: st) (auto simp: live_def)

lemma spec_walk_collect:
  "spec_walk collect ns acc = acc @ map (\<lambda>nd. (node_k nd, node_v nd, node_expireAt nd)) (live ns)"
  by (induction ns arbitrary: acc) (auto simp: live_def collect_def)

subsection \<open>Creation\<close>

lemma Create_repr:
  assumes "0 < cp" and "cp < 65535"
  shows "cache_repr (Create cp) []" and "cache_cap (Create cp) = unat cp"
proof -
  have cp: "0 < unat cp" "unat cp < 65535" using assms by (simp_all add: word_less_nat_alt)
  then have "unat (cp + 1) = Suc (unat cp)" by (simp add: unat_word_ariths)
  with cp have "cache_inv (Create cp) []"
    by (intro cache_invI) (auto simp: Create_def links_ok_def ring_def lk_def)
  then show "cache_repr (Create cp) []" by (rule cache_reprI) simp
  show "cache_cap (Create cp) = unat cp" by (simp add: cache_cap_def Create_def)
qed

interpretation level: simulation "\<lambda>c ns. cache_repr c ns \<and> cache_cap c = cp" cache_step "cache_spec cp"
  for cp
proof
  fix c :: "'v cache" and ns x
  assume "cache_repr c ns \<and> cache_cap c = cp"
  then have r: "cache_repr c ns" and cp: "cache_cap c = cp" by auto
  show "\<exists>c'. cache_step x c = Some (fst (cache_spec cp x ns), c') \<and>
      cache_repr c' (snd (cache_spec cp x ns)) \<and> cache_cap c' = cp"
  proof (cases x)
    case (CPut k v e)
    with cache_put_sim [OF r, of k v e] cp show ?thesis by auto
  next
    case (CGet k)
    with cache_get_sim [OF r, of k] cp show ?thesis by auto
  next
    case (CDel k)
    with cache_del_sim [OF r, of k] cp show ?thesis by auto
  next
    case CWalk
    with cache_walk_sim [OF r, of collect "[]"] r cp show ?thesis by (simp add: spec_walk_collect)
  qed
qed

text \<open>
  C2: on a fresh cache of any capacity from 1 to 65534, every sequence of put, get, del and
  walk operations runs without a panic and without a walk that never ends, returns exactly
  what the sequence-level specification returns (evicted entries, hits, deletions, visited
  entries in recency order), and ends in an array state that represents the specification's
  sequence.
\<close>

theorem cache_run_refines:
  assumes "0 < cp" and "cp < 65535"
  shows "\<exists>c'. run_ops cache_step ops (Create cp) = Some (fst (run_spec (cache_spec (unat cp)) ops []), c') \<and>
           cache_repr c' (snd (run_spec (cache_spec (unat cp)) ops [])) \<and> cache_cap c' = unat cp"
  using level.run_sim Create_repr [OF assms] by blast

theorem cache_run_refines_witness:
  "\<exists>c'. run_ops cache_step
      [CPut ''a'' (Some True) 5, CPut ''b'' (Some False) 6, CGet ''a'', CPut ''c'' None 7, CDel ''a'', CWalk]
      (Create 2) =
    Some ([OEvicted no_evicted, OEvicted no_evicted, OGet (Some (new_node ''a'' (Some True) 5)),
           OEvicted \<lparr>ev_key = ''b'', ev_val = Some False, ev_expireAt = 6\<rparr>,
           ODel (Some ((new_node ''a'' (Some True) 5)\<lparr>node_deleted := True\<rparr>, 5)),
           OWalk [(''c'', None, 7)]], c')"
  using cache_run_refines [of 2 "[CPut ''a'' (Some True) 5, CPut ''b'' (Some False) 6, CGet ''a'',
      CPut ''c'' None 7, CDel ''a'', CWalk]"]
  by (simp add: spec_put_def spec_get_def spec_del_def find_node_def others_def live_def new_node_def
      node_evicted_def no_evicted_def Let_def) blast

text \<open>
  A cache created with capacity 65535 is unusable. The length of its link array is
  computed as \<open>cap+1\<close> in \<open>uint16\<close> and wraps to 0, so the first put panics.
\<close>

lemma Create_max_panics: "cache_put k v e (Create 65535 :: 'v cache) = None"
proof -
  have "cache_dlnk (Create 65535 :: 'v cache) = []" and "cache_hmap (Create 65535 :: 'v cache) = []"
    by (simp_all add: Create_def)
  then show ?thesis by (simp add: cache_put_def dset_def dget_def Let_def)
qed

end
