(* ===== verification/Lru2_Bucket.thy ===== *)
theory Lru2_Bucket
  imports Lru2_Cache
begin

text \<open>
  One bucket of the two-level store, \<^verbatim>\<open>store/lru2.go\<close>: the pair \<open>s.caches[idx]\<close>
  and what the methods of \<open>lru2Store\<close> do to it while they hold \<open>s.locks[idx]\<close>.
  Level 1 (\<open>caches[idx][0]\<close>) receives every write; a hit in level 1 moves the entry to
  level 2 (\<open>caches[idx][1]\<close>), and so does an eviction from level 1.

  Each operation is given twice: on the arrays (\<open>bkt_...\<close>, composed of the cache
  operations the way the source composes them, \<open>None\<close> for a panic) and on the pair of
  node sequences (\<open>sp_...\<close>); the simulation lemmas relate the two, and the laws of the
  second half are proved on the sequences. The clock values an operation reads with
  \<open>Now()\<close> are arguments, in the order of the reads. The \<open>onEvicted\<close> callback is the
  flag \<open>cb\<close> (set or nil) and the list of its invocations is part of the result.
\<close>

type_synonym 'v bucket = "'v cache \<times> 'v cache"

text \<open>The expiry test of \<open>Get\<close>, on the clock value it read.\<close>

definition expired :: "int \<Rightarrow> int \<Rightarrow> bool" where
  "expired now e \<longleftrightarrow> e > 0 \<and> e \<noteq> noExpiration \<and> now \<ge> e"

definition evict_calls :: "bool \<Rightarrow> 'v evicted \<Rightarrow> 'v calls" where
  "evict_calls cb ev = (if ev_key ev \<noteq> [] \<and> cb then [(ev_key ev, ev_val ev)] else [])"

text \<open>The validity test of \<open>_get\<close> on the node it found.\<close>

definition get_check :: "int \<Rightarrow> 'v node \<Rightarrow> 'v node option" where
  "get_check now nd =
     (if node_deleted nd then None
      else if node_expireAt nd = noExpiration then Some nd
      else if node_expireAt nd \<le> 0 \<or> now \<ge> node_expireAt nd then None
      else Some nd)"

text \<open>\<open>_get(key, idx, level)\<close>; its only caller passes level 1, the second cache.\<close>

definition bkt__get :: "int \<Rightarrow> string \<Rightarrow> 'v bucket \<Rightarrow> ('v node option \<times> 'v bucket) option" where
  "bkt__get now key b = do {
     (nd, l2) \<leftarrow> cache_get key (snd b);
     Some (Option.bind nd (get_check now), (fst b, l2))
   }"

definition delete_calls ::
  "bool \<Rightarrow> string \<Rightarrow> ('v node \<times> int) option \<Rightarrow> ('v node \<times> int) option \<Rightarrow> 'v calls" where
  "delete_calls cb key r1 r2 =
     (if (r1 \<noteq> None \<or> r2 \<noteq> None) \<and> cb then
        (case r1 of
           Some (n1, _) \<Rightarrow> (if node_v n1 \<noteq> None then [(key, node_v n1)] else
              (case r2 of Some (n2, _) \<Rightarrow> if node_v n2 \<noteq> None then [(key, node_v n2)] else [] | None \<Rightarrow> []))
         | None \<Rightarrow>
              (case r2 of Some (n2, _) \<Rightarrow> if node_v n2 \<noteq> None then [(key, node_v n2)] else [] | None \<Rightarrow> []))
      else [])"

definition bkt_delete :: "bool \<Rightarrow> string \<Rightarrow> 'v bucket \<Rightarrow> (bool \<times> 'v calls \<times> 'v bucket) option" where
  "bkt_delete cb key b = do {
     (r1, l1) \<leftarrow> cache_del key (fst b);
     (r2, l2) \<leftarrow> cache_del key (snd b);
     Some (r1 \<noteq> None \<or> r2 \<noteq> None, delete_calls cb key r1 r2, (l1, l2))
   }"

text \<open>\<open>Get\<close> between \<open>Lock\<close> and \<open>Unlock\<close>; result \<open>None\<close> is \<open>(nil, false)\<close>.\<close>

definition bkt_Get ::
  "bool \<Rightarrow> int \<Rightarrow> int \<Rightarrow> string \<Rightarrow> 'v bucket \<Rightarrow> ('v option option \<times> 'v calls \<times> 'v bucket) option" where
  "bkt_Get cb currentTime now2 key b = do {
     (r1, l1) \<leftarrow> cache_del key (fst b);
     case r1 of
       Some (n1, expireAt) \<Rightarrow>
         if expired currentTime expireAt then Some (None, [], (l1, snd b))
         else do {
           (ev, l2) \<leftarrow> cache_put key (node_v n1) expireAt (snd b);
           Some (Some (node_v n1), evict_calls cb ev, (l1, l2))
         }
     | None \<Rightarrow> do {
         (n2, b) \<leftarrow> bkt__get now2 key (l1, snd b);
         case n2 of
           Some nd \<Rightarrow>
             if expired currentTime (node_expireAt nd) then do {
               (_, cbs, b) \<leftarrow> bkt_delete cb key b;
               Some (None, cbs, b)
             } else Some (Some (node_v nd), [], b)
         | None \<Rightarrow> Some (None, [], b)
       }
   }"

text \<open>\<open>SetWithExpiration\<close> between \<open>Lock\<close> and \<open>Unlock\<close>.\<close>

definition bkt_Set ::
  "bool \<Rightarrow> string \<Rightarrow> 'v option \<Rightarrow> int \<Rightarrow> 'v bucket \<Rightarrow> ('v calls \<times> 'v bucket) option" where
  "bkt_Set cb key val expireAt b = do {
     (ev, l1) \<leftarrow> cache_put key val expireAt (fst b);
     if ev_key ev \<noteq> [] \<and> ev_val ev \<noteq> None \<and> ev_expireAt ev > 0 then do {
       (ev2, l2) \<leftarrow> cache_put (ev_key ev) (ev_val ev) (ev_expireAt ev) (snd b);
       Some (evict_calls cb ev2, (l1, l2))
     } else Some ([], (l1, snd b))
   }"

text \<open>The walkers of \<open>Clear\<close>, \<open>Len\<close> and \<open>cleanupLoop\<close>.\<close>

definition key_walker :: "string \<Rightarrow> 'v option \<Rightarrow> int \<Rightarrow> string list \<Rightarrow> bool \<times> string list" where
  "key_walker key v e ks = (True, List.insert key ks)"

definition count_walker :: "string \<Rightarrow> 'v option \<Rightarrow> int \<Rightarrow> nat \<Rightarrow> bool \<times> nat" where
  "count_walker key v e n = (True, n + 1)"

definition expired_walker1 :: "int \<Rightarrow> string \<Rightarrow> 'v option \<Rightarrow> int \<Rightarrow> string list \<Rightarrow> bool \<times> string list" where
  "expired_walker1 now key v e ks = (True, if e > 0 \<and> now \<ge> e then ks @ [key] else ks)"

definition expired_walker2 :: "int \<Rightarrow> string \<Rightarrow> 'v option \<Rightarrow> int \<Rightarrow> string list \<Rightarrow> bool \<times> string list" where
  "expired_walker2 now key v e ks =
     (True, if e > 0 \<and> now \<ge> e then (if key \<in> set ks then ks else ks @ [key]) else ks)"

definition bkt_keys :: "'v bucket \<Rightarrow> string list \<Rightarrow> string list option" where
  "bkt_keys b ks = do { ks \<leftarrow> cache_walk (fst b) key_walker ks; cache_walk (snd b) key_walker ks }"

definition bkt_Len :: "'v bucket \<Rightarrow> nat \<Rightarrow> nat option" where
  "bkt_Len b n = do { n \<leftarrow> cache_walk (fst b) count_walker n; cache_walk (snd b) count_walker n }"

primrec bkt_delete_all :: "bool \<Rightarrow> string list \<Rightarrow> 'v bucket \<Rightarrow> ('v calls \<times> 'v bucket) option" where
  "bkt_delete_all cb [] b = Some ([], b)"
| "bkt_delete_all cb (k # ks) b = do {
     (_, cbs, b) \<leftarrow> bkt_delete cb k b;
     (cbs', b) \<leftarrow> bkt_delete_all cb ks b;
     Some (cbs @ cbs', b)
   }"

text \<open>One bucket's turn in one tick of \<open>cleanupLoop\<close>.\<close>

definition bkt_cleanup :: "bool \<Rightarrow> int \<Rightarrow> 'v bucket \<Rightarrow> ('v calls \<times> 'v bucket) option" where
  "bkt_cleanup cb currentTime b = do {
     ks \<leftarrow> cache_walk (fst b) (expired_walker1 currentTime) [];
     ks \<leftarrow> cache_walk (snd b) (expired_walker2 currentTime) ks;
     bkt_delete_all cb ks b
   }"

subsection \<open>The sequence level\<close>

type_synonym 'v levels = "'v node list \<times> 'v node list"

definition sp__get :: "int \<Rightarrow> string \<Rightarrow> 'v levels \<Rightarrow> 'v node option \<times> 'v levels" where
  "sp__get now key ab = (let r = spec_get key (snd ab) in
     (Option.bind (fst r) (get_check now), (fst ab, snd r)))"

definition sp_delete :: "bool \<Rightarrow> string \<Rightarrow> 'v levels \<Rightarrow> bool \<times> 'v calls \<times> 'v levels" where
  "sp_delete cb key ab = (let r1 = spec_del key (fst ab); r2 = spec_del key (snd ab) in
     (fst r1 \<noteq> None \<or> fst r2 \<noteq> None, delete_calls cb key (fst r1) (fst r2), (snd r1, snd r2)))"

definition sp_Get ::
  "nat \<Rightarrow> bool \<Rightarrow> int \<Rightarrow> int \<Rightarrow> string \<Rightarrow> 'v levels \<Rightarrow> 'v option option \<times> 'v calls \<times> 'v levels" where
  "sp_Get cp2 cb now1 now2 key ab =
     (case spec_del key (fst ab) of
        (Some (n1, e), a) \<Rightarrow>
          if expired now1 e then (None, [], (a, snd ab))
          else (let r = spec_put cp2 key (node_v n1) e (snd ab)
                in (Some (node_v n1), evict_calls cb (fst r), (a, snd r)))
      | (None, a) \<Rightarrow>
          (case sp__get now2 key (a, snd ab) of
             (Some nd, ab') \<Rightarrow>
               if expired now1 (node_expireAt nd) then (None, snd (sp_delete cb key ab'))
               else (Some (node_v nd), [], ab')
           | (None, ab') \<Rightarrow> (None, [], ab')))"

definition sp_Set ::
  "nat \<Rightarrow> nat \<Rightarrow> bool \<Rightarrow> string \<Rightarrow> 'v option \<Rightarrow> int \<Rightarrow> 'v levels \<Rightarrow> 'v calls \<times> 'v levels" where
  "sp_Set cp1 cp2 cb key val e ab =
     (let r = spec_put cp1 key val e (fst ab); ev = fst r in
      if ev_key ev \<noteq> [] \<and> ev_val ev \<noteq> None \<and> ev_expireAt ev > 0
      then (let r2 = spec_put cp2 (ev_key ev) (ev_val ev) (ev_expireAt ev) (snd ab)
            in (evict_calls cb (fst r2), (snd r, snd r2)))
      else ([], (snd r, snd ab)))"

primrec sp_delete_all :: "bool \<Rightarrow> string list \<Rightarrow> 'v levels \<Rightarrow> 'v calls \<times> 'v levels" where
  "sp_delete_all cb [] ab = ([], ab)"
| "sp_delete_all cb (k # ks) ab =
     (let r = sp_delete cb k ab; rs = sp_delete_all cb ks (snd (snd r))
      in (fst (snd r) @ fst rs, snd rs))"

definition sp_keys :: "'v levels \<Rightarrow> string list \<Rightarrow> string list" where
  "sp_keys ab ks = spec_walk key_walker (snd ab) (spec_walk key_walker (fst ab) ks)"

definition sp_expired :: "int \<Rightarrow> 'v levels \<Rightarrow> string list" where
  "sp_expired now ab =
     spec_walk (expired_walker2 now) (snd ab) (spec_walk (expired_walker1 now) (fst ab) [])"

definition sp_cleanup :: "bool \<Rightarrow> int \<Rightarrow> 'v levels \<Rightarrow> 'v calls \<times> 'v levels" where
  "sp_cleanup cb now ab = sp_delete_all cb (sp_expired now ab) ab"

definition sp_Len :: "'v levels \<Rightarrow> nat" where
  "sp_Len ab = length (live (fst ab)) + length (live (snd ab))"

subsection \<open>Simulation\<close>

definition bkt_repr :: "nat \<Rightarrow> nat \<Rightarrow> 'v bucket \<Rightarrow> 'v levels \<Rightarrow> bool" where
  "bkt_repr cp1 cp2 b ab \<longleftrightarrow>
     cache_repr (fst b) (fst ab) \<and> cache_cap (fst b) = cp1 \<and>
     cache_repr (snd b) (snd ab) \<and> cache_cap (snd b) = cp2"

lemma bkt_repr_pair [simp]:
  "bkt_repr cp1 cp2 (l1, l2) (a, b) \<longleftrightarrow>
     cache_repr l1 a \<and> cache_cap l1 = cp1 \<and> cache_repr l2 b \<and> cache_cap l2 = cp2"
  by (simp add: bkt_repr_def)

lemma bkt_reprE:
  assumes "bkt_repr cp1 cp2 b ab"
  obtains l1 l2 n1 n2 where "b = (l1, l2)" "ab = (n1, n2)" "cache_repr l1 n1" "cache_cap l1 = cp1"
    "cache_repr l2 n2" "cache_cap l2 = cp2"
  using assms by (cases b, cases ab) auto

lemma bkt__get_sim:
  assumes "bkt_repr cp1 cp2 b ab"
  shows "\<exists>b'. bkt__get now k b = Some (fst (sp__get now k ab), b') \<and> bkt_repr cp1 cp2 b' (snd (sp__get now k ab))"
  using assms
proof (rule bkt_reprE)
  fix l1 l2 n1 n2
  assume *: "b = (l1, l2)" "ab = (n1, n2)" "cache_repr l1 n1" "cache_cap l1 = cp1"
    "cache_repr l2 n2" "cache_cap l2 = cp2"
  with cache_get_sim [OF *(5), of k] show ?thesis by (auto simp: bkt__get_def sp__get_def Let_def)
qed

lemma bkt_delete_sim:
  assumes "bkt_repr cp1 cp2 b ab"
  shows "\<exists>b'. bkt_delete cb k b = Some (fst (sp_delete cb k ab), fst (snd (sp_delete cb k ab)), b') \<and>
    bkt_repr cp1 cp2 b' (snd (snd (sp_delete cb k ab)))"
  using assms
proof (rule bkt_reprE)
  fix l1 l2 n1 n2
  assume *: "b = (l1, l2)" "ab = (n1, n2)" "cache_repr l1 n1" "cache_cap l1 = cp1"
    "cache_repr l2 n2" "cache_cap l2 = cp2"
  with cache_del_sim [OF *(3), of k] cache_del_sim [OF *(5), of k] show ?thesis
    by (auto simp: bkt_delete_def sp_delete_def Let_def)
qed

lemma bkt_Set_sim:
  assumes "bkt_repr cp1 cp2 b ab"
  shows "\<exists>b'. bkt_Set cb k v e b = Some (fst (sp_Set cp1 cp2 cb k v e ab), b') \<and>
    bkt_repr cp1 cp2 b' (snd (sp_Set cp1 cp2 cb k v e ab))"
  using assms
proof (rule bkt_reprE)
  fix l1 l2 n1 n2
  assume *: "b = (l1, l2)" "ab = (n1, n2)" "cache_repr l1 n1" "cache_cap l1 = cp1"
    "cache_repr l2 n2" "cache_cap l2 = cp2"
  let ?ev = "fst (spec_put cp1 k v e n1)"
  from * cache_put_sim [OF *(3), of k v e]
    cache_put_sim [OF *(5), of "ev_key ?ev" "ev_val ?ev" "ev_expireAt ?ev"]
  show ?thesis by (auto simp: bkt_Set_def sp_Set_def Let_def)
qed

lemma bkt_Get_sim:
  assumes "bkt_repr cp1 cp2 b ab"
  shows "\<exists>b'. bkt_Get cb t1 t2 k b
      = Some (fst (sp_Get cp2 cb t1 t2 k ab), fst (snd (sp_Get cp2 cb t1 t2 k ab)), b') \<and>
    bkt_repr cp1 cp2 b' (snd (snd (sp_Get cp2 cb t1 t2 k ab)))"
  using assms
proof (rule bkt_reprE)
  fix l1 l2 n1 n2
  assume *: "b = (l1, l2)" "ab = (n1, n2)" "cache_repr l1 n1" "cache_cap l1 = cp1"
    "cache_repr l2 n2" "cache_cap l2 = cp2"
  from cache_del_sim [OF *(3), of k] obtain l1' where
    d: "cache_del k l1 = Some (fst (spec_del k n1), l1')" "cache_repr l1' (snd (spec_del k n1))"
       "cache_cap l1' = cp1" using * by auto
  show ?thesis
  proof (cases "fst (spec_del k n1)")
    case (Some p)
    with * d cache_put_sim [OF *(5), of k "node_v (fst p)" "snd p"] show ?thesis
      by (cases p) (auto simp: bkt_Get_def sp_Get_def Let_def split: prod.split)
  next
    case None
    let ?ab = "(snd (spec_del k n1), n2)"
    have r: "bkt_repr cp1 cp2 (l1', l2) ?ab" using d * by simp
    obtain m1 m2 where b1: "bkt__get t2 k (l1', l2) = Some (fst (sp__get t2 k ?ab), (m1, m2))"
      "bkt_repr cp1 cp2 (m1, m2) (snd (sp__get t2 k ?ab))" using bkt__get_sim [OF r] by fast
    from bkt_delete_sim [OF b1(2), of cb k] show ?thesis using * d None b1
      by (auto simp: bkt_Get_def sp_Get_def split: prod.split option.split)
  qed
qed

lemma bkt_delete_all_sim:
  "bkt_repr cp1 cp2 b ab \<Longrightarrow> \<exists>b'. bkt_delete_all cb ks b = Some (fst (sp_delete_all cb ks ab), b') \<and>
    bkt_repr cp1 cp2 b' (snd (sp_delete_all cb ks ab))"
proof (induction ks arbitrary: b ab)
  case (Cons k ks)
  from bkt_delete_sim [OF Cons.prems, of cb k] obtain b1 where
    "bkt_delete cb k b = Some (fst (sp_delete cb k ab), fst (snd (sp_delete cb k ab)), b1)"
    "bkt_repr cp1 cp2 b1 (snd (snd (sp_delete cb k ab)))" by blast
  with Cons.IH [OF this(2)] show ?case by (auto simp: Let_def)
qed simp

lemma bkt_walk_sim:
  assumes "bkt_repr cp1 cp2 b ab"
  shows "cache_walk (fst b) w st = Some (spec_walk w (fst ab) st)"
    and "cache_walk (snd b) w st = Some (spec_walk w (snd ab) st)"
  using assms by (simp_all add: bkt_repr_def cache_walk_sim)

lemma bkt_cleanup_sim:
  assumes "bkt_repr cp1 cp2 b ab"
  shows "\<exists>b'. bkt_cleanup cb now b = Some (fst (sp_cleanup cb now ab), b') \<and>
    bkt_repr cp1 cp2 b' (snd (sp_cleanup cb now ab))"
  using bkt_delete_all_sim [OF assms, of cb "sp_expired now ab"]
  by (simp add: bkt_cleanup_def sp_cleanup_def sp_expired_def bkt_walk_sim [OF assms])

lemma bkt_keys_sim: "bkt_repr cp1 cp2 b ab \<Longrightarrow> bkt_keys b ks = Some (sp_keys ab ks)"
  by (simp add: bkt_keys_def sp_keys_def bkt_walk_sim [of cp1 cp2 b ab])

lemma spec_walk_count: "spec_walk count_walker ns n = n + length (live ns)"
  by (induction ns arbitrary: n) (auto simp: live_def count_walker_def)

lemma bkt_Len_sim: "bkt_repr cp1 cp2 b ab \<Longrightarrow> bkt_Len b n = Some (n + sp_Len ab)"
  by (simp add: bkt_Len_def sp_Len_def bkt_walk_sim [of cp1 cp2 b ab] spec_walk_count)

end
