(* ===== verification/Lru2_Laws.thy ===== *)
theory Lru2_Laws
  imports Lru2_Bucket
begin

text \<open>
  What the operations of one bucket do to the entries a client can see. \<open>find_live\<close> is
  the entry of a key on one level (not a tombstone); \<open>lookup2\<close> is what a \<open>Get\<close> of
  the bucket sees. The laws say how each operation changes \<open>find_live\<close> on each level,
  and the lemmas after them combine the levels.
\<close>

definition keys_ok :: "'v node list \<Rightarrow> bool" where
  "keys_ok ns \<longleftrightarrow> distinct (map node_k ns)"

definition find_live :: "string \<Rightarrow> 'v node list \<Rightarrow> 'v node option" where
  "find_live k ns = (case find_node k ns of
     Some nd \<Rightarrow> if node_deleted nd then None else Some nd | None \<Rightarrow> None)"

text \<open>Inserting \<open>k\<close> into a full level without \<open>k\<close> drops the last node.\<close>

definition victim :: "nat \<Rightarrow> string \<Rightarrow> 'v node list \<Rightarrow> string option" where
  "victim cp k ns =
     (if find_node k ns = None \<and> length ns = cp \<and> ns \<noteq> [] then Some (node_k (last ns)) else None)"

definition lookup2 :: "int \<Rightarrow> int \<Rightarrow> string \<Rightarrow> 'v levels \<Rightarrow> 'v option option" where
  "lookup2 t1 t2 k ab = (case find_live k (fst ab) of
     Some nd \<Rightarrow> if expired t1 (node_expireAt nd) then None else Some (node_v nd)
   | None \<Rightarrow> (case find_live k (snd ab) of
       Some nd \<Rightarrow> (if get_check t2 nd = None \<or> expired t1 (node_expireAt nd) then None else Some (node_v nd))
     | None \<Rightarrow> None))"

definition levels_ok :: "nat \<Rightarrow> nat \<Rightarrow> 'v levels \<Rightarrow> bool" where
  "levels_ok cp1 cp2 ab \<longleftrightarrow>
     keys_ok (fst ab) \<and> keys_ok (snd ab) \<and> length (fst ab) \<le> cp1 \<and> length (snd ab) \<le> cp2"

subsection \<open>Lookup in a sequence\<close>

lemma find_node_simps [simp]:
  "find_node k [] = None"
  "find_node k (nd # ns) = (if node_k nd = k then Some nd else find_node k ns)"
  by (simp_all add: find_node_def)

lemma find_node_append:
  "find_node k (xs @ ys) = (case find_node k xs of None \<Rightarrow> find_node k ys | Some nd \<Rightarrow> Some nd)"
  by (induction xs) auto

lemma find_node_None: "find_node k ns = None \<longleftrightarrow> k \<notin> node_k ` set ns"
  by (induction ns) auto

lemma find_node_Some_key: "find_node k ns = Some nd \<Longrightarrow> node_k nd = k \<and> nd \<in> set ns"
  by (induction ns) (auto split: if_splits)

lemma find_node_others [simp]: "find_node k' (others k ns) = (if k' = k then None else find_node k' ns)"
  by (induction ns) (auto simp: others_def)

lemma others_subset: "set (others k ns) \<subseteq> set ns"
  by (auto simp: others_def)

lemma keys_ok_Cons [simp]: "keys_ok (nd # ns) \<longleftrightarrow> find_node (node_k nd) ns = None \<and> keys_ok ns"
  by (auto simp: keys_ok_def find_node_None)

lemma keys_ok_Nil [simp]: "keys_ok []"
  by (simp add: keys_ok_def)

lemma keys_ok_others [simp]: "keys_ok ns \<Longrightarrow> keys_ok (others k ns)"
  by (induction ns) (auto simp: others_def keys_ok_def)

lemma length_others:
  "keys_ok ns \<Longrightarrow> find_node k ns = Some nd \<Longrightarrow> Suc (length (others k ns)) = length ns"
proof (induction ns)
  case (Cons n ns)
  have "others (node_k n) ns = ns" if "find_node (node_k n) ns = None"
    using that unfolding others_def find_node_None by (intro filter_True ballI) (metis image_eqI)
  with Cons show ?case by (auto simp: others_def split: if_splits)
qed simp

lemma keys_ok_snoc [simp]: "keys_ok (ns @ [nd]) \<longleftrightarrow> keys_ok ns \<and> find_node (node_k nd) ns = None"
  by (auto simp: keys_ok_def find_node_None)

lemma keys_ok_butlast [simp]: "keys_ok ns \<Longrightarrow> keys_ok (butlast ns)"
  by (cases ns rule: rev_cases) auto

lemma find_node_butlast:
  "keys_ok ns \<Longrightarrow> ns \<noteq> [] \<Longrightarrow>
     find_node k (butlast ns) = (if node_k (last ns) = k then None else find_node k ns)"
  by (cases ns rule: rev_cases) (auto simp: find_node_append split: option.split)

lemma new_node_sel [simp]:
  "node_k (new_node k v e) = k" "node_v (new_node k v e) = v"
  "node_expireAt (new_node k v e) = e" "\<not> node_deleted (new_node k v e)"
  by (simp_all add: new_node_def)

subsection \<open>Laws of one level\<close>

lemma put_keys_ok: "keys_ok ns \<Longrightarrow> keys_ok (snd (spec_put cp k v e ns))"
  by (cases "ns = []") (auto simp: spec_put_def find_node_butlast split: option.split)

lemma get_keys_ok: "keys_ok ns \<Longrightarrow> keys_ok (snd (spec_get k ns))"
  by (auto simp: spec_get_def dest: find_node_Some_key split: option.split)

lemma del_keys_ok: "keys_ok ns \<Longrightarrow> keys_ok (snd (spec_del k ns))"
  by (auto simp: spec_del_def dest: find_node_Some_key split: option.split)

lemma put_length:
  "keys_ok ns \<Longrightarrow> 0 < cp \<Longrightarrow> length ns \<le> cp \<Longrightarrow> length (snd (spec_put cp k v e ns)) \<le> cp"
  by (auto simp: spec_put_def length_others split: option.split)

lemma get_length: "keys_ok ns \<Longrightarrow> length (snd (spec_get k ns)) = length ns"
  by (auto simp: spec_get_def length_others split: option.split)

lemma del_length: "keys_ok ns \<Longrightarrow> length (snd (spec_del k ns)) = length ns"
  by (auto simp: spec_del_def length_others split: option.split)

lemma find_live_put_same [simp]: "find_live k (snd (spec_put cp k v e ns)) = Some (new_node k v e)"
  by (cases "find_node k ns") (simp_all add: find_live_def spec_put_def)

lemma find_live_put_other:
  "keys_ok ns \<Longrightarrow> k' \<noteq> k \<Longrightarrow>
     find_live k' (snd (spec_put cp k v e ns)) = (if victim cp k ns = Some k' then None else find_live k' ns)"
  by (cases "ns = []")
    (auto simp: find_live_def spec_put_def victim_def find_node_butlast split: option.split)

lemma find_live_get [simp]: "find_live k' (snd (spec_get k ns)) = find_live k' ns"
  by (auto simp: find_live_def spec_get_def dest: find_node_Some_key split: option.split)

lemma find_live_del:
  "find_live k' (snd (spec_del k ns)) = (if k' = k then None else find_live k' ns)"
  by (auto simp: find_live_def spec_del_def find_node_append dest: find_node_Some_key split: option.split)

lemma fst_spec_del:
  "fst (spec_del k ns) = map_option (\<lambda>nd. (nd\<lparr>node_deleted := True\<rparr>, node_expireAt nd)) (find_live k ns)"
  by (auto simp: spec_del_def find_live_def split: option.split)

lemma spec_get_check:
  "Option.bind (fst (spec_get k ns)) (get_check t) = Option.bind (find_live k ns) (get_check t)"
  by (auto simp: spec_get_def find_live_def get_check_def split: option.split)

lemma fst_spec_put:
  "fst (spec_put cp k v e ns) =
     (if find_node k ns = None \<and> length ns = cp then node_evicted (last ns) else no_evicted)"
  by (auto simp: spec_put_def split: option.split)

lemma find_live_key: "find_live k ns = Some nd \<Longrightarrow> node_k nd = k \<and> nd \<in> set ns \<and> \<not> node_deleted nd"
  by (auto simp: find_live_def dest: find_node_Some_key split: option.splits if_splits)

lemma mem_live: "keys_ok ns \<Longrightarrow> nd \<in> set (live ns) \<longleftrightarrow> find_live (node_k nd) ns = Some nd"
proof (induction ns)
  case (Cons n ns)
  then show ?case
    by (auto simp: live_def find_live_def dest: find_node_Some_key split: option.splits if_splits)
qed (simp add: live_def find_live_def)

lemmas level_laws = put_keys_ok get_keys_ok del_keys_ok find_live_put_other find_live_del
  fst_spec_del spec_get_check

subsection \<open>Laws of the bucket\<close>

lemma get_check_some: "get_check t nd = Some x \<Longrightarrow> x = nd"
  by (auto simp: get_check_def split: if_splits)

lemma sp_Get_result: "fst (sp_Get cp2 cb t1 t2 k ab) = lookup2 t1 t2 k ab"
proof (cases "find_live k (fst ab)")
  case None
  then have "fst (spec_del k (fst ab)) = None" by (simp add: fst_spec_del)
  with None show ?thesis
    by (auto simp: sp_Get_def lookup2_def sp__get_def spec_get_check Let_def
        dest: get_check_some split: prod.split option.split)
next
  case (Some nd)
  then show ?thesis using fst_spec_del [of k "fst ab"]
    by (auto simp: sp_Get_def lookup2_def Let_def split: prod.split)
qed

lemma sp_Get_levels_ok:
  assumes "levels_ok cp1 cp2 ab" and "0 < cp2"
  shows "levels_ok cp1 cp2 (snd (snd (sp_Get cp2 cb t1 t2 k ab)))"
proof -
  note laws = put_keys_ok get_keys_ok del_keys_ok put_length get_length del_length
  have "keys_ok (fst ab)" "keys_ok (snd ab)" "length (fst ab) \<le> cp1" "length (snd ab) \<le> cp2"
    using assms by (simp_all add: levels_ok_def)
  moreover obtain r a where ra: "spec_del k (fst ab) = (r, a)" by fastforce
  moreover from this calculation have "keys_ok a" "length a \<le> cp1"
    using del_keys_ok [of "fst ab" k] del_length [of "fst ab" k] by auto
  ultimately show ?thesis using assms(2)
    by (auto simp: sp_Get_def levels_ok_def sp__get_def sp_delete_def laws Let_def
        split: prod.split option.split)
qed

lemma sp_Set_levels_ok:
  assumes "levels_ok cp1 cp2 ab" and "0 < cp1" and "0 < cp2"
  shows "levels_ok cp1 cp2 (snd (sp_Set cp1 cp2 cb k v e ab))"
  using assms by (simp add: sp_Set_def levels_ok_def put_keys_ok put_length Let_def)

lemma sp_delete_levels_ok:
  "levels_ok cp1 cp2 ab \<Longrightarrow> levels_ok cp1 cp2 (snd (snd (sp_delete cb k ab)))"
  by (simp add: sp_delete_def levels_ok_def del_keys_ok del_length Let_def)

lemma sp_delete_all_levels_ok:
  "levels_ok cp1 cp2 ab \<Longrightarrow> levels_ok cp1 cp2 (snd (sp_delete_all cb ks ab))"
  by (induction ks arbitrary: ab) (auto simp: Let_def sp_delete_levels_ok)

lemma sp_delete_live:
  "find_live k' (fst (snd (snd (sp_delete cb k ab)))) = (if k' = k then None else find_live k' (fst ab))"
  "find_live k' (snd (snd (snd (sp_delete cb k ab)))) = (if k' = k then None else find_live k' (snd ab))"
  by (simp_all add: sp_delete_def find_live_del Let_def)

lemma sp_delete_all_live:
  "find_live k (fst (snd (sp_delete_all cb ks ab))) = (if k \<in> set ks then None else find_live k (fst ab))"
  "find_live k (snd (snd (sp_delete_all cb ks ab))) = (if k \<in> set ks then None else find_live k (snd ab))"
  by (induction ks arbitrary: ab) (auto simp: Let_def sp_delete_live)

lemma sp_delete_result:
  "fst (sp_delete cb k ab) \<longleftrightarrow> find_live k (fst ab) \<noteq> None \<or> find_live k (snd ab) \<noteq> None"
  by (simp add: sp_delete_def fst_spec_del Let_def)

subsection \<open>Walkers\<close>

lemma spec_walk_keys: "set (spec_walk key_walker ns ks) = set ks \<union> node_k ` set (live ns)"
  by (induction ns arbitrary: ks) (auto simp: live_def key_walker_def)

lemma sp_keys_set: "set (sp_keys ab ks) = set ks \<union> node_k ` set (live (fst ab)) \<union> node_k ` set (live (snd ab))"
  by (auto simp: sp_keys_def spec_walk_keys)

text \<open>The cleanup test has no exception for \<open>noExpiration\<close>.\<close>

definition stale :: "int \<Rightarrow> 'v node \<Rightarrow> bool" where
  "stale now nd \<longleftrightarrow> node_expireAt nd > 0 \<and> now \<ge> node_expireAt nd"

lemma spec_walk_expired:
  "set (spec_walk (expired_walker1 now) ns ks) = set ks \<union> node_k ` {nd \<in> set (live ns). stale now nd}"
  "set (spec_walk (expired_walker2 now) ns ks) = set ks \<union> node_k ` {nd \<in> set (live ns). stale now nd}"
  by (induction ns arbitrary: ks) (auto simp: live_def expired_walker1_def expired_walker2_def stale_def)

lemma sp_expired_set:
  assumes "keys_ok (fst ab)" and "keys_ok (snd ab)"
  shows "k \<in> set (sp_expired now ab) \<longleftrightarrow>
    (\<exists>nd. (find_live k (fst ab) = Some nd \<or> find_live k (snd ab) = Some nd) \<and> stale now nd)"
proof -
  have "set (sp_expired now ab) = node_k ` {nd \<in> set (live (fst ab)). stale now nd}
      \<union> node_k ` {nd \<in> set (live (snd ab)). stale now nd}"
    by (simp add: sp_expired_def spec_walk_expired)
  then show ?thesis using assms
    by (auto simp: mem_live image_iff dest: find_live_key) (metis find_live_key)+
qed

lemma live_empty: "keys_ok ns \<Longrightarrow> live ns = [] \<longleftrightarrow> (\<forall>k. find_live k ns = None)"
  by (metis find_live_key list.set_intros(1) mem_live neq_Nil_conv option.distinct(1) ex_in_conv set_empty option.exhaust)

end
