(* ===== verification/Store_Options.thy ===== *)
theory Store_Options
  imports Prelude
begin

text \<open>
  The configuration types of \<^verbatim>\<open>store/store.go\<close> and the arithmetic that
  \<^verbatim>\<open>store/lru2.go\<close> derives bucket numbers with: the BKDR hash of a key and the bucket
  mask. The mask is computed by smearing the highest set bit to the right; the lemmas show
  what it computes on the whole \<open>uint16\<close> range, including where \<open>mask+1\<close> wraps.
\<close>

type_synonym CacheType = string

definition LRU_type :: CacheType where "LRU_type = ''lru''"

definition LRU2_type :: CacheType where "LRU2_type = ''lru2''"

text \<open>\<open>time.Minute\<close> and \<open>time.Second\<close> in nanoseconds.\<close>

definition time_Second :: int where "time_Second = 1000000000"

definition time_Minute :: int where "time_Minute = 60 * time_Second"

record Options =
  MaxBytes :: int
  BucketCount :: u16
  CapPerBucket :: u16
  Level2Cap :: u16
  CleanupInterval :: int
  OnEvicted :: bool

definition NewOptions :: Options where
  "NewOptions = \<lparr>MaxBytes = 8192, BucketCount = 16, CapPerBucket = 512, Level2Cap = 256,
     CleanupInterval = time_Minute, OnEvicted = False\<rparr>"

text \<open>\<open>hashBKRD\<close> in \<open>int32\<close> arithmetic.\<close>

definition hashBKRD :: "string \<Rightarrow> u32" where
  "hashBKRD s = foldl (\<lambda>hash c. hash * 131 + of_char c) 0 s"

definition maskOfNextPowOf2 :: "u16 \<Rightarrow> u16" where
  "maskOfNextPowOf2 cp =
     (if cp > 0 \<and> cp AND (cp - 1) = 0 then cp - 1
      else let cp = cp OR drop_bit 1 cp;
               cp = cp OR drop_bit 2 cp;
               cp = cp OR drop_bit 4 cp
           in cp OR drop_bit 8 cp)"

subsection \<open>The mask\<close>

lemma smear_step:
  fixes x c :: u16
  assumes "\<And>i. bit x i \<longleftrightarrow> (\<exists>d<n. bit c (i + d))"
  shows "bit (x OR drop_bit n x) i \<longleftrightarrow> (\<exists>d<2 * n. bit c (i + d))"
proof -
  have "bit (x OR drop_bit n x) i \<longleftrightarrow> (\<exists>d<n. bit c (i + d)) \<or> (\<exists>d<n. bit c (n + i + d))"
    by (simp add: bit_or_iff bit_drop_bit_eq assms)
  also have "\<dots> \<longleftrightarrow> (\<exists>d<2 * n. bit c (i + d))"
  proof
    assume "(\<exists>d<n. bit c (i + d)) \<or> (\<exists>d<n. bit c (n + i + d))"
    then show "\<exists>d<2 * n. bit c (i + d)"
    proof
      assume "\<exists>d<n. bit c (n + i + d)"
      then obtain d where "d < n" "bit c (i + (n + d))" by (auto simp: ac_simps)
      then show ?thesis by (intro exI [of _ "n + d"]) simp
    qed (metis mult_2 trans_less_add1)
  next
    assume "\<exists>d<2 * n. bit c (i + d)"
    then obtain d where d: "d < 2 * n" "bit c (i + d)" by blast
    show "(\<exists>d<n. bit c (i + d)) \<or> (\<exists>d<n. bit c (n + i + d))"
    proof (cases "d < n")
      case False
      with d show ?thesis by (intro disjI2 exI [of _ "d - n"]) (auto simp: ac_simps)
    qed (use d in blast)
  qed
  finally show ?thesis .
qed

lemma top_bit:
  fixes c :: u16
  assumes "c \<noteq> 0"
  obtains k where "k < 16" "2 ^ k \<le> unat c" "unat c < 2 ^ Suc k"
proof -
  have "1 \<le> unat c" using assms by (simp add: Suc_le_eq unat_gt_0)
  then obtain k where k: "2 ^ k \<le> unat c" "unat c < 2 ^ (k + 1)" using ex_power_ivl1 [of 2 "unat c"] by auto
  have "(2::nat) ^ k < 2 ^ 16" using k(1) unat_u16_less [of c] by simp
  then have "k < 16" by (simp only: power_strict_increasing_iff)
  with k show ?thesis by (intro that) simp_all
qed

lemma bit_unat: "bit (c :: u16) n \<longleftrightarrow> odd (unat c div 2 ^ n)"
proof -
  have "bit c n \<longleftrightarrow> bit (unat c) n" by (simp add: bit_unsigned_iff)
  also have "\<dots> \<longleftrightarrow> odd (unat c div 2 ^ n)" by (rule bit_iff_odd)
  finally show ?thesis .
qed

lemma bit_above: "unat (c :: u16) < 2 ^ Suc k \<Longrightarrow> bit c j \<Longrightarrow> j \<le> k"
proof (rule ccontr)
  assume c: "unat c < 2 ^ Suc k" "bit c j" and "\<not> j \<le> k"
  then have "(2::nat) ^ Suc k \<le> 2 ^ j" by (intro power_increasing) auto
  with c show False by (simp add: bit_unat)
qed

lemma bit_top:
  assumes "2 ^ k \<le> unat (c :: u16)" and "unat c < 2 ^ Suc k"
  shows "bit c k"
proof -
  have "unat c div 2 ^ k = 1" using assms by (intro div_nat_eqI) simp_all
  then show ?thesis by (simp add: bit_unat)
qed

lemma smear_mask:
  fixes r c :: u16
  assumes k: "k < 16" "2 ^ k \<le> unat c" "unat c < 2 ^ Suc k"
    and r: "\<And>i. bit r i \<longleftrightarrow> (\<exists>d<16. bit c (i + d))"
  shows "r = mask (Suc k)"
proof (rule bit_eqI)
  fix i
  have "(\<exists>d<16. bit c (i + d)) \<longleftrightarrow> i \<le> k"
  proof
    assume "\<exists>d<16. bit c (i + d)"
    then show "i \<le> k" using bit_above [OF k(3)] by force
  next
    assume "i \<le> k"
    then show "\<exists>d<16. bit c (i + d)" using bit_top [OF k(2,3)] k(1) by (intro exI [of _ "k - i"]) simp
  qed
  then show "bit r i \<longleftrightarrow> bit (mask (Suc k) :: u16) i" using r k(1) by (auto simp: bit_mask_iff)
qed

lemma smear_bits:
  fixes c :: u16
  defines "c1 \<equiv> c OR drop_bit 1 c"
  defines "c2 \<equiv> c1 OR drop_bit 2 c1"
  defines "c3 \<equiv> c2 OR drop_bit 4 c2"
  shows "bit (c3 OR drop_bit 8 c3) i \<longleftrightarrow> (\<exists>d<16. bit c (i + d))"
proof -
  have "bit c1 i \<longleftrightarrow> (\<exists>d<2. bit c (i + d))" for i
    unfolding c1_def using smear_step [of c 1 c i] by simp
  then have "bit c2 i \<longleftrightarrow> (\<exists>d<4. bit c (i + d))" for i
    unfolding c2_def using smear_step [of c1 2 c i] by simp
  then have "bit c3 i \<longleftrightarrow> (\<exists>d<8. bit c (i + d))" for i
    unfolding c3_def using smear_step [of c2 4 c i] by simp
  then show ?thesis using smear_step [of c3 8 c i] by simp
qed

lemma unat_mask_u16: "n \<le> 16 \<Longrightarrow> unat (mask n :: u16) = 2 ^ n - 1"
proof -
  assume "n \<le> 16"
  then have "(2::nat) ^ n \<le> 2 ^ 16" by (intro power_increasing) simp_all
  then have "unat (of_nat (2 ^ n - 1) :: u16) = 2 ^ n - 1" by (intro unat_of_nat_u16) simp
  then show ?thesis by (simp add: mask_eq_exp_minus_1)
qed

lemma power2_test:
  fixes c :: u16
  assumes k: "2 ^ k \<le> unat c" "unat c < 2 ^ Suc k"
  shows "c AND (c - 1) = 0 \<longleftrightarrow> unat c = 2 ^ k"
proof -
  have "c \<noteq> 0" using k(1) by auto
  then have pred: "unat (c - 1) = unat c - 1" by (simp add: unat_minus_one)
  show ?thesis
  proof
    assume z: "c AND (c - 1) = 0"
    show "unat c = 2 ^ k"
    proof (rule ccontr)
      assume "unat c \<noteq> 2 ^ k"
      then have "bit (c - 1) k" using k pred by (intro bit_top) auto
      with bit_top [OF k] have "bit (c AND (c - 1)) k" by (simp add: bit_and_iff)
      with z show False by simp
    qed
  next
    assume c: "unat c = 2 ^ k"
    show "c AND (c - 1) = 0"
    proof (rule bit_eqI)
      fix i
      have "i = k" if b: "bit c i"
      proof -
        have "i \<le> k" using bit_above [OF k(2) b] .
        then have "unat c div 2 ^ i = 2 ^ (k - i)" using c by (simp add: power_diff)
        with b have "odd ((2::nat) ^ (k - i))" by (simp add: bit_unat)
        with \<open>i \<le> k\<close> show ?thesis by simp
      qed
      moreover have "\<not> bit (c - 1) k" using c pred by (simp add: bit_unat)
      ultimately show "bit (c AND (c - 1)) i \<longleftrightarrow> bit 0 i" by (auto simp: bit_and_iff)
    qed
  qed
qed

lemma mask_value:
  assumes k: "k < 16" "2 ^ k \<le> unat c" "unat c < 2 ^ Suc k"
  shows "unat (maskOfNextPowOf2 c) = (if unat c = 2 ^ k then 2 ^ k - 1 else 2 ^ Suc k - 1)"
proof -
  have "c > 0" using k(2) by (auto simp: word_greater_zero_iff)
  show ?thesis
  proof (cases "unat c = 2 ^ k")
    case True
    then have "maskOfNextPowOf2 c = c - 1"
      using power2_test [OF k(2,3)] \<open>c > 0\<close> by (simp add: maskOfNextPowOf2_def)
    moreover have "unat (c - 1) = unat c - 1" using \<open>c > 0\<close> by (simp add: unat_minus_one)
    ultimately show ?thesis using True by simp
  next
    case False
    then have "maskOfNextPowOf2 c = mask (Suc k)"
      using power2_test [OF k(2,3)] smear_mask [OF k smear_bits]
      by (simp add: maskOfNextPowOf2_def Let_def)
    then show ?thesis using k(1) False by (simp add: unat_mask_u16 del: power_Suc)
  qed
qed

lemma mask_least:
  assumes "c \<noteq> 0"
  obtains j where "j \<le> 16" "maskOfNextPowOf2 c = mask j" "unat c \<le> 2 ^ j"
    "\<And>i. unat c \<le> 2 ^ i \<Longrightarrow> j \<le> i"
proof -
  obtain k where k: "k < 16" "2 ^ k \<le> unat c" "unat c < 2 ^ Suc k" using top_bit [OF assms] .
  define j where "j = (if unat c = 2 ^ k then k else Suc k)"
  have "unat (maskOfNextPowOf2 c) = unat (mask j :: u16)"
    using k(1) by (simp add: mask_value [OF k] unat_mask_u16 j_def del: power_Suc)
  then have "maskOfNextPowOf2 c = mask j" by (rule word_unat_eq_iff [THEN iffD2])
  moreover have "j \<le> i" if "unat c \<le> 2 ^ i" for i
  proof -
    have "(2::nat) ^ k \<le> 2 ^ i" using k(2) that by (rule order_trans)
    then have "k \<le> i" by (rule power_le_imp_le_exp [rotated]) simp
    moreover have "k \<noteq> i" if "unat c \<noteq> 2 ^ k" using that k(2) \<open>unat c \<le> 2 ^ i\<close> by auto
    ultimately show ?thesis by (auto simp: j_def)
  qed
  ultimately show ?thesis using k by (intro that [of j]) (auto simp: j_def)
qed



end
