(* ===== verification/Lru2_Store.thy ===== *)
theory Lru2_Store
  imports Lru2_Laws Store_Options
begin

text \<open>
  The two-level store \<open>lru2Store\<close> of \<^verbatim>\<open>store/lru2.go\<close>: a table of buckets indexed by
  the masked hash of the key, one lock per bucket. Every method holds the lock of the bucket
  while it works on it, so a method that touches one bucket is one step of the model;
  \<open>Clear\<close>, \<open>Len\<close> and a tick of \<open>cleanupLoop\<close> visit the buckets one after the
  other. The clock readings and the iteration order of the key set in \<open>Clear\<close> are
  arguments.
\<close>

record 'v lru2Store =
  s_caches :: "'v bucket list"
  s_onEvicted :: bool
  s_cleanupTick :: bool
  s_mask :: u32

definition newLRU2Cache :: "Options \<Rightarrow> 'v lru2Store" where
  "newLRU2Cache opts =
     (let bc = (if BucketCount opts = 0 then 16 else BucketCount opts);
          c1 = (if CapPerBucket opts = 0 then 1024 else CapPerBucket opts);
          c2 = (if Level2Cap opts = 0 then 1024 else Level2Cap opts);
          mk = maskOfNextPowOf2 bc
      in \<lparr>s_caches = replicate (unat (mk + 1)) (Create c1, Create c2),
          s_onEvicted = OnEvicted opts, s_cleanupTick = True, s_mask = ucast mk\<rparr>)"

text \<open>\<open>hashBKRD(key) & s.mask\<close> as an index of \<open>s.locks\<close> and \<open>s.caches\<close>.\<close>

definition lru2_idx :: "'v lru2Store \<Rightarrow> string \<Rightarrow> nat option" where
  "lru2_idx s key = (let i = sint (hashBKRD key AND s_mask s) in
     if 0 \<le> i \<and> i < int (length (s_caches s)) then Some (nat i) else None)"

definition lru2_Get ::
  "int \<Rightarrow> int \<Rightarrow> string \<Rightarrow> 'v lru2Store \<Rightarrow> ('v option option \<times> 'v calls \<times> 'v lru2Store) option" where
  "lru2_Get currentTime now2 key s = do {
     idx \<leftarrow> lru2_idx s key;
     (r, cbs, b) \<leftarrow> bkt_Get (s_onEvicted s) currentTime now2 key (s_caches s ! idx);
     Some (r, cbs, s\<lparr>s_caches := (s_caches s)[idx := b]\<rparr>)
   }"

definition expire_at :: "int \<Rightarrow> int \<Rightarrow> int" where
  "expire_at now expiration = (if expiration > 0 then wrap64 (now + expiration) else noExpiration)"

definition lru2_SetWithExpiration ::
  "int \<Rightarrow> string \<Rightarrow> 'v option \<Rightarrow> int \<Rightarrow> 'v lru2Store \<Rightarrow> ('v calls \<times> 'v lru2Store) option" where
  "lru2_SetWithExpiration now key val expiration s = do {
     let expireAt = expire_at now expiration;
     idx \<leftarrow> lru2_idx s key;
     (cbs, b) \<leftarrow> bkt_Set (s_onEvicted s) key val expireAt (s_caches s ! idx);
     Some (cbs, s\<lparr>s_caches := (s_caches s)[idx := b]\<rparr>)
   }"

definition lru2_Set ::
  "int \<Rightarrow> string \<Rightarrow> 'v option \<Rightarrow> 'v lru2Store \<Rightarrow> ('v calls \<times> 'v lru2Store) option" where
  "lru2_Set now key val s = lru2_SetWithExpiration now key val 0 s"

definition lru2_Delete :: "string \<Rightarrow> 'v lru2Store \<Rightarrow> (bool \<times> 'v calls \<times> 'v lru2Store) option" where
  "lru2_Delete key s = do {
     idx \<leftarrow> lru2_idx s key;
     (r, cbs, b) \<leftarrow> bkt_delete (s_onEvicted s) key (s_caches s ! idx);
     Some (r, cbs, s\<lparr>s_caches := (s_caches s)[idx := b]\<rparr>)
   }"

primrec keys_loop :: "'v bucket list \<Rightarrow> string list \<Rightarrow> string list option" where
  "keys_loop [] ks = Some ks"
| "keys_loop (b # bs) ks = do { ks \<leftarrow> bkt_keys b ks; keys_loop bs ks }"

primrec delete_loop :: "string list \<Rightarrow> 'v lru2Store \<Rightarrow> ('v calls \<times> 'v lru2Store) option" where
  "delete_loop [] s = Some ([], s)"
| "delete_loop (k # ks) s = do {
     (_, cbs, s) \<leftarrow> lru2_Delete k s;
     (cbs', s) \<leftarrow> delete_loop ks s;
     Some (cbs @ cbs', s)
   }"

text \<open>\<open>ord\<close> is the order in which \<open>range\<close> yields the collected key set.\<close>

definition lru2_Clear ::
  "(string list \<Rightarrow> string list) \<Rightarrow> 'v lru2Store \<Rightarrow> ('v calls \<times> 'v lru2Store) option" where
  "lru2_Clear ord s = do { ks \<leftarrow> keys_loop (s_caches s) []; delete_loop (ord ks) s }"

primrec len_loop :: "'v bucket list \<Rightarrow> nat \<Rightarrow> nat option" where
  "len_loop [] n = Some n"
| "len_loop (b # bs) n = do { n \<leftarrow> bkt_Len b n; len_loop bs n }"

definition lru2_Len :: "'v lru2Store \<Rightarrow> nat option" where
  "lru2_Len s = len_loop (s_caches s) 0"

definition lru2_Close :: "'v lru2Store \<Rightarrow> 'v lru2Store" where
  "lru2_Close s = s\<lparr>s_cleanupTick := False\<rparr>"

primrec cleanup_loop :: "bool \<Rightarrow> int \<Rightarrow> 'v bucket list \<Rightarrow> ('v calls \<times> 'v bucket list) option" where
  "cleanup_loop cb now [] = Some ([], [])"
| "cleanup_loop cb now (b # bs) = do {
     (cbs, b) \<leftarrow> bkt_cleanup cb now b;
     (cbs', bs) \<leftarrow> cleanup_loop cb now bs;
     Some (cbs @ cbs', b # bs)
   }"

text \<open>One tick of \<open>cleanupLoop\<close>; a stopped ticker delivers no tick.\<close>

definition lru2_cleanup :: "int \<Rightarrow> 'v lru2Store \<Rightarrow> ('v calls \<times> 'v lru2Store) option" where
  "lru2_cleanup currentTime s =
     (if s_cleanupTick s then do {
        (cbs, bs) \<leftarrow> cleanup_loop (s_onEvicted s) currentTime (s_caches s);
        Some (cbs, s\<lparr>s_caches := bs\<rparr>)
      } else Some ([], s))"

subsection \<open>Operations as steps\<close>

datatype 'v store_op =
    SGet int int string
  | SSet int string "'v option" int
  | SDelete string
  | SClear "string list \<Rightarrow> string list"
  | SLen
  | SClose
  | SCleanup int

datatype 'v store_out = RGet "'v option option" | RDone | RDeleted bool | RLen nat

primrec lru2_step ::
  "'v store_op \<Rightarrow> 'v lru2Store \<Rightarrow> (('v store_out \<times> 'v calls) \<times> 'v lru2Store) option" where
  "lru2_step (SGet t1 t2 k) s = do { (r, cbs, s) \<leftarrow> lru2_Get t1 t2 k s; Some ((RGet r, cbs), s) }"
| "lru2_step (SSet now k v ttl) s =
     do { (cbs, s) \<leftarrow> lru2_SetWithExpiration now k v ttl s; Some ((RDone, cbs), s) }"
| "lru2_step (SDelete k) s = do { (r, cbs, s) \<leftarrow> lru2_Delete k s; Some ((RDeleted r, cbs), s) }"
| "lru2_step (SClear ord) s = do { (cbs, s) \<leftarrow> lru2_Clear ord s; Some ((RDone, cbs), s) }"
| "lru2_step SLen s = do { n \<leftarrow> lru2_Len s; Some ((RLen n, []), s) }"
| "lru2_step SClose s = Some ((RDone, []), lru2_Close s)"
| "lru2_step (SCleanup now) s = do { (cbs, s) \<leftarrow> lru2_cleanup now s; Some ((RDone, cbs), s) }"

subsection \<open>The specification\<close>

text \<open>The abstract store: the node sequences of both levels of every bucket.\<close>

record 'v lru2Spec =
  sp_caps :: "nat \<times> nat"
  sp_cb :: bool
  sp_tick :: bool
  sp_levels :: "'v levels list"

definition sidx :: "nat \<Rightarrow> string \<Rightarrow> nat" where
  "sidx n key = unat (hashBKRD key) mod n"

definition on_levels :: "'v lru2Spec \<Rightarrow> string \<Rightarrow> 'v levels" where
  "on_levels a k = sp_levels a ! sidx (length (sp_levels a)) k"

definition set_levels :: "string \<Rightarrow> 'v levels \<Rightarrow> 'v lru2Spec \<Rightarrow> 'v lru2Spec" where
  "set_levels k ab a = a\<lparr>sp_levels := (sp_levels a)[sidx (length (sp_levels a)) k := ab]\<rparr>"

definition ss_Delete :: "string \<Rightarrow> 'v lru2Spec \<Rightarrow> bool \<times> 'v calls \<times> 'v lru2Spec" where
  "ss_Delete k a = (let r = sp_delete (sp_cb a) k (on_levels a k)
     in (fst r, fst (snd r), set_levels k (snd (snd r)) a))"

primrec ss_delete_loop :: "string list \<Rightarrow> 'v lru2Spec \<Rightarrow> 'v calls \<times> 'v lru2Spec" where
  "ss_delete_loop [] a = ([], a)"
| "ss_delete_loop (k # ks) a =
     (let r = ss_Delete k a; rs = ss_delete_loop ks (snd (snd r)) in (fst (snd r) @ fst rs, snd rs))"

definition ss_keys :: "'v lru2Spec \<Rightarrow> string list" where
  "ss_keys a = fold sp_keys (sp_levels a) []"

primrec lru2_spec :: "'v store_op \<Rightarrow> 'v lru2Spec \<Rightarrow> ('v store_out \<times> 'v calls) \<times> 'v lru2Spec" where
  "lru2_spec (SGet t1 t2 k) a =
     (let r = sp_Get (snd (sp_caps a)) (sp_cb a) t1 t2 k (on_levels a k)
      in ((RGet (fst r), fst (snd r)), set_levels k (snd (snd r)) a))"
| "lru2_spec (SSet now k v ttl) a =
     (let r = sp_Set (fst (sp_caps a)) (snd (sp_caps a)) (sp_cb a) k v (expire_at now ttl) (on_levels a k)
      in ((RDone, fst r), set_levels k (snd r) a))"
| "lru2_spec (SDelete k) a = (let r = ss_Delete k a in ((RDeleted (fst r), fst (snd r)), snd (snd r)))"
| "lru2_spec (SClear ord) a = (let r = ss_delete_loop (ord (ss_keys a)) a in ((RDone, fst r), snd r))"
| "lru2_spec SLen a = ((RLen (sum_list (map sp_Len (sp_levels a))), []), a)"
| "lru2_spec SClose a = ((RDone, []), a\<lparr>sp_tick := False\<rparr>)"
| "lru2_spec (SCleanup now) a =
     (if sp_tick a
      then ((RDone, concat (map (\<lambda>ab. fst (sp_cleanup (sp_cb a) now ab)) (sp_levels a))),
            a\<lparr>sp_levels := map (\<lambda>ab. snd (sp_cleanup (sp_cb a) now ab)) (sp_levels a)\<rparr>)
      else ((RDone, []), a))"

definition store_repr :: "'v lru2Store \<Rightarrow> 'v lru2Spec \<Rightarrow> bool" where
  "store_repr s a \<longleftrightarrow>
     (\<exists>j \<le> 15. s_mask s = mask j \<and> length (s_caches s) = 2 ^ j) \<and>
     s_onEvicted s = sp_cb a \<and> s_cleanupTick s = sp_tick a \<and>
     list_all2 (bkt_repr (fst (sp_caps a)) (snd (sp_caps a))) (s_caches s) (sp_levels a)"

subsection \<open>Bucket numbers\<close>

lemma lru2_idx_in:
  assumes "store_repr s a"
  shows "lru2_idx s k = Some (sidx (length (sp_levels a)) k)"
    and "sidx (length (sp_levels a)) k < length (s_caches s)"
    and "length (s_caches s) = length (sp_levels a)"
proof -
  from assms obtain j where j: "j \<le> 15" "s_mask s = mask j" "length (s_caches s) = 2 ^ j"
    by (auto simp: store_repr_def)
  show len: "length (s_caches s) = length (sp_levels a)"
    using assms by (auto simp: store_repr_def dest: list_all2_lengthD)
  let ?w = "hashBKRD k AND s_mask s"
  have w: "?w = take_bit j (hashBKRD k)" using j by (simp add: take_bit_eq_mask)
  then have u: "unat ?w = unat (hashBKRD k) mod 2 ^ j"
    by (simp only: unsigned_take_bit_eq take_bit_eq_mod [where 'a = nat])
  show lt: "sidx (length (sp_levels a)) k < length (s_caches s)"
    using j len by (simp add: sidx_def)
  have "(2::nat) ^ j \<le> 2 ^ 15" using j(1) by (intro power_increasing) simp_all
  then have "unat ?w < 2 ^ 31" using lt u j by (simp add: order_less_le_trans [of _ "2 ^ j"])
  then have "sint ?w = int (unat ?w)" by (rule sint_small)
  also have "unat ?w = sidx (length (sp_levels a)) k" using u j len by (simp add: sidx_def)
  finally show "lru2_idx s k = Some (sidx (length (sp_levels a)) k)"
    using lt by (simp add: lru2_idx_def)
qed


lemma store_bucket:
  assumes "store_repr s a"
  shows "bkt_repr (fst (sp_caps a)) (snd (sp_caps a)) (s_caches s ! sidx (length (sp_levels a)) k) (on_levels a k)"
  using assms lru2_idx_in(2) [OF assms, of k] unfolding on_levels_def store_repr_def
  by (auto intro: list_all2_nthD)

lemma store_repr_set:
  assumes "store_repr s a" and "bkt_repr (fst (sp_caps a)) (snd (sp_caps a)) b ab"
  shows "store_repr (s\<lparr>s_caches := (s_caches s)[sidx (length (sp_levels a)) k := b]\<rparr>) (set_levels k ab a)"
  using assms by (auto simp: store_repr_def set_levels_def intro: list_all2_update_cong)

lemma store_repr_replace:
  assumes "store_repr s a" and "length bs = length (s_caches s)"
    and "list_all2 (bkt_repr (fst (sp_caps a)) (snd (sp_caps a))) bs ls"
  shows "store_repr (s\<lparr>s_caches := bs\<rparr>) (a\<lparr>sp_levels := ls\<rparr>)"
  using assms by (simp add: store_repr_def)

subsection \<open>Simulation\<close>

lemma Delete_sim:
  assumes "store_repr s a"
  shows "\<exists>s'. lru2_Delete k s = Some (fst (ss_Delete k a), fst (snd (ss_Delete k a)), s') \<and>
    store_repr s' (snd (snd (ss_Delete k a)))"
proof -
  have cb: "s_onEvicted s = sp_cb a" using assms by (simp add: store_repr_def)
  obtain b where b: "bkt_delete (sp_cb a) k (s_caches s ! sidx (length (sp_levels a)) k)
      = Some (fst (sp_delete (sp_cb a) k (on_levels a k)), fst (snd (sp_delete (sp_cb a) k (on_levels a k))), b)"
    "bkt_repr (fst (sp_caps a)) (snd (sp_caps a)) b (snd (snd (sp_delete (sp_cb a) k (on_levels a k))))"
    using bkt_delete_sim [OF store_bucket [OF assms]] by blast
  with store_repr_set [OF assms b(2)] show ?thesis
    by (auto simp: lru2_Delete_def ss_Delete_def lru2_idx_in [OF assms] cb Let_def)
qed

lemma delete_loop_sim:
  "store_repr s a \<Longrightarrow> \<exists>s'. delete_loop ks s = Some (fst (ss_delete_loop ks a), s') \<and>
     store_repr s' (snd (ss_delete_loop ks a))"
proof (induction ks arbitrary: s a)
  case (Cons k ks)
  from Delete_sim [OF Cons.prems, of k] obtain s1 where
    "lru2_Delete k s = Some (fst (ss_Delete k a), fst (snd (ss_Delete k a)), s1)"
    "store_repr s1 (snd (snd (ss_Delete k a)))" by blast
  with Cons.IH [OF this(2)] show ?case by (auto simp: Let_def)
qed simp

lemma keys_loop_sim:
  "list_all2 (bkt_repr c1 c2) bs abl \<Longrightarrow> keys_loop bs ks = Some (fold sp_keys abl ks)"
  by (induction arbitrary: ks rule: list_all2_induct) (auto simp: bkt_keys_sim)

lemma len_loop_sim:
  "list_all2 (bkt_repr c1 c2) bs abl \<Longrightarrow> len_loop bs n = Some (n + sum_list (map sp_Len abl))"
  by (induction arbitrary: n rule: list_all2_induct) (auto simp: bkt_Len_sim)

lemma cleanup_loop_sim:
  "list_all2 (bkt_repr c1 c2) bs abl \<Longrightarrow>
     \<exists>bs'. cleanup_loop cb now bs = Some (concat (map (\<lambda>ab. fst (sp_cleanup cb now ab)) abl), bs') \<and> length bs' = length bs \<and>
       list_all2 (bkt_repr c1 c2) bs' (map (\<lambda>ab. snd (sp_cleanup cb now ab)) abl)"
proof (induction rule: list_all2_induct)
  case (Cons b bs ab abl)
  then show ?case using bkt_cleanup_sim [OF Cons.hyps(1), of cb now] by auto
qed simp

lemma lru2_step_sim:
  assumes "store_repr s a"
  shows "\<exists>s'. lru2_step x s = Some (fst (lru2_spec x a), s') \<and> store_repr s' (snd (lru2_spec x a))"
proof -
  note bkt = store_bucket [OF assms] and idx = lru2_idx_in [OF assms]
  have cb: "s_onEvicted s = sp_cb a" "s_cleanupTick s = sp_tick a"
    and all: "list_all2 (bkt_repr (fst (sp_caps a)) (snd (sp_caps a))) (s_caches s) (sp_levels a)"
    using assms by (simp_all add: store_repr_def)
  show ?thesis
  proof (cases x)
    case (SGet t1 t2 k)
    from bkt_Get_sim [OF bkt] obtain b where
      b: "bkt_Get (sp_cb a) t1 t2 k (s_caches s ! sidx (length (sp_levels a)) k) =
          Some (fst (sp_Get (snd (sp_caps a)) (sp_cb a) t1 t2 k (on_levels a k)),
                fst (snd (sp_Get (snd (sp_caps a)) (sp_cb a) t1 t2 k (on_levels a k))), b)"
         "bkt_repr (fst (sp_caps a)) (snd (sp_caps a)) b
            (snd (snd (sp_Get (snd (sp_caps a)) (sp_cb a) t1 t2 k (on_levels a k))))" by blast
    with SGet store_repr_set [OF assms b(2)] show ?thesis
      by (auto simp: lru2_Get_def idx cb Let_def)
  next
    case (SSet now k v ttl)
    let ?r = "sp_Set (fst (sp_caps a)) (snd (sp_caps a)) (sp_cb a) k v (expire_at now ttl) (on_levels a k)"
    from bkt_Set_sim [OF bkt] obtain b where
      b: "bkt_Set (sp_cb a) k v (expire_at now ttl) (s_caches s ! sidx (length (sp_levels a)) k) = Some (fst ?r, b)"
         "bkt_repr (fst (sp_caps a)) (snd (sp_caps a)) b (snd ?r)" by blast
    with SSet store_repr_set [OF assms b(2)] show ?thesis
      by (auto simp: lru2_SetWithExpiration_def idx cb Let_def)
  next
    case (SDelete k)
    with Delete_sim [OF assms, of k] show ?thesis by (auto simp: Let_def)
  next
    case (SClear ord)
    with delete_loop_sim [OF assms, of "ord (ss_keys a)"] show ?thesis
      by (auto simp: lru2_Clear_def keys_loop_sim [OF all] ss_keys_def Let_def)
  next
    case SLen
    with assms show ?thesis by (simp add: lru2_Len_def len_loop_sim [OF all])
  next
    case SClose
    with assms show ?thesis by (simp add: lru2_Close_def store_repr_def)
  next
    case (SCleanup now)
    from cleanup_loop_sim [OF all, of "sp_cb a" now] SCleanup assms show ?thesis
      by (auto simp: lru2_cleanup_def cb intro: store_repr_replace)
  qed
qed

interpretation lru2: simulation store_repr lru2_step lru2_spec
  by unfold_locales (rule lru2_step_sim)


subsection \<open>Well-formed stores\<close>

definition node_keys :: "'v node list \<Rightarrow> string set" where
  "node_keys ns = node_k ` set ns"

definition level_keys :: "'v levels \<Rightarrow> string set" where
  "level_keys ab = node_keys (fst ab) \<union> node_keys (snd ab)"

definition spec_ok :: "'v lru2Spec \<Rightarrow> bool" where
  "spec_ok a \<longleftrightarrow>
     0 < fst (sp_caps a) \<and> 0 < snd (sp_caps a) \<and> sp_levels a \<noteq> [] \<and>
     (\<forall>i < length (sp_levels a).
        levels_ok (fst (sp_caps a)) (snd (sp_caps a)) (sp_levels a ! i) \<and>
        (\<forall>k \<in> level_keys (sp_levels a ! i). sidx (length (sp_levels a)) k = i))"

definition lru2_ok :: "'v lru2Store \<Rightarrow> bool" where
  "lru2_ok s \<longleftrightarrow> (\<exists>a. store_repr s a \<and> spec_ok a)"

definition opts_ok :: "Options \<Rightarrow> bool" where
  "opts_ok opts \<longleftrightarrow> BucketCount opts \<le> 32768 \<and> CapPerBucket opts \<noteq> 65535 \<and> Level2Cap opts \<noteq> 65535"

definition lru2_init :: "Options \<Rightarrow> 'v lru2Spec" where
  "lru2_init opts =
     \<lparr>sp_caps = (unat (if CapPerBucket opts = 0 then 1024 else CapPerBucket opts),
                 unat (if Level2Cap opts = 0 then 1024 else Level2Cap opts)),
      sp_cb = OnEvicted opts, sp_tick = True,
      sp_levels = replicate (unat (maskOfNextPowOf2 (if BucketCount opts = 0 then 16 else BucketCount opts) + 1))
        ([], [])\<rparr>"

lemma sidx_less: "spec_ok a \<Longrightarrow> sidx (length (sp_levels a)) k < length (sp_levels a)"
  by (simp add: spec_ok_def sidx_def)

lemma on_levels_set:
  assumes "spec_ok a"
  shows "on_levels (set_levels k ab a) k' =
    (if sidx (length (sp_levels a)) k' = sidx (length (sp_levels a)) k then ab else on_levels a k')"
  using sidx_less [OF assms, of k] by (simp add: on_levels_def set_levels_def nth_list_update)

lemma on_levels_set_same [simp]: "spec_ok a \<Longrightarrow> on_levels (set_levels k ab a) k = ab"
  by (simp add: on_levels_set)

lemma set_levels_sel [simp]:
  "sp_caps (set_levels k ab a) = sp_caps a" "sp_cb (set_levels k ab a) = sp_cb a"
  "sp_tick (set_levels k ab a) = sp_tick a" "length (sp_levels (set_levels k ab a)) = length (sp_levels a)"
  by (simp_all add: set_levels_def)

lemma spec_ok_levels:
  "spec_ok a \<Longrightarrow> levels_ok (fst (sp_caps a)) (snd (sp_caps a)) (on_levels a k)"
  using sidx_less [of a k] by (simp add: spec_ok_def on_levels_def)

lemma spec_ok_caps: "spec_ok a \<Longrightarrow> 0 < fst (sp_caps a) \<and> 0 < snd (sp_caps a)"
  by (simp add: spec_ok_def)

lemma spec_ok_set:
  assumes "spec_ok a" and "levels_ok (fst (sp_caps a)) (snd (sp_caps a)) ab"
    and "level_keys ab \<subseteq> insert k (level_keys (on_levels a k))"
  shows "spec_ok (set_levels k ab a)"
proof -
  let ?n = "length (sp_levels a)"
  have "levels_ok (fst (sp_caps a)) (snd (sp_caps a)) ((sp_levels a)[sidx ?n k := ab] ! i) \<and>
      (\<forall>k' \<in> level_keys ((sp_levels a)[sidx ?n k := ab] ! i). sidx ?n k' = i)" if "i < ?n" for i
  proof (cases "i = sidx ?n k")
    case True
    have "\<forall>k' \<in> level_keys (on_levels a k). sidx ?n k' = i"
      using assms(1) that True by (auto simp: spec_ok_def on_levels_def)
    with assms True that show ?thesis by auto
  next
    case False
    with assms(1) that show ?thesis by (simp add: spec_ok_def)
  qed
  note each = this
  have "0 < fst (sp_caps a)" "0 < snd (sp_caps a)" "sp_levels a \<noteq> []"
    using assms(1) by (simp_all add: spec_ok_def)
  moreover have "sp_levels (set_levels k ab a) = (sp_levels a)[sidx ?n k := ab]" by (simp add: set_levels_def)
  ultimately show ?thesis
    unfolding spec_ok_def set_levels_sel using each by (metis list_update_nonempty)
qed

subsection \<open>Keys stay in their bucket\<close>

lemma node_keys_others: "node_keys (others k ns) \<subseteq> node_keys ns"
  by (auto simp: others_def node_keys_def)

lemma put_keys: "node_keys (snd (spec_put cp k v e ns)) \<subseteq> insert k (node_keys ns)"
  using node_keys_others [of k ns]
  by (auto simp: spec_put_def node_keys_def dest: in_set_butlastD split: option.split)

lemma get_keys: "node_keys (snd (spec_get k ns)) \<subseteq> node_keys ns"
  using node_keys_others [of k ns]
  by (auto simp: spec_get_def node_keys_def dest: find_node_Some_key split: option.split)

lemma del_keys: "node_keys (snd (spec_del k ns)) \<subseteq> node_keys ns"
  using node_keys_others [of k ns]
  by (auto simp: spec_del_def node_keys_def dest!: find_node_Some_key split: option.split)

lemma evicted_key:
  assumes "0 < cp" and "ev_key (fst (spec_put cp k v e ns)) \<noteq> []"
  shows "ev_key (fst (spec_put cp k v e ns)) \<in> node_keys ns"
  using assms by (auto simp: fst_spec_put node_evicted_def no_evicted_def node_keys_def split: if_splits)

lemma sp_delete_keys: "level_keys (snd (snd (sp_delete cb k ab))) \<subseteq> level_keys ab"
  using del_keys [of k "fst ab"] del_keys [of k "snd ab"] by (auto simp: sp_delete_def level_keys_def Let_def)

lemma sp_Get_keys: "level_keys (snd (snd (sp_Get cp cb t1 t2 k ab))) \<subseteq> insert k (level_keys ab)"
proof -
  obtain r a where ra: "spec_del k (fst ab) = (r, a)" by fastforce
  with del_keys [of k "fst ab"] have a: "node_keys a \<subseteq> node_keys (fst ab)" by simp
  show ?thesis
  proof (cases r)
    case (Some p)
    with a ra put_keys [of cp k "node_v (fst p)" "snd p" "snd ab"] show ?thesis
      by (auto simp: sp_Get_def level_keys_def Let_def split: prod.split)
  next
    case None
    let ?g = "sp__get t2 k (a, snd ab)"
    have "level_keys (snd ?g) \<subseteq> level_keys ab"
      using a get_keys [of k "snd ab"] by (auto simp: sp__get_def level_keys_def Let_def)
    moreover have "level_keys (snd (snd (sp_delete cb k (snd ?g)))) \<subseteq> level_keys (snd ?g)"
      by (rule sp_delete_keys)
    ultimately show ?thesis using ra None
      by (auto simp: sp_Get_def split: prod.splits option.splits)
  qed
qed

lemma sp_Set_keys:
  assumes "0 < cp1"
  shows "level_keys (snd (sp_Set cp1 cp2 cb k v e ab)) \<subseteq> insert k (level_keys ab)"
proof -
  let ?ev = "fst (spec_put cp1 k v e (fst ab))"
  show ?thesis
    using put_keys [of cp1 k v e "fst ab"] evicted_key [OF assms, of k v e "fst ab"]
      put_keys [of cp2 "ev_key ?ev" "ev_val ?ev" "ev_expireAt ?ev" "snd ab"]
    by (auto simp: sp_Set_def level_keys_def Let_def)
qed

lemma sp_delete_all_keys: "level_keys (snd (sp_delete_all cb ks ab)) \<subseteq> level_keys ab"
proof (induction ks arbitrary: ab)
  case (Cons k ks)
  show ?case using Cons.IH [of "snd (snd (sp_delete cb k ab))"] sp_delete_keys [of cb k ab]
    by (auto simp: Let_def)
qed simp

lemma ss_Delete_ok: "spec_ok a \<Longrightarrow> spec_ok (snd (snd (ss_Delete k a)))"
  using sp_delete_keys [of "sp_cb a" k "on_levels a k"]
  by (auto simp: ss_Delete_def Let_def intro!: spec_ok_set sp_delete_levels_ok spec_ok_levels)

lemma ss_delete_loop_ok: "spec_ok a \<Longrightarrow> spec_ok (snd (ss_delete_loop ks a))"
  by (induction ks arbitrary: a) (auto simp: Let_def ss_Delete_ok)

lemma cleanup_ok:
  assumes "spec_ok a"
  shows "spec_ok (a\<lparr>sp_levels := map (\<lambda>ab. snd (sp_cleanup cb now ab)) (sp_levels a)\<rparr>)"
  using assms unfolding spec_ok_def
  by (auto simp: sp_cleanup_def sp_delete_all_levels_ok dest!: subsetD [OF sp_delete_all_keys])

lemma lru2_spec_ok:
  assumes ok: "spec_ok a"
  shows "spec_ok (snd (lru2_spec x a))"
proof (cases x)
  case (SGet t1 t2 k)
  then show ?thesis
    using spec_ok_set [OF ok sp_Get_levels_ok [OF spec_ok_levels [OF ok]] sp_Get_keys] spec_ok_caps [OF ok]
    by (simp add: Let_def)
next
  case (SSet now k v ttl)
  then show ?thesis
    using spec_ok_set [OF ok sp_Set_levels_ok [OF spec_ok_levels [OF ok]] sp_Set_keys] spec_ok_caps [OF ok]
    by (simp add: Let_def)
next
  case SClose
  then show ?thesis using ok by (simp add: spec_ok_def)
qed (use ok in \<open>auto simp: Let_def ss_Delete_ok ss_delete_loop_ok cleanup_ok\<close>)

lemma lru2_run_ok: "spec_ok a \<Longrightarrow> spec_ok (snd (run_spec lru2_spec xs a))"
  by (induction xs arbitrary: a) (auto simp: Let_def lru2_spec_ok)

end
