(* ===== verification/Lru2_Theorems.thy ===== *)
theory Lru2_Theorems
  imports Lru2_Store
begin

text \<open>
  Properties of the two-level store as a client of the \<open>Store\<close> interface sees it. Each
  one is about the methods of \<open>lru2Store\<close> on the arrays; the proofs go through the
  simulation to the node sequences and the laws of one bucket.
\<close>

subsection \<open>A new store\<close>

lemma ucast_mask: "j \<le> 15 \<Longrightarrow> ucast (mask j :: u16) = (mask j :: u32)"
  by (rule bit_eqI) (auto simp: bit_ucast_iff bit_mask_iff)

lemma mask_table:
  assumes "c \<noteq> 0" and "c \<le> 32768"
  obtains j where "j \<le> 15" "maskOfNextPowOf2 c = mask j" "unat (maskOfNextPowOf2 c + 1) = 2 ^ j"
proof -
  obtain j where j: "j \<le> 16" "maskOfNextPowOf2 c = mask j" "\<And>i. unat c \<le> 2 ^ i \<Longrightarrow> j \<le> i"
    using mask_least [OF assms(1)] by metis
  have "unat c \<le> 2 ^ 15" using assms(2) by (simp add: word_le_nat_alt)
  then have j15: "j \<le> 15" by (rule j(3))
  then have "(2::nat) ^ j \<le> 2 ^ 15" by (intro power_increasing) simp_all
  then have "unat (of_nat (2 ^ j) :: u16) = 2 ^ j" by (intro unat_of_nat_u16) simp
  then have "unat (mask j + 1 :: u16) = 2 ^ j" by (simp add: mask_eq_exp_minus_1)
  with j j15 show ?thesis by (intro that [of j]) simp_all
qed

lemma newLRU2_repr:
  assumes "opts_ok opts"
  shows "store_repr (newLRU2Cache opts) (lru2_init opts)" and "spec_ok (lru2_init opts)"
proof -
  define bc where "bc = (if BucketCount opts = 0 then 16 else BucketCount opts)"
  define c1 where "c1 = (if CapPerBucket opts = 0 then 1024 else CapPerBucket opts)"
  define c2 where "c2 = (if Level2Cap opts = 0 then 1024 else Level2Cap opts)"
  have "bc \<noteq> 0" "bc \<le> 32768" using assms by (auto simp: bc_def opts_ok_def)
  then obtain j where j: "j \<le> 15" "maskOfNextPowOf2 bc = mask j" "unat (maskOfNextPowOf2 bc + 1) = 2 ^ j"
    by (rule mask_table)
  have max: "c < 65535" if "c \<noteq> 65535" for c :: u16
    using that unat_u16_less [of c] by (auto simp: word_less_nat_alt word_unat_eq_iff)
  have "c1 \<noteq> 65535" "c1 \<noteq> 0" "c2 \<noteq> 65535" "c2 \<noteq> 0" using assms by (auto simp: c1_def c2_def opts_ok_def)
  then have c: "0 < c1" "c1 < 65535" "0 < c2" "c2 < 65535" using max by (auto simp: word_greater_zero_iff)
  have new: "newLRU2Cache opts = \<lparr>s_caches = replicate (2 ^ j) (Create c1, Create c2),
      s_onEvicted = OnEvicted opts, s_cleanupTick = True, s_mask = mask j\<rparr>"
    using j by (simp add: newLRU2Cache_def ucast_mask Let_def flip: bc_def c1_def c2_def)
  have init: "lru2_init opts = \<lparr>sp_caps = (unat c1, unat c2), sp_cb = OnEvicted opts, sp_tick = True,
      sp_levels = replicate (2 ^ j) ([], [])\<rparr>"
    using j by (simp add: lru2_init_def flip: bc_def c1_def c2_def)
  show "store_repr (newLRU2Cache opts) (lru2_init opts)"
    using Create_repr [OF c(1,2)] Create_repr [OF c(3,4)] j(1)
    by (auto simp: new init store_repr_def list_all2_conv_all_nth)
  show "spec_ok (lru2_init opts)"
    using c by (auto simp: init spec_ok_def levels_ok_def level_keys_def node_keys_def unat_gt_0)
qed

lemma newLRU2_ok: "opts_ok opts \<Longrightarrow> lru2_ok (newLRU2Cache opts)"
  using newLRU2_repr unfolding lru2_ok_def by blast

subsection \<open>The methods on a well-formed store\<close>

lemma Get_sim:
  assumes "store_repr s a"
  shows "\<exists>s'. lru2_Get t1 t2 k s = Some (lookup2 t1 t2 k (on_levels a k),
      fst (snd (sp_Get (snd (sp_caps a)) (sp_cb a) t1 t2 k (on_levels a k))), s') \<and>
    store_repr s' (snd (lru2_spec (SGet t1 t2 k) a))"
  using lru2_step_sim [OF assms, of "SGet t1 t2 k"]
  by (auto simp: Let_def sp_Get_result split: bind_splits)

lemma Set_sim:
  assumes "store_repr s a"
  shows "\<exists>cbs s'. lru2_SetWithExpiration now k v ttl s = Some (cbs, s') \<and>
    store_repr s' (snd (lru2_spec (SSet now k v ttl) a))"
  using lru2_step_sim [OF assms, of "SSet now k v ttl"] by (auto simp: Let_def split: bind_splits)

lemma lru2_okE:
  assumes "lru2_ok s"
  obtains a where "store_repr s a" "spec_ok a"
  using assms by (auto simp: lru2_ok_def)

lemma lru2_okI: "store_repr s (snd (lru2_spec x a)) \<Longrightarrow> spec_ok a \<Longrightarrow> lru2_ok s"
  using lru2_spec_ok unfolding lru2_ok_def by blast

definition small_opts :: Options where
  "small_opts = \<lparr>MaxBytes = 0, BucketCount = 2, CapPerBucket = 1, Level2Cap = 1,
     CleanupInterval = time_Minute, OnEvicted = True\<rparr>"

lemma small_opts_ok: "opts_ok small_opts"
  by (simp add: opts_ok_def small_opts_def)

subsection \<open>One bucket, by level\<close>

lemma spec_del_miss: "find_live k ns = None \<Longrightarrow> spec_del k ns = (None, ns)"
  by (auto simp: spec_del_def find_live_def split: option.splits if_splits)

lemma Get_level1:
  assumes "find_live k (fst ab) = Some nd"
  shows "snd (snd (sp_Get cp cb t1 t2 k ab)) =
    (snd (spec_del k (fst ab)),
     if expired t1 (node_expireAt nd) then snd ab
     else snd (spec_put cp k (node_v nd) (node_expireAt nd) (snd ab)))"
  using assms fst_spec_del [of k "fst ab"]
  by (cases "spec_del k (fst ab)") (auto simp: sp_Get_def Let_def)

lemma Get_level2:
  assumes "find_live k (fst ab) = None" and "find_live k (snd ab) = Some nd"
    and "\<not> expired t1 (node_expireAt nd) \<or> get_check t2 nd = None"
  shows "snd (snd (sp_Get cp cb t1 t2 k ab)) = (fst ab, snd (spec_get k (snd ab)))"
  using assms spec_get_check [of k "snd ab" t2]
  by (auto simp: sp_Get_def sp__get_def spec_del_miss Let_def dest: get_check_some split: option.split)

lemma Get_miss:
  assumes "find_live k (fst ab) = None" and "find_live k (snd ab) = None"
  shows "sp_Get cp cb t1 t2 k ab = (None, [], (fst ab, snd (spec_get k (snd ab))))"
  using assms spec_get_check [of k "snd ab" t2]
  by (auto simp: sp_Get_def sp__get_def spec_del_miss Let_def split: option.split)

lemma Set_level1:
  "fst (snd (sp_Set c1 c2 cb k v e ab)) = snd (spec_put c1 k v e (fst ab))"
  by (simp add: sp_Set_def Let_def)

text \<open>A write to a key that level 1 already knows (live or tombstone) leaves level 2 alone.\<close>

lemma Set_known:
  assumes "find_node k (fst ab) \<noteq> None"
  shows "snd (snd (sp_Set c1 c2 cb k v e ab)) = snd ab"
  using assms by (auto simp: sp_Set_def fst_spec_put no_evicted_def Let_def)

lemma find_node_del: "find_node k ns \<noteq> None \<Longrightarrow> find_node k (snd (spec_del k ns)) \<noteq> None"
  by (auto simp: spec_del_def find_node_append dest: find_node_Some_key split: option.splits)

lemma find_node_put: "find_node k (snd (spec_put cp k v e ns)) \<noteq> None"
  by (auto simp: spec_put_def split: option.split)

text \<open>The bucket holds the value \<open>v\<close> with expiry \<open>e\<close> for \<open>k\<close>, on the level \<open>Get\<close> reads.\<close>

definition holds :: "string \<Rightarrow> 'v option \<Rightarrow> int \<Rightarrow> 'v levels \<Rightarrow> bool" where
  "holds k v e ab \<longleftrightarrow>
     (case find_live k (fst ab) of
        Some nd \<Rightarrow> node_v nd = v \<and> node_expireAt nd = e
      | None \<Rightarrow> (case find_live k (snd ab) of Some nd \<Rightarrow> node_v nd = v \<and> node_expireAt nd = e | None \<Rightarrow> False))"

lemma get_check_valid: "\<not> node_deleted nd \<Longrightarrow> 0 < node_expireAt nd \<Longrightarrow>
  \<not> expired t (node_expireAt nd) \<Longrightarrow> get_check t nd = Some nd"
  by (auto simp: get_check_def expired_def)

lemma holds_lookup:
  assumes "holds k v e ab" and "0 < e" and "\<not> expired t1 e" and "\<not> expired t2 e"
  shows "lookup2 t1 t2 k ab = Some v"
proof (cases "find_live k (fst ab)")
  case None
  then obtain nd where nd: "find_live k (snd ab) = Some nd" "node_v nd = v" "node_expireAt nd = e"
    using assms(1) by (auto simp: holds_def split: option.splits)
  with assms(2,4) find_live_key [OF nd(1)] have "get_check t2 nd = Some nd"
    by (intro get_check_valid) auto
  with None nd assms(3) show ?thesis by (simp add: lookup2_def)
qed (use assms in \<open>auto simp: holds_def lookup2_def\<close>)

lemma holds_Get:
  assumes "holds k v e ab" and "\<not> expired t1 e"
  shows "holds k v e (snd (snd (sp_Get cp cb t1 t2 k ab)))"
proof (cases "find_live k (fst ab)")
  case None
  then obtain nd where nd: "find_live k (snd ab) = Some nd" "node_v nd = v" "node_expireAt nd = e"
    using assms(1) by (auto simp: holds_def split: option.splits)
  with assms(2) None show ?thesis by (simp add: Get_level2 holds_def)
next
  case (Some nd)
  with assms have "node_v nd = v" "node_expireAt nd = e" by (auto simp: holds_def)
  with Some assms(2) show ?thesis by (simp add: Get_level1 holds_def find_live_del)
qed

lemma holds_Set: "holds k v e (snd (sp_Set c1 c2 cb k v e ab))"
  by (simp add: holds_def Set_level1)

text \<open>Writing another key keeps a level-1 entry, on level 1 or moved to level 2.\<close>

lemma holds_Set_other:
  assumes "keys_ok (fst ab)" and "0 < c1" and "k' \<noteq> k" and "k' \<noteq> []" and "0 < e'"
    and live: "find_live k' (fst ab) = Some (new_node k' (Some v') e')"
  shows "holds k' (Some v') e' (snd (sp_Set c1 c2 cb k v e ab))"
proof (cases "victim c1 k (fst ab) = Some k'")
  case False
  then show ?thesis using assms by (simp add: holds_def Set_level1 find_live_put_other)
next
  case True
  then have full: "find_node k (fst ab) = None" "length (fst ab) = c1" "fst ab \<noteq> []" "node_k (last (fst ab)) = k'"
    by (auto simp: victim_def split: if_splits)
  have "find_node k' (fst ab) = Some (last (fst ab))"
    using assms(1) full(3,4) by (cases "fst ab" rule: rev_cases) (auto simp: find_node_append split: option.split)
  then have "last (fst ab) = new_node k' (Some v') e'"
    using live by (auto simp: find_live_def split: if_splits)
  then have "fst (spec_put c1 k v e (fst ab)) = \<lparr>ev_key = k', ev_val = Some v', ev_expireAt = e'\<rparr>"
    using full by (simp add: fst_spec_put node_evicted_def)
  then have "snd (sp_Set c1 c2 cb k v e ab) =
      (snd (spec_put c1 k v e (fst ab)), snd (spec_put c2 k' (Some v') e' (snd ab)))"
    using assms(4,5) by (simp add: sp_Set_def Let_def)
  moreover have "find_live k' (snd (spec_put c1 k v e (fst ab))) = None"
    using True assms(1,3) by (simp add: find_live_put_other)
  ultimately show ?thesis by (simp add: holds_def)
qed

lemma on_levels_same:
  "sidx (length (sp_levels a)) k = sidx (length (sp_levels a)) k' \<Longrightarrow> on_levels a k = on_levels a k'"
  by (simp add: on_levels_def)

lemma holds_after_Set:
  assumes "spec_ok a" and "k' \<noteq> k" and "k' \<noteq> []" and "0 < e'"
    and live: "find_live k' (fst (on_levels a k')) = Some (new_node k' (Some v') e')"
  shows "holds k' (Some v') e' (on_levels (snd (lru2_spec (SSet now k v ttl) a)) k')"
proof (cases "sidx (length (sp_levels a)) k' = sidx (length (sp_levels a)) k")
  case False
  then show ?thesis using live assms(1) by (simp add: Let_def on_levels_set holds_def)
next
  case True
  have "keys_ok (fst (on_levels a k'))" using spec_ok_levels [OF assms(1), of k'] by (simp add: levels_ok_def)
  then show ?thesis
    using holds_Set_other [OF _ _ assms(2,3,4) live] spec_ok_caps [OF assms(1)] True assms(1)
    by (simp add: Let_def on_levels_set on_levels_same [OF True])
qed

lemma run_gets:
  assumes "store_repr s a" and "spec_ok a" and "holds k v e (on_levels a k)" and "0 < e"
    and "\<And>t1 t2. (t1, t2) \<in> set ts \<Longrightarrow> \<not> expired t1 e \<and> \<not> expired t2 e"
  shows "\<exists>outs s'. run_ops lru2_step (map (\<lambda>(t1, t2). SGet t1 t2 k) ts) s = Some (outs, s') \<and>
    map fst outs = replicate (length ts) (RGet (Some v))"
  using assms
proof (induction ts arbitrary: s a)
  case (Cons t ts)
  obtain t1 t2 where t: "t = (t1, t2)" by fastforce
  with Cons.prems(5) have ex: "\<not> expired t1 e" "\<not> expired t2 e" by auto
  let ?x = "SGet t1 t2 k" and ?a = "snd (lru2_spec (SGet t1 t2 k) a)"
  obtain s1 where s1: "lru2_step ?x s = Some (fst (lru2_spec ?x a), s1)" "store_repr s1 ?a"
    using lru2_step_sim [OF Cons.prems(1)] by blast
  have "holds k v e (on_levels ?a k)"
    using holds_Get [OF Cons.prems(3) ex(1)] Cons.prems(2) by (simp add: Let_def)
  moreover have "fst (fst (lru2_spec ?x a)) = RGet (Some v)"
    using holds_lookup [OF Cons.prems(3,4) ex] by (simp add: Let_def sp_Get_result)
  moreover have "spec_ok ?a" using Cons.prems(2) by (rule lru2_spec_ok)
  ultimately show ?case
    using Cons.IH [OF s1(2), OF _ _ Cons.prems(4)] Cons.prems(5) s1(1) t
    by (fastforce simp del: lru2_step.simps lru2_spec.simps)
qed simp

text \<open>
  C1: a store created from options in range (at most 32768 buckets, capacities other than
  65535; 0 stands for the defaults) runs every sequence of \<open>Get\<close>, \<open>SetWithExpiration\<close>,
  \<open>Delete\<close>, \<open>Clear\<close>, \<open>Len\<close>, \<open>Close\<close> and cleanup ticks without a panic. Every
  result and every \<open>onEvicted\<close> call is the one of the specification on node sequences,
  and the store stays well formed.
\<close>

theorem lru2_run_refines:
  assumes "opts_ok opts"
  shows "\<exists>s'. run_ops lru2_step ops (newLRU2Cache opts) = Some (fst (run_spec lru2_spec ops (lru2_init opts)), s') \<and>
    lru2_ok s'"
  using lru2.run_sim [OF newLRU2_repr(1) [OF assms], of ops] lru2_run_ok [OF newLRU2_repr(2) [OF assms], of ops]
  unfolding lru2_ok_def by blast

theorem lru2_run_refines_witness:
  "\<exists>s'. run_ops lru2_step
      [SSet 10 ''a'' (Some True) 0, SGet 20 20 ''a'', SSet 20 ''c'' (Some False) 5, SGet 30 30 ''c'',
       SGet 30 30 ''a'', SLen, SDelete ''a'', SGet 40 40 ''a''] (newLRU2Cache small_opts) =
    Some ([(RDone, []), (RGet (Some (Some True)), []), (RDone, []), (RGet None, []),
           (RGet (Some (Some True)), []), (RLen 1, []), (RDeleted True, [(''a'', Some True)]),
           (RGet None, [])], s')"
proof -
  have "fst (run_spec lru2_spec
      [SSet 10 ''a'' (Some True) 0, SGet 20 20 ''a'', SSet 20 ''c'' (Some False) 5, SGet 30 30 ''c'',
       SGet 30 30 ''a'', SLen, SDelete ''a'', SGet 40 40 ''a''] (lru2_init small_opts)) =
    [(RDone, []), (RGet (Some (Some True)), []), (RDone, []), (RGet None, []),
           (RGet (Some (Some True)), []), (RLen 1, []), (RDeleted True, [(''a'', Some True)]),
           (RGet None, [])]" by code_simp
  then show ?thesis using lru2_run_refines [OF small_opts_ok] by metis
qed



text \<open>
  A write never loses the entry written just before it, in the smallest store too: when
  level 1 is full the older entry is moved to level 2 (it must carry a non-nil value, a
  non-empty key and a positive expiry), and a \<open>Get\<close> still returns it.
\<close>

theorem lru2_write_keeps_previous:
  assumes "lru2_ok s" and "k' \<noteq> k" and "k' \<noteq> []" and "0 < expire_at now' ttl'"
    and "\<not> expired t1 (expire_at now' ttl')" and "\<not> expired t2 (expire_at now' ttl')"
  shows "\<exists>cbs1 s1 cbs2 s2 cbs3 s3.
    lru2_SetWithExpiration now' k' (Some v') ttl' s = Some (cbs1, s1) \<and>
    lru2_SetWithExpiration now k v ttl s1 = Some (cbs2, s2) \<and>
    lru2_Get t1 t2 k' s2 = Some (Some (Some v'), cbs3, s3)"
proof -
  obtain a where a: "store_repr s a" "spec_ok a" using assms(1) by (rule lru2_okE)
  let ?e' = "expire_at now' ttl'" and ?a1 = "snd (lru2_spec (SSet now' k' (Some v') ttl') a)"
  let ?a2 = "snd (lru2_spec (SSet now k v ttl) ?a1)"
  obtain cbs1 s1 where s1: "lru2_SetWithExpiration now' k' (Some v') ttl' s = Some (cbs1, s1)" "store_repr s1 ?a1"
    using Set_sim [OF a(1)] by blast
  obtain cbs2 s2 where s2: "lru2_SetWithExpiration now k v ttl s1 = Some (cbs2, s2)" "store_repr s2 ?a2"
    using Set_sim [OF s1(2)] by blast
  have ok1: "spec_ok ?a1" using a(2) by (rule lru2_spec_ok)
  have h: "find_live k' (fst (on_levels ?a1 k')) = Some (new_node k' (Some v') ?e')"
    using a(2) by (simp add: Let_def Set_level1)
  from holds_after_Set [OF ok1 assms(2,3,4) h] have "holds k' (Some v') ?e' (on_levels ?a2 k')" .
  from holds_lookup [OF this assms(4,5,6)] Get_sim [OF s2(2), of t1 t2 k'] s1 s2 show ?thesis by auto
qed

theorem lru2_write_keeps_previous_witness:
  "\<exists>cbs1 s1 cbs2 s2 cbs3 s3.
    lru2_SetWithExpiration 100 ''a'' (Some (1::nat)) 50 (newLRU2Cache small_opts) = Some (cbs1, s1) \<and>
    lru2_SetWithExpiration 110 ''c'' (Some 2) 0 s1 = Some (cbs2, s2) \<and>
    lru2_Get 120 120 ''a'' s2 = Some (Some (Some 1), cbs3, s3)"
  using lru2_write_keeps_previous [OF newLRU2_ok [OF small_opts_ok],
      of "''a''" "''c''" 100 50 120 120 "1::nat" 110 "Some 2" 0]
  by (simp add: expire_at_def wrap64_def expired_def)

text \<open>
  \<open>Delete\<close> removes the key from both levels. It answers true whenever some \<open>Get\<close>
  could have returned a value; afterwards \<open>Get\<close> misses at every time without an
  \<open>onEvicted\<close> call, and a second \<open>Delete\<close> answers false.
\<close>

theorem lru2_delete_removes:
  assumes "lru2_ok s"
  shows "\<exists>r cbs s1. lru2_Delete k s = Some (r, cbs, s1) \<and> lru2_ok s1 \<and>
    (\<forall>t1 t2 v cbs' s'. lru2_Get t1 t2 k s = Some (Some v, cbs', s') \<longrightarrow> r) \<and>
    (\<forall>t1 t2. \<exists>s2. lru2_Get t1 t2 k s1 = Some (None, [], s2)) \<and>
    (\<exists>s2. lru2_Delete k s1 = Some (False, [], s2))"
proof -
  obtain a where a: "store_repr s a" "spec_ok a" using assms by (rule lru2_okE)
  let ?d = "ss_Delete k a"
  obtain s1 where s1: "lru2_Delete k s = Some (fst ?d, fst (snd ?d), s1)" "store_repr s1 (snd (snd ?d))"
    using Delete_sim [OF a(1)] by blast
  have ok1: "spec_ok (snd (snd ?d))" using a(2) by (rule ss_Delete_ok)
  have gone: "find_live k (fst (on_levels (snd (snd ?d)) k)) = None"
    "find_live k (snd (on_levels (snd (snd ?d)) k)) = None"
    using a(2) by (simp_all add: ss_Delete_def Let_def sp_delete_live)
  have "\<exists>s2. lru2_Get t1 t2 k s1 = Some (None, [], s2)" for t1 t2
    using Get_sim [OF s1(2), of t1 t2 k] Get_miss [OF gone] by (auto simp: lookup2_def gone)
  moreover have "fst ?d" if "lru2_Get t1 t2 k s = Some (Some v, cbs', s')" for t1 t2 v cbs' s'
    using that Get_sim [OF a(1), of t1 t2 k]
    by (auto simp: ss_Delete_def Let_def sp_delete_result lookup2_def split: option.splits)
  moreover have "\<exists>s2. lru2_Delete k s1 = Some (False, [], s2)"
    using Delete_sim [OF s1(2), of k] gone
    by (auto simp: ss_Delete_def [of k "snd (snd ?d)"] Let_def sp_delete_def fst_spec_del delete_calls_def)
  ultimately show ?thesis using s1 ok1 unfolding lru2_ok_def by blast
qed

theorem lru2_delete_removes_witness:
  "\<exists>r cbs s1. lru2_Delete ''a'' (newLRU2Cache small_opts :: nat lru2Store) = Some (r, cbs, s1) \<and> lru2_ok s1 \<and>
    (\<exists>s2. lru2_Get 5 5 ''a'' s1 = Some (None, [], s2))"
  using lru2_delete_removes [OF newLRU2_ok [OF small_opts_ok], of "''a''"] by blast

end
