(* ===== verification/Lru2_Expiry.thy ===== *)
theory Lru2_Expiry
  imports Lru2_Theorems
begin

text \<open>
  The operations of the two-level store that visit every bucket (\<open>Clear\<close>, \<open>Len\<close>, the
  cleanup tick), the size bound, and the behaviours where an old copy of a key on level 2
  shows through: a write puts the new value on level 1 and leaves an older copy on level 2,
  so the expiry of one copy affects the other.
\<close>

subsection \<open>Live entries of the whole store\<close>

definition live1 :: "'v lru2Spec \<Rightarrow> string \<Rightarrow> 'v node option" where
  "live1 a k = find_live k (fst (on_levels a k))"

definition live2 :: "'v lru2Spec \<Rightarrow> string \<Rightarrow> 'v node option" where
  "live2 a k = find_live k (snd (on_levels a k))"

definition slookup :: "int \<Rightarrow> int \<Rightarrow> string \<Rightarrow> 'v lru2Spec \<Rightarrow> 'v option option" where
  "slookup t1 t2 k a = lookup2 t1 t2 k (on_levels a k)"

lemma slookup_live:
  "slookup t1 t2 k a = (case live1 a k of
     Some nd \<Rightarrow> if expired t1 (node_expireAt nd) then None else Some (node_v nd)
   | None \<Rightarrow> (case live2 a k of
       Some nd \<Rightarrow> if get_check t2 nd = None \<or> expired t1 (node_expireAt nd) then None else Some (node_v nd)
     | None \<Rightarrow> None))"
  unfolding slookup_def live1_def live2_def lookup2_def ..

lemma Delete_live:
  assumes "spec_ok a"
  shows "live1 (snd (snd (ss_Delete k a))) k' = (if k' = k then None else live1 a k')"
    and "live2 (snd (snd (ss_Delete k a))) k' = (if k' = k then None else live2 a k')"
  using assms
  by (auto simp: live1_def live2_def ss_Delete_def Let_def on_levels_set sp_delete_live dest: on_levels_same)

lemma delete_loop_live:
  assumes "spec_ok a"
  shows "live1 (snd (ss_delete_loop ks a)) k = (if k \<in> set ks then None else live1 a k)"
    and "live2 (snd (ss_delete_loop ks a)) k = (if k \<in> set ks then None else live2 a k)"
  using assms by (induction ks arbitrary: a) (simp_all add: Let_def Delete_live ss_Delete_ok)

lemma ss_keys_set:
  "set (ss_keys a) = (\<Union>ab \<in> set (sp_levels a). node_k ` set (live (fst ab)) \<union> node_k ` set (live (snd ab)))"
proof -
  have "set (fold sp_keys ls ks) = set ks \<union>
      (\<Union>ab \<in> set ls. node_k ` set (live (fst ab)) \<union> node_k ` set (live (snd ab)))" for ls :: "'a levels list" and ks
    by (induction ls arbitrary: ks) (auto simp: sp_keys_set)
  then show ?thesis by (simp add: ss_keys_def)
qed

lemma spec_level:
  assumes "spec_ok a" and "ab \<in> set (sp_levels a)"
  shows "keys_ok (fst ab)" "keys_ok (snd ab)" "length (fst ab) \<le> fst (sp_caps a)" "length (snd ab) \<le> snd (sp_caps a)"
    and "\<And>k. k \<in> level_keys ab \<Longrightarrow> on_levels a k = ab"
  using assms by (auto simp: spec_ok_def levels_ok_def in_set_conv_nth on_levels_def)

lemma live_keys: "nd \<in> set (live (fst ab)) \<or> nd \<in> set (live (snd ab)) \<Longrightarrow> node_k nd \<in> level_keys ab"
  by (auto simp: live_def level_keys_def node_keys_def)

lemma live_key_iff:
  assumes "keys_ok ns"
  shows "k \<in> node_k ` set (live ns) \<longleftrightarrow> find_live k ns \<noteq> None"
proof
  assume "find_live k ns \<noteq> None"
  then obtain nd where nd: "find_live k ns = Some nd" by blast
  then have "node_k nd = k" by (simp add: find_live_key)
  moreover from this nd have "nd \<in> set (live ns)" using mem_live [OF assms] by simp
  ultimately show "k \<in> node_k ` set (live ns)" by blast
next
  assume "k \<in> node_k ` set (live ns)"
  then obtain nd where nd: "nd \<in> set (live ns)" "k = node_k nd" by blast
  from mem_live [OF assms, THEN iffD1, OF nd(1)] show "find_live k ns \<noteq> None" unfolding nd(2) by (rule option.discI)
qed

lemma keys_iff_live:
  assumes "spec_ok a"
  shows "k \<in> set (ss_keys a) \<longleftrightarrow> live1 a k \<noteq> None \<or> live2 a k \<noteq> None"
proof -
  let ?keys = "\<lambda>ab. node_k ` set (live (fst ab)) \<union> node_k ` set (live (snd ab))"
  have on: "on_levels a k \<in> set (sp_levels a)" using sidx_less [OF assms, of k] by (simp add: on_levels_def)
  have "on_levels a k = ab" if "ab \<in> set (sp_levels a)" "k \<in> ?keys ab" for ab
    using spec_level(5) [OF assms that(1)] that(2) live_keys by blast
  then have "k \<in> set (ss_keys a) \<longleftrightarrow> k \<in> ?keys (on_levels a k)" using on unfolding ss_keys_set by blast
  then show ?thesis
    unfolding live1_def live2_def Un_iff live_key_iff [OF spec_level(1) [OF assms on]] live_key_iff [OF spec_level(2) [OF assms on]] .
qed

lemma Len_zero:
  assumes "spec_ok a" and "\<And>k. live1 a k = None" and "\<And>k. live2 a k = None"
  shows "sum_list (map sp_Len (sp_levels a)) = 0"
proof -
  have "set (ss_keys a) = {}" using keys_iff_live [OF assms(1)] assms(2,3) by (intro equals0I) simp
  then have "\<forall>ab \<in> set (sp_levels a). node_k ` set (live (fst ab)) \<union> node_k ` set (live (snd ab)) = {}"
    unfolding ss_keys_set SUP_bot_conv .
  then show ?thesis by (simp add: sp_Len_def)
qed

lemma Len_bound:
  assumes "spec_ok a"
  shows "sum_list (map sp_Len (sp_levels a)) \<le> length (sp_levels a) * (fst (sp_caps a) + snd (sp_caps a))"
proof -
  have "sp_Len ab \<le> fst (sp_caps a) + snd (sp_caps a)" if "ab \<in> set (sp_levels a)" for ab
    using spec_level(3,4) [OF assms that] unfolding sp_Len_def live_def
    by (meson add_mono le_trans length_filter_le)
  then have "sum_list (map sp_Len (sp_levels a)) \<le> sum_list (map (\<lambda>_. fst (sp_caps a) + snd (sp_caps a)) (sp_levels a))"
    by (intro sum_list_mono) simp
  then show ?thesis by (simp add: sum_list_triv)
qed

lemma spec_caps: "sp_caps (snd (lru2_spec x a)) = sp_caps a"
proof -
  have "sp_caps (snd (ss_delete_loop ks a)) = sp_caps a" for ks
    by (induction ks arbitrary: a) (simp_all add: Let_def ss_Delete_def)
  then show ?thesis by (cases x) (simp_all add: Let_def ss_Delete_def)
qed

lemma run_caps: "sp_caps (snd (run_spec lru2_spec xs a)) = sp_caps a"
  by (induction xs arbitrary: a) (simp_all add: Let_def spec_caps del: lru2_spec.simps)

subsection \<open>One method at a time\<close>

lemma Get_slookup:
  "store_repr s a \<Longrightarrow> \<exists>cbs s'. lru2_Get t1 t2 k s = Some (slookup t1 t2 k a, cbs, s')"
  using Get_sim [of s a t1 t2 k] by (auto simp: slookup_def)

lemma Clear_sim:
  "store_repr s a \<Longrightarrow> \<exists>cbs s'. lru2_Clear ord s = Some (cbs, s') \<and> store_repr s' (snd (ss_delete_loop (ord (ss_keys a)) a))"
  using lru2_step_sim [of s a "SClear ord"] by (auto simp: Let_def split: bind_splits)

lemma Len_sim: "store_repr s a \<Longrightarrow> lru2_Len s = Some (sum_list (map sp_Len (sp_levels a)))"
  using lru2_step_sim [of s a SLen] by (auto split: bind_splits)

lemma Cleanup_sim:
  "store_repr s a \<Longrightarrow> \<exists>cbs s'. lru2_cleanup now s = Some (cbs, s') \<and> store_repr s' (snd (lru2_spec (SCleanup now) a))"
  using lru2_step_sim [of s a "SCleanup now"] by (auto split: bind_splits simp del: lru2_spec.simps)

lemma cleanup_live:
  fixes now :: int
  assumes "spec_ok a" and "sp_tick a"
  defines "gone k \<equiv> \<exists>nd. (live1 a k = Some nd \<or> live2 a k = Some nd) \<and> stale now nd"
  shows "live1 (snd (lru2_spec (SCleanup now) a)) k = (if gone k then None else live1 a k)"
    and "live2 (snd (lru2_spec (SCleanup now) a)) k = (if gone k then None else live2 a k)"
proof -
  let ?ab = "on_levels a k"
  have ab: "?ab \<in> set (sp_levels a)" using sidx_less [OF assms(1), of k] by (simp add: on_levels_def)
  have on: "on_levels (snd (lru2_spec (SCleanup now) a)) k = snd (sp_delete_all (sp_cb a) (sp_expired now ?ab) ?ab)"
    using sidx_less [OF assms(1), of k] assms(2) by (simp add: on_levels_def sp_cleanup_def)
  have "k \<in> set (sp_expired now ?ab) \<longleftrightarrow> gone k"
    using sp_expired_set [OF spec_level(1,2) [OF assms(1) ab]] by (simp add: gone_def live1_def live2_def)
  then show "live1 (snd (lru2_spec (SCleanup now) a)) k = (if gone k then None else live1 a k)"
    and "live2 (snd (lru2_spec (SCleanup now) a)) k = (if gone k then None else live2 a k)"
    unfolding live1_def live2_def on sp_delete_all_live by simp_all
qed

lemma not_stale_valid:
  assumes "\<not> stale now nd"
  shows "\<not> expired now (node_expireAt nd)" and "get_check t nd \<noteq> None \<Longrightarrow> get_check now nd = Some nd"
  using assms by (auto simp: stale_def expired_def get_check_def split: if_splits)

lemma valid_at_tick:
  assumes "\<And>nd. live1 a k = Some nd \<or> live2 a k = Some nd \<Longrightarrow> \<not> stale now nd" and "slookup t1 t2 k a = Some v"
  shows "slookup now now k a = Some v"
proof (cases "live1 a k")
  case None
  with assms(2) obtain nd where nd: "live2 a k = Some nd" "get_check t2 nd \<noteq> None" "v = node_v nd"
    by (auto simp: slookup_live dest: get_check_some split: option.splits if_splits bind_splits)
  with None not_stale_valid [OF assms(1) [of nd]] show ?thesis by (simp add: slookup_live)
next
  case (Some nd)
  with assms not_stale_valid(1) [OF assms(1) [of nd]] show ?thesis by (auto simp: slookup_live split: if_splits)
qed

lemma cleared:
  assumes "spec_ok a" and "store_repr s' (snd (ss_delete_loop (ord (ss_keys a)) a))"
  shows "(\<forall>ks. set (ord ks) = set ks) \<longrightarrow> lru2_Len s' = Some 0 \<and>
    (\<forall>k t1 t2. \<exists>cbs' s''. lru2_Get t1 t2 k s' = Some (None, cbs', s''))"
proof
  assume ord: "\<forall>ks. set (ord ks) = set ks"
  let ?a = "snd (ss_delete_loop (ord (ss_keys a)) a)"
  have none: "live1 ?a k = None" "live2 ?a k = None" for k
    using keys_iff_live [OF assms(1), of k] ord by (auto simp: delete_loop_live [OF assms(1)])
  then have "slookup t1 t2 k ?a = None" for t1 t2 k by (simp add: slookup_live)
  then have "\<forall>k t1 t2. \<exists>cbs' s''. lru2_Get t1 t2 k s' = Some (None, cbs', s'')"
    using Get_slookup [OF assms(2)] by metis
  moreover have "lru2_Len s' = Some 0" using Len_sim [OF assms(2)] Len_zero [OF ss_delete_loop_ok [OF assms(1)] none] by simp
  ultimately show "lru2_Len s' = Some 0 \<and> (\<forall>k t1 t2. \<exists>cbs' s''. lru2_Get t1 t2 k s' = Some (None, cbs', s''))" by blast
qed

text \<open>
  \<open>Clear\<close> empties the store: it visits every bucket, and when \<open>range\<close> yields exactly
  the collected keys, afterwards \<open>Len\<close> is 0 and every \<open>Get\<close> misses.
\<close>

theorem lru2_clear_empties:
  assumes "lru2_ok s" and "\<And>ks. set (ord ks) = set ks"
  shows "\<exists>cbs s'. lru2_Clear ord s = Some (cbs, s') \<and> lru2_ok s' \<and> lru2_Len s' = Some 0 \<and>
    (\<forall>k t1 t2. \<exists>cbs' s''. lru2_Get t1 t2 k s' = Some (None, cbs', s''))"
proof -
  obtain a where a: "store_repr s a" "spec_ok a" using assms(1) by (rule lru2_okE)
  obtain cbs s' where s': "lru2_Clear ord s = Some (cbs, s')" "store_repr s' (snd (ss_delete_loop (ord (ss_keys a)) a))"
    using Clear_sim [OF a(1)] by blast
  from cleared [where ord = ord, OF a(2) s'(2)] assms(2) s' ss_delete_loop_ok [OF a(2)] show ?thesis unfolding lru2_ok_def by blast
qed

theorem lru2_clear_empties_witness:
  "\<exists>cbs s'. lru2_Clear rev (newLRU2Cache small_opts :: nat lru2Store) = Some (cbs, s') \<and> lru2_Len s' = Some 0"
  using lru2_clear_empties [OF newLRU2_ok [OF small_opts_ok], of rev] by auto

text \<open>
  The size bound. After every sequence of operations the number of live entries is at
  most the number of buckets times the sum of the two level capacities.
\<close>

lemma lru2_len_bounded:
  assumes "opts_ok opts"
  shows "\<exists>outs s' n. run_ops lru2_step ops (newLRU2Cache opts) = Some (outs, s') \<and> lru2_Len s' = Some n \<and>
    n \<le> length (s_caches s') * (unat (if CapPerBucket opts = 0 then 1024 else CapPerBucket opts) +
                               unat (if Level2Cap opts = 0 then 1024 else Level2Cap opts))"
proof -
  let ?a = "snd (run_spec lru2_spec ops (lru2_init opts))"
  obtain outs s' where s': "run_ops lru2_step ops (newLRU2Cache opts) = Some (outs, s')" "store_repr s' ?a"
    using lru2.run_sim [OF newLRU2_repr(1) [OF assms]] by blast
  have "spec_ok ?a" using lru2_run_ok [OF newLRU2_repr(2) [OF assms]] .
  from Len_bound [OF this] have "sum_list (map sp_Len (sp_levels ?a)) \<le> length (s_caches s') *
      (unat (if CapPerBucket opts = 0 then 1024 else CapPerBucket opts) +
       unat (if Level2Cap opts = 0 then 1024 else Level2Cap opts))"
    unfolding run_caps lru2_idx_in(3) [OF s'(2)] by (simp add: lru2_init_def)
  with s'(1) Len_sim [OF s'(2)] show ?thesis by blast
qed

lemma lru2_len_bounded_witness:
  "\<exists>outs s' n. run_ops lru2_step [SSet 1 ''a'' (Some True) 0, SSet 2 ''b'' None 0] (newLRU2Cache small_opts) = Some (outs, s') \<and>
    lru2_Len s' = Some n \<and> n \<le> length (s_caches s') * 2"
  using lru2_len_bounded [OF small_opts_ok, of "[SSet 1 ''a'' (Some True) 0, SSet 2 ''b'' None 0]"]
  by (simp add: small_opts_def mult_2_right del: run_ops.simps)

text \<open>
  A cleanup tick at time \<open>now\<close> never panics; for each key it either changes no result
  of a \<open>Get\<close> or makes every later \<open>Get\<close> miss, and what is served afterwards, at whatever
  clock reading, was still valid at the time of the tick.
\<close>

theorem lru2_cleanup_sound:
  assumes "lru2_ok s" and "s_cleanupTick s"
  shows "\<exists>cbs s'. lru2_cleanup now s = Some (cbs, s') \<and> lru2_ok s' \<and>
    (\<forall>k. (\<forall>t1 t2. map_option fst (lru2_Get t1 t2 k s') = Some None) \<or>
         (\<forall>t1 t2. map_option fst (lru2_Get t1 t2 k s') = map_option fst (lru2_Get t1 t2 k s))) \<and>
    (\<forall>k t1 t2 v. map_option fst (lru2_Get t1 t2 k s') = Some (Some v) \<longrightarrow>
       map_option fst (lru2_Get now now k s) = Some (Some v))"
proof -
  obtain a where a: "store_repr s a" "spec_ok a" using assms(1) by (rule lru2_okE)
  let ?a = "snd (lru2_spec (SCleanup now) a)"
  obtain cbs s' where s': "lru2_cleanup now s = Some (cbs, s')" "store_repr s' ?a" using Cleanup_sim [OF a(1)] by blast
  have tick: "sp_tick a" using assms(2) a(1) by (simp add: store_repr_def)
  have get: "map_option fst (lru2_Get t1 t2 k s) = Some (slookup t1 t2 k a)"
    "map_option fst (lru2_Get t1 t2 k s') = Some (slookup t1 t2 k ?a)" for t1 t2 k
    using Get_slookup [OF a(1), of t1 t2 k] Get_slookup [OF s'(2), of t1 t2 k] by auto
  define gone where "gone k \<longleftrightarrow> (\<exists>nd. (live1 a k = Some nd \<or> live2 a k = Some nd) \<and> stale now nd)" for k
  have l: "live1 ?a k = (if gone k then None else live1 a k)" "live2 ?a k = (if gone k then None else live2 a k)" for k
    unfolding gone_def by (rule cleanup_live [OF a(2) tick])+
  have look: "slookup t1 t2 k ?a = (if gone k then None else slookup t1 t2 k a)" for t1 t2 k
    unfolding slookup_live l by (cases "gone k") simp_all
  have valid: "slookup now now k a = Some v" if "slookup t1 t2 k ?a = Some v" for k t1 t2 v
    using that valid_at_tick [of a k now t1 t2 v] unfolding look gone_def by (auto split: if_splits)
  have each: "(\<forall>t1 t2. slookup t1 t2 k ?a = None) \<or> (\<forall>t1 t2. slookup t1 t2 k ?a = slookup t1 t2 k a)" for k
    unfolding look by simp
  then have "\<forall>k. (\<forall>t1 t2. map_option fst (lru2_Get t1 t2 k s') = Some None) \<or>
      (\<forall>t1 t2. map_option fst (lru2_Get t1 t2 k s') = map_option fst (lru2_Get t1 t2 k s))"
    unfolding get option.inject by blast
  moreover have "\<forall>k t1 t2 v. map_option fst (lru2_Get t1 t2 k s') = Some (Some v) \<longrightarrow>
      map_option fst (lru2_Get now now k s) = Some (Some v)"
    unfolding get option.inject using valid by blast
  ultimately show ?thesis using s'(1) lru2_okI [OF s'(2) a(2)] by blast
qed

theorem lru2_cleanup_sound_witness:
  "\<exists>cbs s'. lru2_cleanup 50 (newLRU2Cache small_opts :: nat lru2Store) = Some (cbs, s') \<and> lru2_ok s'"
proof -
  have "s_cleanupTick (newLRU2Cache small_opts :: nat lru2Store)" by (simp add: newLRU2Cache_def Let_def)
  from lru2_cleanup_sound [OF newLRU2_ok [OF small_opts_ok] this, of 50] show ?thesis by blast
qed

lemma small_run:
  "fst (run_spec lru2_spec ops (lru2_init small_opts)) = outs \<Longrightarrow>
     \<exists>s'. run_ops lru2_step ops (newLRU2Cache small_opts) = Some (outs, s')"
  using lru2.run_sim [OF newLRU2_repr(1) [OF small_opts_ok], of ops] by blast


text \<open>
  A cleanup tick can drop a valid value. When an older copy of the key on level 2 has
  expired, the tick deletes the key on both levels, also a newer value on level 1 that never
  expires.
\<close>

lemma lru2_cleanup_drops_fresh:
  "\<exists>s'. run_ops lru2_step
      [SSet 10 ''k'' (Some (1::nat)) 50, SGet 20 20 ''k'', SSet 30 ''k'' (Some 2) 0,
       SCleanup 100, SGet 101 101 ''k''] (newLRU2Cache small_opts) =
    Some ([(RDone, []), (RGet (Some (Some 1)), []), (RDone, []), (RDone, [(''k'', Some 2)]), (RGet None, [])], s')"
  by (rule small_run) code_simp

text \<open>
  With more than 32768 buckets the mask is 65535, \<open>mask+1\<close> wraps to 0 in \<open>uint16\<close>, and
  the store has no bucket: every \<open>Get\<close>, \<open>Set\<close> and \<open>Delete\<close> panics.
\<close>

lemma lru2_too_many_buckets_panics:
  assumes "32768 < BucketCount opts"
  shows "s_caches (newLRU2Cache opts :: 'v lru2Store) = [] \<and>
    lru2_Get t1 t2 k (newLRU2Cache opts :: 'v lru2Store) = None \<and>
    lru2_SetWithExpiration now k v ttl (newLRU2Cache opts :: 'v lru2Store) = None \<and>
    lru2_Delete k (newLRU2Cache opts :: 'v lru2Store) = None"
proof -
  let ?c = "BucketCount opts"
  have big: "2 ^ 15 < unat ?c" using assms by (simp add: word_less_nat_alt)
  then have nz: "?c \<noteq> 0" by auto
  obtain j where j: "j \<le> 16" "maskOfNextPowOf2 ?c = mask j" "unat ?c \<le> 2 ^ j" using mask_least [OF nz] by metis
  have "\<not> j \<le> 15"
  proof
    assume "j \<le> 15"
    then have "(2::nat) ^ j \<le> 2 ^ 15" by (intro power_increasing) simp_all
    with j(3) big show False by simp
  qed
  with j(1) have "j = 16" by simp
  then have "maskOfNextPowOf2 ?c + 1 = 0" using j(2) by (simp add: mask_eq_exp_minus_1)
  then have "s_caches (newLRU2Cache opts :: 'v lru2Store) = []" using nz by (simp add: newLRU2Cache_def Let_def)
  moreover from this have "lru2_idx (newLRU2Cache opts :: 'v lru2Store) k = None"
    by (simp add: lru2_idx_def Let_def)
  ultimately show ?thesis
    by (simp add: lru2_Get_def lru2_SetWithExpiration_def lru2_Delete_def)
qed

lemma lru2_too_many_buckets_panics_witness:
  "lru2_Get 1 1 ''k'' (newLRU2Cache (NewOptions\<lparr>BucketCount := 40000\<rparr>) :: nat lru2Store) = None"
  using lru2_too_many_buckets_panics [of "NewOptions\<lparr>BucketCount := 40000\<rparr>" 1 1 "''k''" 1 "None :: nat option" 1]
  by (simp add: word_less_nat_alt)

end
