(* ===== verification/Go_List.thy ===== *)
theory Go_List
  imports Ring
begin

text \<open>
  The part of Go's \<open>container/list\<close> that \<^verbatim>\<open>store/lru.go\<close> uses, on a heap of elements.
  An element is an address; address 0 is \<open>l.root\<close>. \<open>gl_next\<close>, \<open>gl_prev\<close> and
  \<open>gl_val\<close> are the fields of the elements (the root has no value), \<open>gl_in e\<close> is the test
  \<open>e.list == l\<close>, and \<open>gl_new\<close> is the next free address. \<open>Init\<close> resets the root only: the
  elements it drops keep their links and still pass \<open>e.list == l\<close>, as in the library.
  The links of a removed element are not read again, so they are left as they are instead
  of being set to nil.

  The lemmas state each operation on the sequence of elements between the root and itself.
\<close>

record 'a golist =
  gl_next :: "nat \<Rightarrow> nat"
  gl_prev :: "nat \<Rightarrow> nat"
  gl_in :: "nat \<Rightarrow> bool"
  gl_val :: "nat \<Rightarrow> 'a option"
  gl_len :: int
  gl_new :: nat

definition list_New :: "'a golist" where
  "list_New = \<lparr>gl_next = (\<lambda>_. 0), gl_prev = (\<lambda>_. 0), gl_in = (\<lambda>_. False), gl_val = (\<lambda>_. None),
     gl_len = 0, gl_new = 1\<rparr>"

definition list_Init :: "'a golist \<Rightarrow> 'a golist" where
  "list_Init l = l\<lparr>gl_next := (gl_next l)(0 := 0), gl_prev := (gl_prev l)(0 := 0), gl_len := 0\<rparr>"

definition list_Front :: "'a golist \<Rightarrow> nat option" where
  "list_Front l = (if gl_len l = 0 then None else Some (gl_next l 0))"

definition list_PushBack :: "'a \<Rightarrow> 'a golist \<Rightarrow> nat \<times> 'a golist" where
  "list_PushBack v l =
     (let e = gl_new l; at = gl_prev l 0;
          p1 = (gl_prev l)(e := at);
          n1 = (gl_next l)(e := gl_next l at);
          n2 = n1(at := e);
          p2 = p1(n2 e := e)
      in (e, l\<lparr>gl_next := n2, gl_prev := p2, gl_in := (gl_in l)(e := True),
               gl_val := (gl_val l)(e := Some v), gl_len := gl_len l + 1, gl_new := e + 1\<rparr>))"

definition list_Remove :: "nat \<Rightarrow> 'a golist \<Rightarrow> 'a golist" where
  "list_Remove e l =
     (if gl_in l e then
        (let n1 = (gl_next l)(gl_prev l e := gl_next l e);
             p1 = (gl_prev l)(n1 e := gl_prev l e)
         in l\<lparr>gl_next := n1, gl_prev := p1, gl_in := (gl_in l)(e := False), gl_len := gl_len l - 1\<rparr>)
      else l)"

definition list_MoveToBack :: "nat \<Rightarrow> 'a golist \<Rightarrow> 'a golist" where
  "list_MoveToBack e l =
     (if \<not> gl_in l e \<or> gl_prev l 0 = e then l
      else
        (let at = gl_prev l 0;
             n1 = (gl_next l)(gl_prev l e := gl_next l e);
             p1 = (gl_prev l)(n1 e := gl_prev l e);
             p2 = p1(e := at);
             n2 = n1(e := n1 at);
             n3 = n2(p2 e := e);
             p3 = p2(n3 e := e)
         in l\<lparr>gl_next := n3, gl_prev := p3\<rparr>))"

subsection \<open>The represented sequence\<close>

definition gl_repr :: "'a golist \<Rightarrow> nat list \<Rightarrow> bool" where
  "gl_repr l xs \<longleftrightarrow> ring (gl_next l) (gl_prev l) 0 xs \<and> gl_len l = int (length xs) \<and> 0 < gl_new l \<and>
     (\<forall>x \<in> set xs. gl_in l x \<and> x < gl_new l \<and> gl_val l x \<noteq> None)"

lemma gl_reprD:
  assumes "gl_repr l xs"
  shows "ring (gl_next l) (gl_prev l) 0 xs" and "ring (gl_prev l) (gl_next l) 0 (rev xs)"
    and "gl_len l = int (length xs)" and "0 < gl_new l" and "distinct xs" and "0 \<notin> set xs"
    and "\<And>x. x \<in> set xs \<Longrightarrow> gl_in l x" and "\<And>x. x \<in> set xs \<Longrightarrow> x < gl_new l"
    and "\<And>x. x \<in> set xs \<Longrightarrow> gl_val l x \<noteq> None" and "gl_new l \<notin> set xs"
  using assms ring_rev [of "gl_next l" "gl_prev l" 0 xs] by (auto simp: gl_repr_def ring_def)

lemma length_remove1_int: "e \<in> set xs \<Longrightarrow> int (length (remove1 e xs)) = int (length xs) - 1"
  by (induction xs) (auto simp: length_remove1)

lemma list_New_repr: "gl_repr list_New []"
  by (simp add: list_New_def gl_repr_def ring_def)

lemma list_Init_repr: "gl_repr l xs \<Longrightarrow> gl_repr (list_Init l) []"
  by (simp add: list_Init_def gl_repr_def ring_def)

lemma list_Front_repr: "gl_repr l xs \<Longrightarrow> list_Front l = (case xs of [] \<Rightarrow> None | x # _ \<Rightarrow> Some x)"
  using gl_reprD(1,3) [of l xs] ring_first [of "gl_next l" "gl_prev l" 0 xs]
  by (auto simp: list_Front_def split: list.splits)

lemma list_Remove_repr:
  assumes "gl_repr l xs" and "e \<in> set xs"
  shows "gl_repr (list_Remove e l) (remove1 e xs)" and "gl_val (list_Remove e l) = gl_val l"
proof -
  note l = gl_reprD [OF assms(1)]
  have "gl_prev l e \<noteq> e" using ring_pred_neq [OF l(1) assms(2)] .
  moreover have "ring ((gl_next l)(gl_prev l e := gl_next l e)) ((gl_prev l)(gl_next l e := gl_prev l e)) 0 (remove1 e xs)"
    using l(1) assms(2) by (rule ring_unlink)
  moreover have "int (length (remove1 e xs)) = int (length xs) - 1"
    by (rule length_remove1_int [OF assms(2)])
  ultimately show "gl_repr (list_Remove e l) (remove1 e xs)"
    using l assms(2) by (auto simp: list_Remove_def gl_repr_def Let_def dest: notin_set_remove1)
  show "gl_val (list_Remove e l) = gl_val l" by (simp add: list_Remove_def Let_def)
qed

lemma list_PushBack_repr:
  assumes "gl_repr l xs"
  shows "fst (list_PushBack v l) = gl_new l" and "gl_repr (snd (list_PushBack v l)) (xs @ [gl_new l])"
    and "gl_val (snd (list_PushBack v l)) = (gl_val l)(gl_new l := Some v)"
proof -
  note l = gl_reprD [OF assms]
  have e: "gl_new l \<noteq> 0" using l(4) by simp
  have at: "gl_prev l 0 \<noteq> gl_new l" using ring_succ_mem [OF l(2), of 0] l(10) e by auto
  have bk: "gl_next l (gl_prev l 0) = 0" using l(2) by (rule ring_pred_first)
  have "ring ((gl_prev l)(0 := gl_new l, gl_new l := gl_prev l 0))
      ((gl_next l)(gl_prev l 0 := gl_new l, gl_new l := 0)) 0 (gl_new l # rev xs)"
    using l(2) e by (rule ring_push) (use l(10) in simp)
  then have "ring ((gl_next l)(gl_prev l 0 := gl_new l, gl_new l := 0))
      ((gl_prev l)(0 := gl_new l, gl_new l := gl_prev l 0)) 0 (xs @ [gl_new l])"
    by (subst ring_rev) simp
  then show "gl_repr (snd (list_PushBack v l)) (xs @ [gl_new l])"
    using l e at bk by (auto simp: list_PushBack_def gl_repr_def Let_def fun_upd_twist less_SucI)
  show "fst (list_PushBack v l) = gl_new l" "gl_val (snd (list_PushBack v l)) = (gl_val l)(gl_new l := Some v)"
    by (simp_all add: list_PushBack_def Let_def)
qed

lemma MoveToBack_fields:
  "gl_val (list_MoveToBack e l) = gl_val l" "gl_in (list_MoveToBack e l) = gl_in l"
  "gl_len (list_MoveToBack e l) = gl_len l" "gl_new (list_MoveToBack e l) = gl_new l"
  by (simp_all add: list_MoveToBack_def Let_def)

lemma list_MoveToBack_repr:
  assumes "gl_repr l xs" and "e \<in> set xs"
  shows "gl_repr (list_MoveToBack e l) (remove1 e xs @ [e])" and "gl_val (list_MoveToBack e l) = gl_val l"
proof -
  note l = gl_reprD [OF assms(1)]
  have e: "e \<in> set (rev xs)" using assms(2) by simp
  have rv: "rev (remove1 e (rev xs)) = remove1 e xs" using l(5) by (simp add: remove1_filter rev_filter)
  show "gl_repr (list_MoveToBack e l) (remove1 e xs @ [e])"
  proof (cases "gl_prev l 0 = e")
    case True
    then have "gl_next l e = 0" using ring_pred_first [OF l(2)] by simp
    with ring_pred_sentinel [OF l(2) e] have "rev xs = e # remove1 e (rev xs)" by blast
    then have "xs = remove1 e xs @ [e]" using rv by (metis rev.simps(2) rev_rev_ident)
    with True assms(1) show ?thesis by (simp add: list_MoveToBack_def)
  next
    case False
    have neq: "gl_next l e \<noteq> e" "gl_prev l e \<noteq> e" "0 \<noteq> e"
      using ring_succ_neq [OF l(1) assms(2)] ring_pred_neq [OF l(1) assms(2)] l(6) assms(2) by metis+
    have bk: "gl_next l (gl_prev l 0) = 0" using l(2) by (rule ring_pred_first)
    have "gl_next l e \<noteq> 0" "gl_prev l 0 \<noteq> gl_prev l e"
      using ring_succ_pred [OF l(2) e] ring_succ_pred [OF l(1) assms(2)] False bk neq(3) by metis+
    with ring_move_front [OF l(2) e] neq False bk
    have "ring (gl_prev (list_MoveToBack e l)) (gl_next (list_MoveToBack e l)) 0 (e # remove1 e (rev xs))"
      using l(7) [OF assms(2)] by (simp add: list_MoveToBack_def Let_def fun_upd_twist)
    then have "ring (gl_next (list_MoveToBack e l)) (gl_prev (list_MoveToBack e l)) 0 (remove1 e xs @ [e])"
      by (subst ring_rev) (simp flip: rv)
    moreover have "int (length (remove1 e xs @ [e])) = int (length xs)"
      using length_remove1_int [OF assms(2)] by simp
    ultimately show ?thesis using l(3,4,7,8,9) assms(2)
      unfolding gl_repr_def MoveToBack_fields by (metis Un_insert_right append_Nil2 insertE list.simps(15) notin_set_remove1 set_append)
  qed
qed (rule MoveToBack_fields)

text \<open>The elements of the list, read by following the links from the root.\<close>

primrec elems_from :: "nat \<Rightarrow> 'a golist \<Rightarrow> nat \<Rightarrow> nat list" where
  "elems_from 0 l e = []"
| "elems_from (Suc n) l e = e # elems_from n l (gl_next l e)"

definition list_elems :: "'a golist \<Rightarrow> nat list" where
  "list_elems l = elems_from (nat (gl_len l)) l (gl_next l 0)"

lemma elems_from_chain: "chain (gl_next l) p a xs b \<Longrightarrow> elems_from (length xs) l (gl_next l a) = xs"
  by (induction xs arbitrary: a) auto

lemma list_elems_repr: "gl_repr l xs \<Longrightarrow> list_elems l = xs"
  using elems_from_chain by (auto simp: list_elems_def gl_repr_def ring_def)

end
