(* ===== verification/Lru.thy ===== *)
theory Lru
  imports Go_List Store_Options
begin

text \<open>
  The byte-bounded LRU cache of \<^verbatim>\<open>store/lru.go\<close>: the \<open>container/list\<close> in recency order
  (least recently used in front), the map from keys to list elements, the map of expiry
  times and the byte account. Every method is written on the element heap; \<open>None\<close> is a
  panic (a type assertion on an element without an entry, a second \<open>close\<close> of the
  channel). Arguments stand for what the method reads from outside:

  \<^item> \<open>vlen\<close> is the \<open>Len\<close> method of the values;
  \<^item> \<open>now\<close>, \<open>now2\<close> are the readings of \<open>time.Now()\<close> in the order of the calls, in
    nanoseconds (a \<open>time.Time\<close> has seconds of its own, so \<open>Add\<close> does not wrap);
  \<^item> \<open>ks\<close> is the sequence of keys that \<open>range\<close> yields for the map the method ranges over.

  \<open>Get\<close> releases the read lock before it takes the write lock, so it is two atomic
  steps, \<open>lru_Get_read\<close> and \<open>lru_Get_touch\<close>; \<open>lru_Get\<close> is their composition without a
  step of another goroutine in between. The result also tells whether \<open>go c.Delete(key)\<close>
  was started.

  The second half gives the same operations on the recency sequence of entries and shows
  that the heap implements them.
\<close>

record 'v lruCache =
  c_list :: "(string \<times> 'v) golist"
  c_items :: "(string, nat) gomap"
  c_expires :: "(string, int) gomap"
  c_maxBytes :: int
  c_usedBytes :: int
  c_onEvicted :: bool
  c_cleanupInterval :: int
  c_closed :: bool

definition newLRUCache :: "Options \<Rightarrow> 'v lruCache" where
  "newLRUCache opts =
     (let cleanupInterval = (if CleanupInterval opts \<le> 0 then time_Minute else CleanupInterval opts)
      in \<lparr>c_list = list_New, c_items = [], c_expires = [], c_maxBytes = MaxBytes opts, c_usedBytes = 0,
          c_onEvicted = OnEvicted opts, c_cleanupInterval = cleanupInterval, c_closed = False\<rparr>)"

text \<open>The read-locked half of \<open>Get\<close>.\<close>

datatype 'v get_read = GMiss | GExpired | GFound nat 'v

definition lru_Get_read :: "int \<Rightarrow> string \<Rightarrow> 'v lruCache \<Rightarrow> 'v get_read option" where
  "lru_Get_read now key c =
     (case map_of (c_items c) key of
        None \<Rightarrow> Some GMiss
      | Some elem \<Rightarrow>
          (case map_of (c_expires c) key of
             Some expTime \<Rightarrow>
               if now > expTime then Some GExpired
               else do { entry \<leftarrow> gl_val (c_list c) elem; Some (GFound elem (snd entry)) }
           | None \<Rightarrow> do { entry \<leftarrow> gl_val (c_list c) elem; Some (GFound elem (snd entry)) }))"

text \<open>The write-locked half: refresh the position if the key is still present.\<close>

definition lru_Get_touch :: "string \<Rightarrow> nat \<Rightarrow> 'v lruCache \<Rightarrow> 'v lruCache" where
  "lru_Get_touch key elem c =
     (if map_of (c_items c) key \<noteq> None then c\<lparr>c_list := list_MoveToBack elem (c_list c)\<rparr> else c)"

definition lru_Get :: "int \<Rightarrow> string \<Rightarrow> 'v lruCache \<Rightarrow> ('v option \<times> bool \<times> 'v lruCache) option" where
  "lru_Get now key c = do {
     r \<leftarrow> lru_Get_read now key c;
     case r of
       GMiss \<Rightarrow> Some (None, False, c)
     | GExpired \<Rightarrow> Some (None, True, c)
     | GFound elem value \<Rightarrow> Some (Some value, False, lru_Get_touch key elem c)
   }"

definition lru_removeElement ::
  "('v \<Rightarrow> int) \<Rightarrow> nat \<Rightarrow> 'v lruCache \<Rightarrow> ('v calls \<times> 'v lruCache) option" where
  "lru_removeElement vlen elem c = do {
     (k, v) \<leftarrow> gl_val (c_list c) elem;
     Some (if c_onEvicted c then [(k, Some v)] else [],
       c\<lparr>c_list := list_Remove elem (c_list c), c_items := AList.delete k (c_items c),
         c_expires := AList.delete k (c_expires c),
         c_usedBytes := wrap64 (c_usedBytes c - wrap64 (int (length k) + vlen v))\<rparr>)
   }"

text \<open>The first loop of \<open>evict\<close>; a key deleted before it is reached is not produced by \<open>range\<close>.\<close>

primrec evict_expired ::
  "('v \<Rightarrow> int) \<Rightarrow> int \<Rightarrow> string list \<Rightarrow> 'v lruCache \<Rightarrow> ('v calls \<times> 'v lruCache) option" where
  "evict_expired vlen now [] c = Some ([], c)"
| "evict_expired vlen now (k # ks) c =
     (case (map_of (c_expires c) k, map_of (c_items c) k) of
        (Some expTime, Some elem) \<Rightarrow>
          if now > expTime then do {
            (cbs, c) \<leftarrow> lru_removeElement vlen elem c;
            (cbs', c) \<leftarrow> evict_expired vlen now ks c;
            Some (cbs @ cbs', c)
          } else evict_expired vlen now ks c
      | _ \<Rightarrow> evict_expired vlen now ks c)"

text \<open>The second loop of \<open>evict\<close>.\<close>

partial_function (option) evict_oldest ::
  "('v \<Rightarrow> int) \<Rightarrow> 'v lruCache \<Rightarrow> ('v calls \<times> 'v lruCache) option" where
  "evict_oldest vlen c =
     (if c_maxBytes c > 0 \<and> c_usedBytes c > c_maxBytes c \<and> gl_len (c_list c) > 0 then
        (case list_Front (c_list c) of
           Some elem \<Rightarrow>
             Option.bind (lru_removeElement vlen elem c) (\<lambda>(cbs, c).
               Option.bind (evict_oldest vlen c) (\<lambda>(cbs', c). Some (cbs @ cbs', c)))
         | None \<Rightarrow> evict_oldest vlen c)
      else Some ([], c))"

declare evict_oldest.simps [code]

definition lru_evict ::
  "('v \<Rightarrow> int) \<Rightarrow> int \<Rightarrow> string list \<Rightarrow> 'v lruCache \<Rightarrow> ('v calls \<times> 'v lruCache) option" where
  "lru_evict vlen now ks c = do {
     (cbs, c) \<leftarrow> evict_expired vlen now ks c;
     (cbs', c) \<leftarrow> evict_oldest vlen c;
     Some (cbs @ cbs', c)
   }"

definition lru_Delete ::
  "('v \<Rightarrow> int) \<Rightarrow> string \<Rightarrow> 'v lruCache \<Rightarrow> (bool \<times> 'v calls \<times> 'v lruCache) option" where
  "lru_Delete vlen key c =
     (case map_of (c_items c) key of
        Some elem \<Rightarrow> do { (cbs, c) \<leftarrow> lru_removeElement vlen elem c; Some (True, cbs, c) }
      | None \<Rightarrow> Some (False, [], c))"

definition set_expires :: "int \<Rightarrow> string \<Rightarrow> int \<Rightarrow> (string, int) gomap \<Rightarrow> (string, int) gomap" where
  "set_expires now key expiration ex =
     (if expiration > 0 then AList.update key (now + expiration) ex else AList.delete key ex)"

definition lru_SetWithExpiration ::
  "('v \<Rightarrow> int) \<Rightarrow> int \<Rightarrow> int \<Rightarrow> string list \<Rightarrow> string \<Rightarrow> 'v option \<Rightarrow> int \<Rightarrow> 'v lruCache
    \<Rightarrow> ('v calls \<times> 'v lruCache) option" where
  "lru_SetWithExpiration vlen now now2 ks key val expiration c =
     (case val of
        None \<Rightarrow> do { (_, cbs, c) \<leftarrow> lru_Delete vlen key c; Some (cbs, c) }
      | Some value \<Rightarrow>
          let c = c\<lparr>c_expires := set_expires now key expiration (c_expires c)\<rparr> in
          (case map_of (c_items c) key of
             Some elem \<Rightarrow> do {
               (k, old) \<leftarrow> gl_val (c_list c) elem;
               let l = (c_list c)\<lparr>gl_val := (gl_val (c_list c))(elem := Some (k, value))\<rparr>;
               Some ([], c\<lparr>c_usedBytes := wrap64 (c_usedBytes c + wrap64 (vlen value - vlen old)),
                           c_list := list_MoveToBack elem l\<rparr>)
             }
           | None \<Rightarrow>
               let el = list_PushBack (key, value) (c_list c);
                   c = c\<lparr>c_list := snd el, c_items := AList.update key (fst el) (c_items c),
                         c_usedBytes := wrap64 (c_usedBytes c + wrap64 (int (length key) + vlen value))\<rparr>
               in lru_evict vlen now2 ks c))"

definition lru_Set ::
  "('v \<Rightarrow> int) \<Rightarrow> int \<Rightarrow> int \<Rightarrow> string list \<Rightarrow> string \<Rightarrow> 'v option \<Rightarrow> 'v lruCache
    \<Rightarrow> ('v calls \<times> 'v lruCache) option" where
  "lru_Set vlen now now2 ks key val c = lru_SetWithExpiration vlen now now2 ks key val 0 c"

primrec clear_calls :: "string list \<Rightarrow> 'v lruCache \<Rightarrow> 'v calls option" where
  "clear_calls [] c = Some []"
| "clear_calls (k # ks) c =
     (case map_of (c_items c) k of
        Some elem \<Rightarrow> do {
          (key, v) \<leftarrow> gl_val (c_list c) elem;
          cbs \<leftarrow> clear_calls ks c;
          Some ((key, Some v) # cbs)
        }
      | None \<Rightarrow> clear_calls ks c)"

definition lru_Clear :: "string list \<Rightarrow> 'v lruCache \<Rightarrow> ('v calls \<times> 'v lruCache) option" where
  "lru_Clear ks c = do {
     cbs \<leftarrow> (if c_onEvicted c then clear_calls ks c else Some []);
     Some (cbs, c\<lparr>c_list := list_Init (c_list c), c_items := [], c_expires := [], c_usedBytes := 0\<rparr>)
   }"

definition lru_Len :: "'v lruCache \<Rightarrow> int" where
  "lru_Len c = gl_len (c_list c)"

text \<open>One tick of \<open>cleanupLoop\<close>; after \<open>Close\<close> there is none.\<close>

definition lru_cleanup ::
  "('v \<Rightarrow> int) \<Rightarrow> int \<Rightarrow> string list \<Rightarrow> 'v lruCache \<Rightarrow> ('v calls \<times> 'v lruCache) option" where
  "lru_cleanup vlen now ks c = (if c_closed c then Some ([], c) else lru_evict vlen now ks c)"

text \<open>Closing a closed channel panics.\<close>

definition lru_Close :: "'v lruCache \<Rightarrow> 'v lruCache option" where
  "lru_Close c = (if c_closed c then None else Some (c\<lparr>c_closed := True\<rparr>))"

definition lru_GetWithExpiration ::
  "int \<Rightarrow> string \<Rightarrow> 'v lruCache \<Rightarrow> (('v \<times> int) option \<times> 'v lruCache) option" where
  "lru_GetWithExpiration now key c =
     (case map_of (c_items c) key of
        None \<Rightarrow> Some (None, c)
      | Some elem \<Rightarrow>
          (case map_of (c_expires c) key of
             Some expTime \<Rightarrow>
               if now > expTime then Some (None, c)
               else do {
                 entry \<leftarrow> gl_val (c_list c) elem;
                 Some (Some (snd entry, time_Sub expTime now), c\<lparr>c_list := list_MoveToBack elem (c_list c)\<rparr>)
               }
           | None \<Rightarrow> do {
               entry \<leftarrow> gl_val (c_list c) elem;
               Some (Some (snd entry, 0), c\<lparr>c_list := list_MoveToBack elem (c_list c)\<rparr>)
             }))"

definition lru_GetExpiration :: "string \<Rightarrow> 'v lruCache \<Rightarrow> int option" where
  "lru_GetExpiration key c = map_of (c_expires c) key"

definition lru_UpdateExpiration :: "int \<Rightarrow> string \<Rightarrow> int \<Rightarrow> 'v lruCache \<Rightarrow> bool \<times> 'v lruCache" where
  "lru_UpdateExpiration now key expiration c =
     (if map_of (c_items c) key = None then (False, c)
      else (True, c\<lparr>c_expires := set_expires now key expiration (c_expires c)\<rparr>))"

definition lru_UsedBytes :: "'v lruCache \<Rightarrow> int" where
  "lru_UsedBytes c = c_usedBytes c"

definition lru_MaxBytes :: "'v lruCache \<Rightarrow> int" where
  "lru_MaxBytes c = c_maxBytes c"

definition lru_SetMaxBytes ::
  "('v \<Rightarrow> int) \<Rightarrow> int \<Rightarrow> string list \<Rightarrow> int \<Rightarrow> 'v lruCache \<Rightarrow> ('v calls \<times> 'v lruCache) option" where
  "lru_SetMaxBytes vlen now ks maxBytes c =
     (let c = c\<lparr>c_maxBytes := maxBytes\<rparr>
      in if maxBytes > 0 then lru_evict vlen now ks c else Some ([], c))"

subsection \<open>Operations as steps\<close>

datatype 'v lru_op =
    LGet int string
  | LSet int int "string list" string "'v option" int
  | LDelete string
  | LClear "string list"
  | LLen
  | LCleanup int "string list"
  | LGetExp int string
  | LExpiration string
  | LUpdate int string int
  | LUsed
  | LMax
  | LSetMax int "string list" int

datatype 'v lru_out =
    LRGet "'v option" bool | LRDone | LRBool bool | LRInt int | LRGetExp "('v \<times> int) option" | LRTime "int option"

primrec lru_step ::
  "('v \<Rightarrow> int) \<Rightarrow> 'v lru_op \<Rightarrow> 'v lruCache \<Rightarrow> (('v lru_out \<times> 'v calls) \<times> 'v lruCache) option" where
  "lru_step vlen (LGet now k) c = do { (r, d, c) \<leftarrow> lru_Get now k c; Some ((LRGet r d, []), c) }"
| "lru_step vlen (LSet now now2 ks k v ttl) c =
     do { (cbs, c) \<leftarrow> lru_SetWithExpiration vlen now now2 ks k v ttl c; Some ((LRDone, cbs), c) }"
| "lru_step vlen (LDelete k) c = do { (r, cbs, c) \<leftarrow> lru_Delete vlen k c; Some ((LRBool r, cbs), c) }"
| "lru_step vlen (LClear ks) c = do { (cbs, c) \<leftarrow> lru_Clear ks c; Some ((LRDone, cbs), c) }"
| "lru_step vlen LLen c = Some ((LRInt (lru_Len c), []), c)"
| "lru_step vlen (LCleanup now ks) c = do { (cbs, c) \<leftarrow> lru_cleanup vlen now ks c; Some ((LRDone, cbs), c) }"
| "lru_step vlen (LGetExp now k) c = do { (r, c) \<leftarrow> lru_GetWithExpiration now k c; Some ((LRGetExp r, []), c) }"
| "lru_step vlen (LExpiration k) c = Some ((LRTime (lru_GetExpiration k c), []), c)"
| "lru_step vlen (LUpdate now k ttl) c = (let r = lru_UpdateExpiration now k ttl c in Some ((LRBool (fst r), []), snd r))"
| "lru_step vlen LUsed c = Some ((LRInt (lru_UsedBytes c), []), c)"
| "lru_step vlen LMax c = Some ((LRInt (lru_MaxBytes c), []), c)"
| "lru_step vlen (LSetMax now ks m) c = do { (cbs, c) \<leftarrow> lru_SetMaxBytes vlen now ks m c; Some ((LRDone, cbs), c) }"

subsection \<open>The specification\<close>

text \<open>
  The abstract cache: the entries from the least to the most recently used, and the same
  expiry map and account.
\<close>

record 'v lruSpec =
  e_entries :: "(string, 'v) gomap"
  e_expires :: "(string, int) gomap"
  e_max :: int
  e_used :: int
  e_cb :: bool
  e_closed :: bool

definition stale_key :: "int \<Rightarrow> string \<Rightarrow> 'v lruSpec \<Rightarrow> bool" where
  "stale_key now k a \<longleftrightarrow> (case map_of (e_expires a) k of Some e \<Rightarrow> now > e | None \<Rightarrow> False)"

definition se_touch :: "string \<Rightarrow> 'v \<Rightarrow> 'v lruSpec \<Rightarrow> 'v lruSpec" where
  "se_touch k v a = a\<lparr>e_entries := AList.delete k (e_entries a) @ [(k, v)]\<rparr>"

definition se_Get :: "int \<Rightarrow> string \<Rightarrow> 'v lruSpec \<Rightarrow> ('v option \<times> bool) \<times> 'v lruSpec" where
  "se_Get now k a =
     (case map_of (e_entries a) k of
        None \<Rightarrow> ((None, False), a)
      | Some v \<Rightarrow> if stale_key now k a then ((None, True), a) else ((Some v, False), se_touch k v a))"

definition se_remove :: "('v \<Rightarrow> int) \<Rightarrow> string \<Rightarrow> 'v lruSpec \<Rightarrow> 'v calls \<times> 'v lruSpec" where
  "se_remove vlen k a =
     (case map_of (e_entries a) k of
        None \<Rightarrow> ([], a)
      | Some v \<Rightarrow>
          (if e_cb a then [(k, Some v)] else [],
           a\<lparr>e_entries := AList.delete k (e_entries a), e_expires := AList.delete k (e_expires a),
             e_used := wrap64 (e_used a - wrap64 (int (length k) + vlen v))\<rparr>))"

primrec se_expire :: "('v \<Rightarrow> int) \<Rightarrow> int \<Rightarrow> string list \<Rightarrow> 'v lruSpec \<Rightarrow> 'v calls \<times> 'v lruSpec" where
  "se_expire vlen now [] a = ([], a)"
| "se_expire vlen now (k # ks) a =
     (if stale_key now k a \<and> map_of (e_entries a) k \<noteq> None then
        (let r = se_remove vlen k a; rs = se_expire vlen now ks (snd r) in (fst r @ fst rs, snd rs))
      else se_expire vlen now ks a)"

function (sequential) se_shrink :: "('v \<Rightarrow> int) \<Rightarrow> 'v lruSpec \<Rightarrow> 'v calls \<times> 'v lruSpec" where
  "se_shrink vlen a =
     (case e_entries a of
        [] \<Rightarrow> ([], a)
      | (k, v) # es \<Rightarrow>
          if e_max a > 0 \<and> e_used a > e_max a then
            (let r = se_remove vlen k a; rs = se_shrink vlen (snd r) in (fst r @ fst rs, snd rs))
          else ([], a))"
  by pat_completeness auto

termination
  by (relation "measure (\<lambda>(vlen, a). length (e_entries a))")
    (auto simp: se_remove_def AList.delete_eq intro: le_imp_less_Suc)

declare se_shrink.simps [simp del]

definition se_evict :: "('v \<Rightarrow> int) \<Rightarrow> int \<Rightarrow> string list \<Rightarrow> 'v lruSpec \<Rightarrow> 'v calls \<times> 'v lruSpec" where
  "se_evict vlen now ks a =
     (let r = se_expire vlen now ks a; rs = se_shrink vlen (snd r) in (fst r @ fst rs, snd rs))"

definition se_insert :: "('v \<Rightarrow> int) \<Rightarrow> string \<Rightarrow> 'v \<Rightarrow> 'v lruSpec \<Rightarrow> 'v lruSpec" where
  "se_insert vlen k v a =
     a\<lparr>e_entries := e_entries a @ [(k, v)], e_used := wrap64 (e_used a + wrap64 (int (length k) + vlen v))\<rparr>"

definition se_Set ::
  "('v \<Rightarrow> int) \<Rightarrow> int \<Rightarrow> int \<Rightarrow> string list \<Rightarrow> string \<Rightarrow> 'v option \<Rightarrow> int \<Rightarrow> 'v lruSpec \<Rightarrow> 'v calls \<times> 'v lruSpec" where
  "se_Set vlen now now2 ks k val ttl a =
     (case val of
        None \<Rightarrow> se_remove vlen k a
      | Some v \<Rightarrow>
          let a = a\<lparr>e_expires := set_expires now k ttl (e_expires a)\<rparr> in
          (case map_of (e_entries a) k of
             Some old \<Rightarrow> ([], se_touch k v (a\<lparr>e_used := wrap64 (e_used a + wrap64 (vlen v - vlen old))\<rparr>))
           | None \<Rightarrow> se_evict vlen now2 ks (se_insert vlen k v a)))"

definition se_GetExp :: "int \<Rightarrow> string \<Rightarrow> 'v lruSpec \<Rightarrow> ('v \<times> int) option \<times> 'v lruSpec" where
  "se_GetExp now k a =
     (case map_of (e_entries a) k of
        None \<Rightarrow> (None, a)
      | Some v \<Rightarrow>
          if stale_key now k a then (None, a)
          else (Some (v, case map_of (e_expires a) k of Some e \<Rightarrow> time_Sub e now | None \<Rightarrow> 0), se_touch k v a))"

definition se_clear_calls :: "string list \<Rightarrow> 'v lruSpec \<Rightarrow> 'v calls" where
  "se_clear_calls ks a =
     concat (map (\<lambda>k. case map_of (e_entries a) k of Some v \<Rightarrow> [(k, Some v)] | None \<Rightarrow> []) ks)"

primrec lru_spec :: "('v \<Rightarrow> int) \<Rightarrow> 'v lru_op \<Rightarrow> 'v lruSpec \<Rightarrow> ('v lru_out \<times> 'v calls) \<times> 'v lruSpec" where
  "lru_spec vlen (LGet now k) a = (let r = se_Get now k a in ((LRGet (fst (fst r)) (snd (fst r)), []), snd r))"
| "lru_spec vlen (LSet now now2 ks k v ttl) a =
     (let r = se_Set vlen now now2 ks k v ttl a in ((LRDone, fst r), snd r))"
| "lru_spec vlen (LDelete k) a =
     (let r = se_remove vlen k a in ((LRBool (map_of (e_entries a) k \<noteq> None), fst r), snd r))"
| "lru_spec vlen (LClear ks) a =
     ((LRDone, if e_cb a then se_clear_calls ks a else []), a\<lparr>e_entries := [], e_expires := [], e_used := 0\<rparr>)"
| "lru_spec vlen LLen a = ((LRInt (int (length (e_entries a))), []), a)"
| "lru_spec vlen (LCleanup now ks) a =
     (if e_closed a then ((LRDone, []), a) else (let r = se_evict vlen now ks a in ((LRDone, fst r), snd r)))"
| "lru_spec vlen (LGetExp now k) a = (let r = se_GetExp now k a in ((LRGetExp (fst r), []), snd r))"
| "lru_spec vlen (LExpiration k) a = ((LRTime (map_of (e_expires a) k), []), a)"
| "lru_spec vlen (LUpdate now k ttl) a =
     (if map_of (e_entries a) k = None then ((LRBool False, []), a)
      else ((LRBool True, []), a\<lparr>e_expires := set_expires now k ttl (e_expires a)\<rparr>))"
| "lru_spec vlen LUsed a = ((LRInt (e_used a), []), a)"
| "lru_spec vlen LMax a = ((LRInt (e_max a), []), a)"
| "lru_spec vlen (LSetMax now ks m) a =
     (let a = a\<lparr>e_max := m\<rparr>
      in if m > 0 then (let r = se_evict vlen now ks a in ((LRDone, fst r), snd r)) else ((LRDone, []), a))"

subsection \<open>The representation relation\<close>

definition heap_ok :: "(string \<times> 'v) golist \<Rightarrow> nat list \<Rightarrow> (string, nat) gomap \<Rightarrow> bool" where
  "heap_ok l xs items \<longleftrightarrow> gl_repr l xs \<and> gomap_ok items \<and>
     (\<forall>k e. map_of items k = Some e \<longleftrightarrow> e \<in> set xs \<and> (\<exists>v. gl_val l e = Some (k, v)))"

definition entry_at :: "(string \<times> 'v) golist \<Rightarrow> nat \<Rightarrow> string \<times> 'v" where
  "entry_at l e = the (gl_val l e)"

definition lru_repr :: "'v lruCache \<Rightarrow> 'v lruSpec \<Rightarrow> bool" where
  "lru_repr c a \<longleftrightarrow>
     (\<exists>xs. heap_ok (c_list c) xs (c_items c) \<and> e_entries a = map (entry_at (c_list c)) xs) \<and>
     c_expires c = e_expires a \<and> c_maxBytes c = e_max a \<and> c_usedBytes c = e_used a \<and>
     c_onEvicted c = e_cb a \<and> c_closed c = e_closed a"

subsection \<open>The heap and its entries\<close>

lemma heap_okD:
  assumes "heap_ok l xs items"
  shows "gl_repr l xs" and "gomap_ok items" and "distinct xs"
    and "\<And>k e. map_of items k = Some e \<longleftrightarrow> e \<in> set xs \<and> (\<exists>v. gl_val l e = Some (k, v))"
    and "\<And>e. e \<in> set xs \<Longrightarrow> gl_val l e = Some (entry_at l e)"
  using assms gl_reprD(5,9) [of l xs] by (auto simp: heap_ok_def entry_at_def)

lemma heap_item:
  assumes "heap_ok l xs items"
  shows "map_of items k = Some e \<longleftrightarrow> e \<in> set xs \<and> fst (entry_at l e) = k"
  using heap_okD(4) [OF assms] heap_okD(5) [OF assms] by (cases "entry_at l e") auto

lemma heap_itemI: "heap_ok l xs items \<Longrightarrow> e \<in> set xs \<Longrightarrow> map_of items (fst (entry_at l e)) = Some e"
  using heap_item by blast

lemma heap_key_inj: "heap_ok l xs items \<Longrightarrow> inj_on (\<lambda>e. fst (entry_at l e)) (set xs)"
  by (rule inj_onI) (metis heap_itemI option.inject)

lemma heap_gomap:
  assumes "heap_ok l xs items"
  shows "gomap_ok (map (entry_at l) xs)"
  using heap_key_inj [OF assms] heap_okD(3) [OF assms] by (simp add: distinct_map comp_def)

lemma heap_lookup:
  assumes "heap_ok l xs items"
  shows "map_of (map (entry_at l) xs) k = map_option (\<lambda>e. snd (entry_at l e)) (map_of items k)"
proof (cases "map_of items k")
  case None
  then have "k \<notin> fst ` set (map (entry_at l) xs)" 
  proof (rule contrapos_pn [of "map_of items k = None"])
    assume "k \<in> fst ` set (map (entry_at l) xs)"
    then obtain e where "e \<in> set xs" "k = fst (entry_at l e)" by auto
    then show "map_of items k \<noteq> None" using heap_itemI [OF assms] by simp
  qed
  then have "map_of (map (entry_at l) xs) k = None" by (simp only: map_of_eq_None_iff) simp
  then show ?thesis using None by simp
next
  case (Some e)
  then have "e \<in> set xs" "fst (entry_at l e) = k" using heap_item [OF assms] by auto
  then have "(k, snd (entry_at l e)) \<in> set (map (entry_at l) xs)" by (metis image_eqI list.set_map prod.collapse)
  then show ?thesis using Some heap_gomap [OF assms] by (simp add: map_of_is_SomeI)
qed

lemma heap_delete:
  assumes "heap_ok l xs items" and "map_of items k = Some e"
  shows "AList.delete k (map (entry_at l) xs) = map (entry_at l) (remove1 e xs)"
proof -
  have "k \<noteq> fst (entry_at l x) \<longleftrightarrow> x \<noteq> e" if "x \<in> set xs" for x
    by (metis that assms heap_item heap_itemI option.inject)
  then have "filter (\<lambda>x. k \<noteq> fst (entry_at l x)) xs = remove1 e xs"
    using heap_okD(3) [OF assms(1)] by (simp add: remove1_filter cong: filter_cong)
  then show ?thesis by (simp add: AList.delete_eq filter_map comp_def case_prod_beta)
qed

lemma heap_remove:
  assumes "heap_ok l xs items" and "map_of items k = Some e"
  shows "heap_ok (list_Remove e l) (remove1 e xs) (AList.delete k items)"
    and "entry_at (list_Remove e l) = entry_at l"
proof -
  have e: "e \<in> set xs" "fst (entry_at l e) = k" using assms heap_item by metis+
  note r = list_Remove_repr [OF heap_okD(1) [OF assms(1)] e(1)]
  show "entry_at (list_Remove e l) = entry_at l" by (simp add: entry_at_def r(2) fun_eq_iff)
  have "map_of (AList.delete k items) k' = Some x \<longleftrightarrow> x \<in> set (remove1 e xs) \<and> (\<exists>v. gl_val l x = Some (k', v))" for k' x
  proof (cases "k' = k")
    case True
    then show ?thesis using assms heap_okD(4) [OF assms(1), of k x] heap_okD(3) [OF assms(1)] by auto
  next
    case False
    have "gl_val l e \<noteq> Some (k', v)" for v
      using heap_okD(4) [OF assms(1), of k' e] heap_okD(4) [OF assms(1), of k e] assms(2) False by auto
    then show ?thesis using heap_okD(4) [OF assms(1), of k' x] heap_okD(3) [OF assms(1)] False by auto
  qed
  then show "heap_ok (list_Remove e l) (remove1 e xs) (AList.delete k items)"
    using r heap_okD(2) [OF assms(1)] by (simp add: heap_ok_def)
qed

lemma heap_move:
  assumes "heap_ok l xs items" and "map_of items k = Some e"
  shows "heap_ok (list_MoveToBack e l) (remove1 e xs @ [e]) items"
    and "entry_at (list_MoveToBack e l) = entry_at l"
proof -
  have e: "e \<in> set xs" using assms heap_item by metis
  note r = list_MoveToBack_repr [OF heap_okD(1) [OF assms(1)] e]
  show "entry_at (list_MoveToBack e l) = entry_at l" by (simp add: entry_at_def r(2) fun_eq_iff)
  have "set (remove1 e xs @ [e]) = set xs" using e heap_okD(3) [OF assms(1)] by auto
  then show "heap_ok (list_MoveToBack e l) (remove1 e xs @ [e]) items"
    using r assms(1) by (simp add: heap_ok_def)
qed

lemma heap_write:
  fixes v :: 'v
  assumes "heap_ok l xs items" and "map_of items k = Some e"
  defines "l' \<equiv> l\<lparr>gl_val := (gl_val l)(e := Some (k, v))\<rparr>"
  shows "heap_ok l' xs items" and "entry_at l' = (entry_at l)(e := (k, v))"
proof -
  have "gl_repr l' xs" using heap_okD(1) [OF assms(1)] by (simp add: gl_repr_def l'_def)
  then show "heap_ok l' xs items"
    using assms heap_okD(4) [OF assms(1)] by (auto simp: heap_ok_def)
  show "entry_at l' = (entry_at l)(e := (k, v))" by (auto simp: l'_def entry_at_def)
qed

lemma heap_push:
  fixes v :: 'v
  assumes "heap_ok l xs items" and "map_of items k = None"
  defines "el \<equiv> list_PushBack (k, v) l"
  shows "heap_ok (snd el) (xs @ [fst el]) (AList.update k (fst el) items)"
    and "map (entry_at (snd el)) (xs @ [fst el]) = map (entry_at l) xs @ [(k, v)]"
proof -
  note r = list_PushBack_repr [OF heap_okD(1) [OF assms(1)], of "(k, v)", folded el_def]
  have new: "fst el \<notin> set xs" using r(1) gl_reprD(10) [OF heap_okD(1) [OF assms(1)]] by simp
  have "map_of (AList.update k (fst el) items) k' = Some x \<longleftrightarrow>
      x \<in> set (xs @ [fst el]) \<and> (\<exists>w. gl_val (snd el) x = Some (k', w))" for k' x
    using heap_okD(4) [OF assms(1), of k'] assms(2) r(1,3) new by auto
  then show "heap_ok (snd el) (xs @ [fst el]) (AList.update k (fst el) items)"
    using r heap_okD(2) [OF assms(1)] by (simp add: heap_ok_def)
  show "map (entry_at (snd el)) (xs @ [fst el]) = map (entry_at l) xs @ [(k, v)]"
    using r(1,3) new by (auto simp: entry_at_def)
qed

end
