(* ===== verification/Lru_Refines.thy ===== *)
theory Lru_Refines
  imports Lru
begin

text \<open>
  The LRU cache on the element heap implements its specification on the recency sequence:
  one simulation lemma per method, and the interpretation of the \<open>simulation\<close> contract.
\<close>

lemma lru_reprE:
  assumes "lru_repr c a"
  obtains xs where "heap_ok (c_list c) xs (c_items c)" "e_entries a = map (entry_at (c_list c)) xs"
    "c_expires c = e_expires a" "c_maxBytes c = e_max a" "c_usedBytes c = e_used a"
    "c_onEvicted c = e_cb a" "c_closed c = e_closed a"
  using assms by (auto simp: lru_repr_def)

lemma repr_fields:
  assumes "lru_repr c a"
  shows "c_expires c = e_expires a" "c_maxBytes c = e_max a" "c_usedBytes c = e_used a"
    "c_onEvicted c = e_cb a" "c_closed c = e_closed a"
    and "gl_len (c_list c) = int (length (e_entries a))"
  using assms by (auto simp: lru_repr_def dest!: heap_okD(1) gl_reprD(3))

lemma repr_keys: "lru_repr c a \<Longrightarrow> gomap_ok (e_entries a)"
  by (metis heap_gomap lru_reprE)

lemma repr_item:
  assumes "lru_repr c a"
  shows "map_of (c_items c) k = None \<longleftrightarrow> map_of (e_entries a) k = None"
    and "map_of (c_items c) k = Some e \<Longrightarrow> \<exists>v. map_of (e_entries a) k = Some v \<and> gl_val (c_list c) e = Some (k, v)"
proof -
  obtain xs where xs: "heap_ok (c_list c) xs (c_items c)" "e_entries a = map (entry_at (c_list c)) xs"
    using assms by (rule lru_reprE)
  show "map_of (c_items c) k = None \<longleftrightarrow> map_of (e_entries a) k = None"
    using heap_lookup [OF xs(1)] by (simp add: xs(2) del: map_of_map)
  assume k: "map_of (c_items c) k = Some e"
  then have "e \<in> set xs" "fst (entry_at (c_list c) e) = k" using heap_item [OF xs(1)] by auto
  then show "\<exists>v. map_of (e_entries a) k = Some v \<and> gl_val (c_list c) e = Some (k, v)"
    using heap_lookup [OF xs(1), of k] heap_okD(5) [OF xs(1)] k by (auto simp: xs(2) prod_eq_iff simp del: map_of_map)
qed

lemma repr_cases:
  assumes "lru_repr c a"
  obtains (absent) "map_of (c_items c) k = None" "map_of (e_entries a) k = None"
  | (present) e v where "map_of (c_items c) k = Some e" "map_of (e_entries a) k = Some v"
      "gl_val (c_list c) e = Some (k, v)"
  using repr_item [OF assms, of k] by (cases "map_of (c_items c) k") auto

lemma removeElement_sim:
  assumes "lru_repr c a" and "map_of (c_items c) k = Some e"
  shows "\<exists>c'. lru_removeElement vlen e c = Some (fst (se_remove vlen k a), c') \<and>
    lru_repr c' (snd (se_remove vlen k a))"
proof -
  obtain xs where xs: "heap_ok (c_list c) xs (c_items c)" "e_entries a = map (entry_at (c_list c)) xs"
    using assms(1) by (rule lru_reprE)
  obtain v where v: "map_of (e_entries a) k = Some v" "gl_val (c_list c) e = Some (k, v)"
    using repr_item(2) [OF assms] by blast
  note r = heap_remove [OF xs(1) assms(2)] and d = heap_delete [OF xs(1) assms(2)]
  show ?thesis using r d v repr_fields [OF assms(1)]
    by (auto simp: lru_removeElement_def se_remove_def lru_repr_def xs(2) simp del: map_of_map)
qed

lemma touch_sim:
  assumes "lru_repr c a" and "map_of (c_items c) k = Some e" and "map_of (e_entries a) k = Some v"
  shows "lru_repr (c\<lparr>c_list := list_MoveToBack e (c_list c)\<rparr>) (se_touch k v a)"
proof -
  obtain xs where xs: "heap_ok (c_list c) xs (c_items c)" "e_entries a = map (entry_at (c_list c)) xs"
    using assms(1) by (rule lru_reprE)
  have "entry_at (c_list c) e = (k, v)" using repr_item(2) [OF assms(1,2)] assms(3) by (auto simp: entry_at_def)
  then have "AList.delete k (e_entries a) @ [(k, v)] = map (entry_at (c_list c)) (remove1 e xs @ [e])"
    using heap_delete [OF xs(1) assms(2)] by (simp add: xs(2))
  then show ?thesis using heap_move [OF xs(1) assms(2)] repr_fields [OF assms(1)]
    by (auto simp: lru_repr_def se_touch_def)
qed

lemma expired_sim:
  assumes "lru_repr c a"
  shows "\<exists>c'. evict_expired vlen now ks c = Some (fst (se_expire vlen now ks a), c') \<and>
    lru_repr c' (snd (se_expire vlen now ks a))"
  using assms
proof (induction ks arbitrary: c a)
  case (Cons k ks)
  have ex: "c_expires c = e_expires a" using repr_fields(1) [OF Cons.prems] .
  show ?case
  proof (cases "stale_key now k a \<and> map_of (e_entries a) k \<noteq> None")
    case False
    then have "evict_expired vlen now (k # ks) c = evict_expired vlen now ks c"
      using repr_item(1) [OF Cons.prems, of k] ex by (auto simp: stale_key_def split: option.splits)
    then show ?thesis using Cons.IH [OF Cons.prems] False by (auto simp del: evict_expired.simps)
  next
    case True
    then obtain e where e: "map_of (c_items c) k = Some e" using repr_item(1) [OF Cons.prems, of k] by auto
    obtain c1 where c1: "lru_removeElement vlen e c = Some (fst (se_remove vlen k a), c1)"
      "lru_repr c1 (snd (se_remove vlen k a))" using removeElement_sim [OF Cons.prems e] by blast
    from True e ex c1(1) Cons.IH [OF c1(2)] show ?thesis
      by (auto simp: stale_key_def Let_def split: option.splits)
  qed
qed simp

lemma oldest_sim:
  assumes "lru_repr c a"
  shows "\<exists>c'. evict_oldest vlen c = Some (fst (se_shrink vlen a), c') \<and> lru_repr c' (snd (se_shrink vlen a))"
  using assms
proof (induction vlen a arbitrary: c rule: se_shrink.induct)
  case (1 vlen a)
  note f = repr_fields [OF 1(2)]
  show ?case
  proof (cases "e_max a > 0 \<and> e_used a > e_max a \<and> e_entries a \<noteq> []")
    case False
    then show ?thesis using f 1(2)
      by (subst evict_oldest.simps, subst (1 2) se_shrink.simps) (auto split: list.split)
  next
    case True
    then obtain k v es where es: "e_entries a = (k, v) # es" by (metis list.exhaust prod.exhaust)
    obtain xs where xs: "heap_ok (c_list c) xs (c_items c)" "e_entries a = map (entry_at (c_list c)) xs"
      using 1(2) by (rule lru_reprE)
    obtain e ys where e: "xs = e # ys" "entry_at (c_list c) e = (k, v)" using xs(2) es by (cases xs) auto
    have front: "list_Front (c_list c) = Some e" using list_Front_repr [OF heap_okD(1) [OF xs(1)]] e(1) by simp
    have item: "map_of (c_items c) k = Some e" using heap_itemI [OF xs(1), of e] e by simp
    obtain c1 where c1: "lru_removeElement vlen e c = Some (fst (se_remove vlen k a), c1)"
      "lru_repr c1 (snd (se_remove vlen k a))" using removeElement_sim [OF 1(2) item] by blast
    obtain c2 where "evict_oldest vlen c1 = Some (fst (se_shrink vlen (snd (se_remove vlen k a))), c2)"
      "lru_repr c2 (snd (se_shrink vlen (snd (se_remove vlen k a))))"
      using 1(1) [OF es refl _ refl c1(2)] True by blast
    then show ?thesis using True es f front c1(1)
      by (subst evict_oldest.simps, subst (1 2) se_shrink.simps) (simp add: Let_def)
  qed
qed

lemma evict_sim:
  assumes "lru_repr c a"
  shows "\<exists>c'. lru_evict vlen now ks c = Some (fst (se_evict vlen now ks a), c') \<and>
    lru_repr c' (snd (se_evict vlen now ks a))"
proof -
  obtain c1 where c1: "evict_expired vlen now ks c = Some (fst (se_expire vlen now ks a), c1)"
    "lru_repr c1 (snd (se_expire vlen now ks a))" using expired_sim [OF assms] by blast
  from oldest_sim [OF c1(2), of vlen] c1(1) show ?thesis by (auto simp: lru_evict_def se_evict_def Let_def)
qed

lemma Get_lru_sim:
  assumes "lru_repr c a"
  shows "\<exists>c'. lru_Get now k c = Some (fst (fst (se_Get now k a)), snd (fst (se_Get now k a)), c') \<and>
    lru_repr c' (snd (se_Get now k a))"
  using assms
proof (cases rule: repr_cases [of _ _ k])
  case absent
  then show ?thesis using assms by (simp add: lru_Get_def lru_Get_read_def se_Get_def)
next
  case (present e v)
  from touch_sim [OF assms present(1,2)] present assms repr_fields(1) [OF assms] show ?thesis
    by (cases "map_of (e_expires a) k")
      (auto simp: lru_Get_def lru_Get_read_def lru_Get_touch_def se_Get_def stale_key_def)
qed

lemma GetExp_sim:
  assumes "lru_repr c a"
  shows "\<exists>c'. lru_GetWithExpiration now k c = Some (fst (se_GetExp now k a), c') \<and>
    lru_repr c' (snd (se_GetExp now k a))"
  using assms
proof (cases rule: repr_cases [of _ _ k])
  case absent
  then show ?thesis using assms by (simp add: lru_GetWithExpiration_def se_GetExp_def)
next
  case (present e v)
  from touch_sim [OF assms present(1,2)] present assms repr_fields(1) [OF assms] show ?thesis
    by (cases "map_of (e_expires a) k") (auto simp: lru_GetWithExpiration_def se_GetExp_def stale_key_def)
qed

lemma Delete_lru_sim:
  assumes "lru_repr c a"
  shows "\<exists>c'. lru_Delete vlen k c = Some (map_of (e_entries a) k \<noteq> None, fst (se_remove vlen k a), c') \<and>
    lru_repr c' (snd (se_remove vlen k a))"
  using assms
proof (cases rule: repr_cases [of _ _ k])
  case absent
  then show ?thesis using assms by (simp add: lru_Delete_def se_remove_def)
next
  case (present e v)
  from removeElement_sim [OF assms present(1), of vlen] present show ?thesis by (auto simp: lru_Delete_def)
qed

lemma expires_sim:
  "lru_repr c a \<Longrightarrow> lru_repr (c\<lparr>c_expires := ex\<rparr>) (a\<lparr>e_expires := ex\<rparr>)"
  by (simp add: lru_repr_def)

lemma update_sim:
  assumes "lru_repr c a" and "map_of (c_items c) k = Some e"
  shows "lru_repr (c\<lparr>c_usedBytes := u, c_list := list_MoveToBack e
      ((c_list c)\<lparr>gl_val := (gl_val (c_list c))(e := Some (k, v))\<rparr>)\<rparr>) (se_touch k v (a\<lparr>e_used := u\<rparr>))"
proof -
  let ?l = "(c_list c)\<lparr>gl_val := (gl_val (c_list c))(e := Some (k, v))\<rparr>"
  obtain xs where xs: "heap_ok (c_list c) xs (c_items c)" "e_entries a = map (entry_at (c_list c)) xs"
    using assms(1) by (rule lru_reprE)
  note w = heap_write [OF xs(1) assms(2), of v]
  have d: "distinct xs" using heap_okD(3) [OF xs(1)] .
  have "map (entry_at ?l) (remove1 e xs @ [e]) = map (entry_at (c_list c)) (remove1 e xs) @ [(k, v)]"
    using d by (simp add: w(2))
  also have "\<dots> = AList.delete k (e_entries a) @ [(k, v)]"
    using heap_delete [OF xs(1) assms(2)] by (simp add: xs(2))
  finally have "map (entry_at ?l) (remove1 e xs @ [e]) = AList.delete k (e_entries a) @ [(k, v)]" .
  then show ?thesis using heap_move [OF w(1) assms(2)] repr_fields [OF assms(1)]
    by (auto simp: lru_repr_def se_touch_def simp del: map_append)
qed

lemma insert_sim:
  fixes v :: 'v
  assumes "lru_repr c a" and "map_of (c_items c) k = None"
  defines "el \<equiv> list_PushBack (k, v) (c_list c)"
  shows "lru_repr (c\<lparr>c_list := snd el, c_items := AList.update k (fst el) (c_items c),
      c_usedBytes := wrap64 (c_usedBytes c + wrap64 (int (length k) + vlen v))\<rparr>) (se_insert vlen k v a)"
proof -
  obtain xs where xs: "heap_ok (c_list c) xs (c_items c)" "e_entries a = map (entry_at (c_list c)) xs"
    using assms(1) by (rule lru_reprE)
  show ?thesis using heap_push [OF xs(1) assms(2), of v, folded el_def] repr_fields [OF assms(1)] xs(2)
    by (auto simp: lru_repr_def se_insert_def intro!: exI [of _ "xs @ [fst el]"])
qed

lemma Set_lru_sim:
  assumes "lru_repr c a"
  shows "\<exists>c'. lru_SetWithExpiration vlen now now2 ks k val ttl c = Some (fst (se_Set vlen now now2 ks k val ttl a), c') \<and>
    lru_repr c' (snd (se_Set vlen now now2 ks k val ttl a))"
proof (cases val)
  case None
  then show ?thesis using Delete_lru_sim [OF assms, of vlen k]
    by (auto simp: lru_SetWithExpiration_def se_Set_def)
next
  case (Some v)
  let ?ex = "set_expires now k ttl (e_expires a)"
  let ?c = "c\<lparr>c_expires := ?ex\<rparr>" and ?a = "a\<lparr>e_expires := ?ex\<rparr>"
  have r: "lru_repr ?c ?a" using expires_sim [OF assms] .
  have ex: "c_expires c = e_expires a" using repr_fields(1) [OF assms] .
  from r show ?thesis
  proof (cases rule: repr_cases [of _ _ k])
    case absent
    note ins = insert_sim [OF r absent(1), of vlen v]
    from evict_sim [OF ins, of vlen now2 ks] absent show ?thesis
      by (simp add: lru_SetWithExpiration_def se_Set_def Some ex Let_def)
  next
    case (present e old)
    note up = update_sim [OF r present(1), where u = "wrap64 (e_used a + wrap64 (vlen v - vlen old))" and v = v]
    from up present repr_fields [OF assms] show ?thesis
      by (simp add: lru_SetWithExpiration_def se_Set_def Some Let_def)
  qed
qed

lemma clear_calls_sim:
  assumes "lru_repr c a"
  shows "clear_calls ks c = Some (se_clear_calls ks a)"
proof (induction ks)
  case (Cons k ks)
  from assms show ?case
    by (cases rule: repr_cases [of _ _ k]) (use Cons in \<open>auto simp: se_clear_calls_def\<close>)
qed (simp add: se_clear_calls_def)

lemma Clear_lru_sim:
  assumes "lru_repr c a"
  shows "\<exists>c'. lru_Clear ks c = Some (if e_cb a then se_clear_calls ks a else [], c') \<and>
    lru_repr c' (a\<lparr>e_entries := [], e_expires := [], e_used := 0\<rparr>)"
proof -
  obtain xs where xs: "heap_ok (c_list c) xs (c_items c)" using assms by (rule lru_reprE)
  have "heap_ok (list_Init (c_list c)) [] []" using list_Init_repr [OF heap_okD(1) [OF xs]] by (simp add: heap_ok_def)
  then show ?thesis using clear_calls_sim [OF assms] repr_fields [OF assms]
    by (auto simp: lru_Clear_def lru_repr_def)
qed

lemma max_sim: "lru_repr c a \<Longrightarrow> lru_repr (c\<lparr>c_maxBytes := m\<rparr>) (a\<lparr>e_max := m\<rparr>)"
  by (simp add: lru_repr_def)

lemma lru_step_sim:
  assumes "lru_repr c a"
  shows "\<exists>c'. lru_step vlen x c = Some (fst (lru_spec vlen x a), c') \<and> lru_repr c' (snd (lru_spec vlen x a))"
proof (cases x)
  case (LGet now k)
  then show ?thesis using Get_lru_sim [OF assms, of now k] by (auto simp: Let_def)
next
  case (LSet now now2 ks k v ttl)
  then show ?thesis using Set_lru_sim [OF assms, of vlen now now2 ks k v ttl] by (auto simp: Let_def)
next
  case (LDelete k)
  then show ?thesis using Delete_lru_sim [OF assms, of vlen k] by (auto simp: Let_def)
next
  case (LClear ks)
  then show ?thesis using Clear_lru_sim [OF assms, of ks] by auto
next
  case (LCleanup now ks)
  then show ?thesis using evict_sim [OF assms, of vlen now ks] repr_fields(5) [OF assms] assms
    by (auto simp: lru_cleanup_def Let_def)
next
  case (LGetExp now k)
  then show ?thesis using GetExp_sim [OF assms, of now k] by (auto simp: Let_def)
next
  case (LUpdate now k ttl)
  then show ?thesis using expires_sim [OF assms] repr_item(1) [OF assms, of k] repr_fields(1) [OF assms] assms
    by (auto simp: lru_UpdateExpiration_def Let_def)
next
  case (LSetMax now ks m)
  then show ?thesis using evict_sim [OF max_sim [OF assms], of vlen now ks m] max_sim [OF assms, of m]
    by (auto simp: lru_SetMaxBytes_def Let_def)
qed (use assms repr_fields [OF assms] in
    \<open>auto simp: lru_Len_def lru_GetExpiration_def lru_UsedBytes_def lru_MaxBytes_def\<close>)

interpretation lru: simulation lru_repr "lru_step vlen" "lru_spec vlen" for vlen
  by unfold_locales (rule lru_step_sim)

definition lru_init :: "Options \<Rightarrow> 'v lruSpec" where
  "lru_init opts = \<lparr>e_entries = [], e_expires = [], e_max = MaxBytes opts, e_used = 0,
     e_cb = OnEvicted opts, e_closed = False\<rparr>"

lemma newLRU_repr: "lru_repr (newLRUCache opts) (lru_init opts)"
  by (simp add: newLRUCache_def lru_init_def lru_repr_def heap_ok_def list_New_repr Let_def)

end
