(* ===== verification/Lru_Theorems.thy ===== *)
theory Lru_Theorems
  imports Lru_Refines
begin

text \<open>
  Properties of the LRU cache of \<^verbatim>\<open>store/lru.go\<close>: the byte account, the memory bound,
  the eviction order, expiry, and the two behaviours where the code departs from its
  bound or from its list invariant.
\<close>

subsection \<open>The byte account\<close>

definition entry_size :: "('v \<Rightarrow> int) \<Rightarrow> string \<times> 'v \<Rightarrow> int" where
  "entry_size vlen e = int (length (fst e)) + vlen (snd e)"

definition total_size :: "('v \<Rightarrow> int) \<Rightarrow> (string, 'v) gomap \<Rightarrow> int" where
  "total_size vlen es = sum_list (map (entry_size vlen) es)"

definition lru_acc :: "('v \<Rightarrow> int) \<Rightarrow> 'v lruSpec \<Rightarrow> bool" where
  "lru_acc vlen a \<longleftrightarrow> gomap_ok (e_entries a) \<and> gomap_ok (e_expires a) \<and>
     dom (map_of (e_expires a)) \<subseteq> dom (map_of (e_entries a)) \<and>
     e_used a = wrap64 (total_size vlen (e_entries a))"

lemma wrap64_mod: "wrap64 x = wrap64 y \<longleftrightarrow> x mod 2 ^ 64 = y mod 2 ^ 64"
  by (simp add: wrap64_def mod_eq_dvd_iff)

lemma wrap64_self: "wrap64 x mod 2 ^ 64 = x mod 2 ^ 64"
  by (simp add: wrap64_def mod_diff_left_eq)

lemma wrap64_add: "wrap64 (wrap64 x + wrap64 y) = wrap64 (x + y)"
  unfolding wrap64_mod using mod_add_cong [OF wrap64_self wrap64_self] .

lemma wrap64_diff: "wrap64 (wrap64 x - wrap64 y) = wrap64 (x - y)"
  unfolding wrap64_mod using mod_diff_cong [OF wrap64_self wrap64_self] .

lemma total_simps [simp]:
  "total_size vlen [] = 0" "total_size vlen (e # es) = entry_size vlen e + total_size vlen es"
  "total_size vlen (xs @ ys) = total_size vlen xs + total_size vlen ys"
  by (simp_all add: total_size_def)

lemma gomap_split:
  assumes "gomap_ok m" and "map_of m k = Some v"
  obtains xs ys where "m = xs @ (k, v) # ys" "AList.delete k m = xs @ ys" "k \<notin> fst ` set xs" "k \<notin> fst ` set ys"
proof -
  obtain xs ys where m: "m = xs @ (k, v) # ys" using assms(2) by (metis map_of_SomeD split_list)
  with assms(1) have "k \<notin> fst ` set xs" "k \<notin> fst ` set ys" by auto
  then have "AList.delete k xs = xs" "AList.delete k ys = ys" by (simp_all add: delete_id)
  then have "AList.delete k m = xs @ ys" by (simp add: m AList.delete_eq)
  with m that show ?thesis using \<open>k \<notin> fst ` set xs\<close> \<open>k \<notin> fst ` set ys\<close> by blast
qed

lemma total_delete:
  "gomap_ok m \<Longrightarrow> map_of m k = Some v \<Longrightarrow> total_size vlen (AList.delete k m) = total_size vlen m - entry_size vlen (k, v)"
  by (erule (1) gomap_split) simp

lemma length_delete:
  "gomap_ok m \<Longrightarrow> map_of m k = Some v \<Longrightarrow> int (length (AList.delete k m)) = int (length m) - 1"
  by (erule (1) gomap_split) simp

lemma remove_acc: "lru_acc vlen a \<Longrightarrow> lru_acc vlen (snd (se_remove vlen k a))"
  by (auto simp: lru_acc_def se_remove_def total_delete entry_size_def wrap64_diff split: option.split)

lemma expire_acc: "lru_acc vlen a \<Longrightarrow> lru_acc vlen (snd (se_expire vlen now ks a))"
  by (induction ks arbitrary: a) (auto simp: Let_def remove_acc)

lemma shrink_acc: "lru_acc vlen a \<Longrightarrow> lru_acc vlen (snd (se_shrink vlen a))"
proof (induction vlen a rule: se_shrink.induct)
  case (1 vlen a)
  show ?case
  proof (cases "e_entries a")
    case (Cons e es)
    then show ?thesis using 1(1) [OF Cons prod.collapse _ refl] remove_acc [OF 1(2)] 1(2)
      by (subst se_shrink.simps) (simp add: Let_def case_prod_beta)
  qed (use 1(2) in \<open>simp add: se_shrink.simps\<close>)
qed

lemma evict_acc: "lru_acc vlen a \<Longrightarrow> lru_acc vlen (snd (se_evict vlen now ks a))"
  by (simp add: se_evict_def Let_def shrink_acc expire_acc)

lemma touch_acc:
  assumes "lru_acc vlen a" and "map_of (e_entries a) k = Some v"
    and "u = wrap64 (total_size vlen (e_entries a) + (vlen w - vlen v))"
  shows "lru_acc vlen (se_touch k w (a\<lparr>e_used := u\<rparr>))"
proof -
  have "gomap_ok (AList.delete k (e_entries a) @ [(k, w)])"
    using assms(1) by (simp add: lru_acc_def delete_keys distinct_removeAll)
  then show ?thesis using assms
    by (auto simp: lru_acc_def se_touch_def total_delete entry_size_def map_add_def algebra_simps split: option.splits)
qed

lemma set_expires_dom: "dom (map_of (set_expires now k ttl ex)) \<subseteq> insert k (dom (map_of ex))"
  by (auto simp: set_expires_def split: if_splits)

lemma set_expires_ok: "gomap_ok ex \<Longrightarrow> gomap_ok (set_expires now k ttl ex)"
  by (simp add: set_expires_def)

lemma expires_acc:
  assumes "lru_acc vlen a" and "map_of (e_entries a) k \<noteq> None"
  shows "lru_acc vlen (a\<lparr>e_expires := set_expires now k ttl (e_expires a)\<rparr>)"
proof -
  have "k \<in> dom (map_of (e_entries a))" using assms(2) by (simp add: domIff)
  then have "dom (map_of (set_expires now k ttl (e_expires a))) \<subseteq> dom (map_of (e_entries a))"
    using assms(1) set_expires_dom [of now k ttl "e_expires a"] unfolding lru_acc_def by blast
  then show ?thesis using assms(1) set_expires_ok by (simp add: lru_acc_def)
qed

lemma insert_acc:
  assumes "lru_acc vlen a" and "map_of (e_entries a) k = None"
  shows "lru_acc vlen (se_insert vlen k v (a\<lparr>e_expires := set_expires now k ttl (e_expires a)\<rparr>))"
proof -
  have "dom (map_of (set_expires now k ttl (e_expires a))) \<subseteq> insert k (dom (map_of (e_entries a)))"
    using assms(1) set_expires_dom [of now k ttl "e_expires a"] unfolding lru_acc_def by blast
  moreover have "k \<notin> fst ` set (e_entries a)" using assms(2) by (simp add: map_of_eq_None_iff)
  ultimately show ?thesis using assms(1) set_expires_ok
    by (auto simp: lru_acc_def se_insert_def entry_size_def wrap64_add dom_map_of_conv_image_fst)
qed

lemma Set_acc:
  assumes "lru_acc vlen a"
  shows "lru_acc vlen (snd (se_Set vlen now now2 ks k val ttl a))"
proof (cases val)
  case None
  then show ?thesis using assms by (simp add: se_Set_def remove_acc)
next
  case (Some v)
  let ?a = "a\<lparr>e_expires := set_expires now k ttl (e_expires a)\<rparr>"
  show ?thesis
  proof (cases "map_of (e_entries a) k")
    case None
    then show ?thesis using insert_acc [OF assms] Some by (simp add: se_Set_def Let_def evict_acc)
  next
    case (Some old)
    then have "lru_acc vlen ?a" using assms by (intro expires_acc) simp_all
    then have "lru_acc vlen (se_touch k v (?a\<lparr>e_used := wrap64 (e_used ?a + wrap64 (vlen v - vlen old))\<rparr>))"
      using Some assms by (intro touch_acc) (auto simp: lru_acc_def wrap64_add)
    then show ?thesis using Some \<open>val = Some v\<close> by (simp add: se_Set_def Let_def)
  qed
qed

lemma touch_acc_same:
  assumes "lru_acc vlen a" and "map_of (e_entries a) k = Some v"
  shows "lru_acc vlen (se_touch k v a)"
proof -
  have "e_used a = wrap64 (total_size vlen (e_entries a) + (vlen v - vlen v))"
    using assms(1) by (simp add: lru_acc_def)
  from touch_acc [OF assms this] show ?thesis by simp
qed

lemma spec_acc: "lru_acc vlen a \<Longrightarrow> lru_acc vlen (snd (lru_spec vlen x a))"
proof (cases x)
  case (LGet now k)
  assume "lru_acc vlen a"
  with LGet touch_acc_same show ?thesis by (auto simp: se_Get_def Let_def split: option.split)
next
  case (LGetExp now k)
  assume "lru_acc vlen a"
  with LGetExp touch_acc_same show ?thesis by (auto simp: se_GetExp_def Let_def split: option.split)
next
  case (LUpdate now k ttl)
  assume "lru_acc vlen a"
  with LUpdate show ?thesis by (simp add: expires_acc)
next
  case (LClear ks)
  assume "lru_acc vlen a"
  with LClear show ?thesis by (simp add: lru_acc_def wrap64_def)
next
  case (LSetMax now ks m)
  assume "lru_acc vlen a"
  then have "lru_acc vlen (a\<lparr>e_max := m\<rparr>)" by (simp add: lru_acc_def)
  with LSetMax show ?thesis by (simp add: Let_def evict_acc)
qed (simp_all add: Let_def Set_acc remove_acc evict_acc)

lemma run_acc: "lru_acc vlen a \<Longrightarrow> lru_acc vlen (snd (run_spec (lru_spec vlen) ops a))"
  by (induction ops arbitrary: a) (simp_all add: Let_def spec_acc)

lemma init_acc: "lru_acc vlen (lru_init opts)"
  by (simp add: lru_acc_def lru_init_def wrap64_def)

text \<open>A well-formed cache: it represents an accounted sequence of entries.\<close>

definition lru_ok :: "('v \<Rightarrow> int) \<Rightarrow> 'v lruCache \<Rightarrow> bool" where
  "lru_ok vlen c \<longleftrightarrow> (\<exists>a. lru_repr c a \<and> lru_acc vlen a)"

lemma lru_okE:
  assumes "lru_ok vlen c"
  obtains a where "lru_repr c a" "lru_acc vlen a"
  using assms by (auto simp: lru_ok_def)

lemma newLRU_ok: "lru_ok vlen (newLRUCache opts)"
  unfolding lru_ok_def using newLRU_repr init_acc by blast

subsection \<open>The account on the heap\<close>

text \<open>The bytes of the entries the map of the cache points to.\<close>

definition lru_bytes :: "('v \<Rightarrow> int) \<Rightarrow> 'v lruCache \<Rightarrow> int" where
  "lru_bytes vlen c = sum_list (map (\<lambda>i. entry_size vlen (entry_at (c_list c) (snd i))) (c_items c))"

lemma heap_items:
  assumes "heap_ok l xs items"
  shows "distinct (map snd items)" and "set (map snd items) = set xs"
proof -
  have mem: "(k, e) \<in> set items \<longleftrightarrow> e \<in> set xs \<and> fst (entry_at l e) = k" for k e
    using heap_item [OF assms] gomap_mem [OF heap_okD(2) [OF assms]] by metis
  have "inj_on snd (set items)"
  proof (rule inj_onI)
    fix i j
    assume "i \<in> set items" "j \<in> set items" "snd i = snd j"
    then show "i = j" using mem by (metis prod.collapse)
  qed
  moreover have "distinct items" using heap_okD(2) [OF assms] by (simp add: distinct_map)
  ultimately show "distinct (map snd items)" by (simp add: distinct_map)
  have "e \<in> snd ` set items \<longleftrightarrow> e \<in> set xs" for e using mem by (metis image_iff prod.collapse snd_conv)
  then show "set (map snd items) = set xs" by auto
qed

lemma repr_bytes:
  assumes "lru_repr c a"
  shows "lru_bytes vlen c = total_size vlen (e_entries a)" and "length (c_items c) = length (e_entries a)"
proof -
  obtain xs where xs: "heap_ok (c_list c) xs (c_items c)" "e_entries a = map (entry_at (c_list c)) xs"
    using assms by (rule lru_reprE)
  note i = heap_items [OF xs(1)] and d = heap_okD(3) [OF xs(1)]
  let ?f = "\<lambda>e. entry_size vlen (entry_at (c_list c) e)"
  have "lru_bytes vlen c = sum_list (map ?f (map snd (c_items c)))" by (simp add: lru_bytes_def comp_def)
  also have "\<dots> = sum ?f (set xs)" by (simp only: sum_list_distinct_conv_sum_set [OF i(1)] i(2))
  also have "\<dots> = total_size vlen (e_entries a)"
    by (simp add: total_size_def xs(2) comp_def sum_list_distinct_conv_sum_set [OF d])
  finally show "lru_bytes vlen c = total_size vlen (e_entries a)" .
  show "length (c_items c) = length (e_entries a)"
    using distinct_card [OF i(1)] distinct_card [OF d] i(2) xs(2) by simp
qed

subsection \<open>Eviction\<close>

lemma remove_fields [simp]:
  "e_max (snd (se_remove vlen k a)) = e_max a" "e_cb (snd (se_remove vlen k a)) = e_cb a"
  by (simp_all add: se_remove_def split: option.split)

lemma expire_fields [simp]:
  "e_max (snd (se_expire vlen now ks a)) = e_max a" "e_cb (snd (se_expire vlen now ks a)) = e_cb a"
  by (induction ks arbitrary: a) (simp_all add: Let_def)

lemma shrink_bound:
  "lru_acc vlen a \<Longrightarrow> e_max (snd (se_shrink vlen a)) = e_max a \<and>
     (0 < e_max a \<longrightarrow> e_used (snd (se_shrink vlen a)) \<le> e_max a)"
proof (induction vlen a rule: se_shrink.induct)
  case (1 vlen a)
  show ?case
  proof (cases "e_entries a")
    case Nil
    then show ?thesis using 1(2) by (simp add: se_shrink.simps lru_acc_def wrap64_def)
  next
    case (Cons e es)
    then show ?thesis using 1(1) [OF Cons prod.collapse _ refl] remove_acc [OF 1(2)]
      by (subst (1 2) se_shrink.simps) (auto simp: Let_def case_prod_beta)
  qed
qed

lemma evict_bound:
  assumes "lru_acc vlen a" and "0 < e_max a"
  shows "e_used (snd (se_evict vlen now ks a)) \<le> e_max (snd (se_evict vlen now ks a))"
  using shrink_bound [OF expire_acc [OF assms(1)], of now ks] assms(2) by (simp add: se_evict_def Let_def)

lemma stale_remove:
  "map_of (e_entries a) j \<noteq> None \<Longrightarrow> stale_key now k (snd (se_remove vlen j a)) \<longleftrightarrow> stale_key now k a \<and> k \<noteq> j"
  by (auto simp: stale_key_def se_remove_def split: if_splits option.splits)

lemma remove_entries: "e_entries (snd (se_remove vlen k a)) = filter (\<lambda>e. fst e \<noteq> k) (e_entries a)"
proof (cases "map_of (e_entries a) k")
  case None
  then have "filter (\<lambda>e. fst e \<noteq> k) (e_entries a) = e_entries a"
    by (intro filter_True) (auto simp: map_of_eq_None_iff)
  with None show ?thesis by (simp add: se_remove_def)
next
  case (Some v)
  then show ?thesis by (auto simp: se_remove_def AList.delete_eq case_prod_beta intro: filter_cong)
qed

lemma expire_entries:
  "e_entries (snd (se_expire vlen now ks a)) =
     filter (\<lambda>e. \<not> (stale_key now (fst e) a \<and> fst e \<in> set ks)) (e_entries a)"
proof (induction ks arbitrary: a)
  case (Cons k ks)
  show ?case
  proof (cases "stale_key now k a \<and> map_of (e_entries a) k \<noteq> None")
    case True
    then show ?thesis
      by (auto simp: Let_def Cons.IH remove_entries stale_remove intro!: filter_cong)
  next
    case False
    then have "\<not> (stale_key now (fst e) a \<and> fst e = k)" if "e \<in> set (e_entries a)" for e
      using that by (auto simp: map_of_eq_None_iff)
    then show ?thesis using False by (auto simp: Cons.IH intro!: filter_cong)
  qed
qed simp

text \<open>Without overflow, shrinking drops the shortest prefix whose removal makes the rest fit.\<close>

lemma shrink_entries:
  assumes "lru_acc vlen a" and "\<And>v. 0 \<le> vlen v" and "total_size vlen (e_entries a) < 2 ^ 63" and "0 < e_max a"
  shows "\<exists>n. e_entries (snd (se_shrink vlen a)) = drop n (e_entries a) \<and>
    fst (se_shrink vlen a) = (if e_cb a then map (\<lambda>(k, v). (k, Some v)) (take n (e_entries a)) else []) \<and>
    total_size vlen (drop n (e_entries a)) \<le> e_max a \<and> (\<forall>i < n. e_max a < total_size vlen (drop i (e_entries a)))"
  using assms
proof (induction vlen a rule: se_shrink.induct)
  case (1 vlen a)
  have nonneg: "0 \<le> total_size vlen es" for es
    using 1(3) by (induction es) (simp_all add: entry_size_def)
  have used: "e_used a = total_size vlen (e_entries a)"
    using 1(2,4) nonneg [of "e_entries a"] by (simp add: lru_acc_def wrap64_id in_int64_def)
  show ?case
  proof (cases "e_entries a \<noteq> [] \<and> e_max a < e_used a")
    case False
    then have "se_shrink vlen a = ([], a)" by (subst se_shrink.simps) (auto split: list.split)
    moreover have "total_size vlen (e_entries a) \<le> e_max a" using False used 1(5) by auto
    ultimately show ?thesis by (intro exI [of _ 0]) simp
  next
    case True
    then obtain k v es where es: "e_entries a = (k, v) # es" by (metis list.exhaust prod.exhaust)
    let ?r = "se_remove vlen k a"
    have "k \<notin> fst ` set es" using 1(2) es by (simp add: lru_acc_def)
    then have r: "e_entries (snd ?r) = es" "fst ?r = (if e_cb a then [(k, Some v)] else [])"
      by (simp_all add: es se_remove_def delete_id)
    have step: "se_shrink vlen a = (fst ?r @ fst (se_shrink vlen (snd ?r)), snd (se_shrink vlen (snd ?r)))"
      using True es 1(5) by (subst se_shrink.simps) (simp add: Let_def)
    have "total_size vlen (e_entries (snd ?r)) < 2 ^ 63"
      using 1(4) 1(3) [of v] by (simp add: r es entry_size_def)
    with 1(1) [OF es refl _ refl remove_acc [OF 1(2)] 1(3)] True 1(5) obtain n where
      n: "e_entries (snd (se_shrink vlen (snd ?r))) = drop n es"
      "fst (se_shrink vlen (snd ?r)) = (if e_cb a then map (\<lambda>(k, v). (k, Some v)) (take n es) else [])"
      "total_size vlen (drop n es) \<le> e_max a" "\<forall>i < n. e_max a < total_size vlen (drop i es)"
      by (auto simp: r)
    have "e_max a < total_size vlen (drop i (e_entries a))" if "i < Suc n" for i
      using that n(4) True used by (cases i) (auto simp: es)
    with n r step show ?thesis by (intro exI [of _ "Suc n"]) (auto simp: es)
  qed
qed

lemma total_filter:
  assumes "\<And>v. 0 \<le> vlen v"
  shows "total_size vlen (filter P es) \<le> total_size vlen es"
proof (induction es)
  case (Cons e es)
  have "0 \<le> entry_size vlen e" using assms by (simp add: entry_size_def)
  with Cons show ?case by simp
qed simp

lemma stale_remove_mono: "stale_key t k (snd (se_remove vlen j a)) \<Longrightarrow> stale_key t k a"
  by (auto simp: stale_key_def se_remove_def split: if_splits option.splits)

lemma stale_expire_mono: "stale_key t k (snd (se_expire vlen now ks a)) \<Longrightarrow> stale_key t k a"
  by (induction ks arbitrary: a) (auto simp: Let_def dest: stale_remove_mono split: if_splits)

lemma stale_shrink_mono: "stale_key t k (snd (se_shrink vlen a)) \<Longrightarrow> stale_key t k a"
proof (induction vlen a rule: se_shrink.induct)
  case (1 vlen a)
  show ?case
  proof (cases "e_entries a")
    case Nil
    then show ?thesis using 1(2) by (simp add: se_shrink.simps)
  next
    case (Cons e es)
    then show ?thesis using 1(1) [OF Cons prod.collapse _ refl] stale_remove_mono [of t k vlen "fst e" a]
        1(2) [unfolded se_shrink.simps [of vlen a]]
      by (auto simp: Let_def case_prod_beta split: if_splits)
  qed
qed

lemma shrink_unbounded: "e_max a \<le> 0 \<Longrightarrow> se_shrink vlen a = ([], a)"
  by (subst se_shrink.simps) (auto split: list.split)

lemma shrink_keeps_last:
  assumes "lru_acc vlen a" and "\<And>v. 0 \<le> vlen v" and "total_size vlen (e_entries a) < 2 ^ 63"
    and "e_entries a = es @ [e]" and "0 < e_max a \<longrightarrow> entry_size vlen e \<le> e_max a"
  shows "\<exists>es'. e_entries (snd (se_shrink vlen a)) = es' @ [e]"
proof (cases "0 < e_max a")
  case True
  from shrink_entries [OF assms(1,2,3) True] obtain n where
    n: "e_entries (snd (se_shrink vlen a)) = drop n (e_entries a)"
    "\<forall>i < n. e_max a < total_size vlen (drop i (e_entries a))" by blast
  have "\<not> length es < n" using n(2) assms(4,5) True by auto
  with n(1) assms(4) show ?thesis by simp
qed (use assms(4) in \<open>simp add: shrink_unbounded\<close>)

lemma map_of_last: "k \<notin> fst ` set es \<Longrightarrow> map_of (es @ [(k, v)]) k = Some v"
  by (simp add: map_add_def map_of_eq_None_iff [THEN iffD2] split: option.split)

lemma Set_present:
  assumes "lru_acc vlen a" and "\<And>v. 0 \<le> vlen v"
    and "total_size vlen (e_entries a) + entry_size vlen (k, v) < 2 ^ 63"
    and "0 < e_max a \<longrightarrow> entry_size vlen (k, v) \<le> e_max a"
    and "0 < ttl \<longrightarrow> now2 \<le> now + ttl \<and> t \<le> now + ttl"
  shows "map_of (e_entries (snd (se_Set vlen now now2 ks k (Some v) ttl a))) k = Some v \<and>
    \<not> stale_key t k (snd (se_Set vlen now now2 ks k (Some v) ttl a))"
proof (cases "map_of (e_entries a) k")
  case (Some old)
  have "k \<notin> fst ` set (AList.delete k (e_entries a))" by (auto simp: AList.delete_eq)
  with Some assms(5) show ?thesis
    by (auto simp: se_Set_def Let_def se_touch_def map_of_last stale_key_def set_expires_def simp del: map_of_append)
next
  case None
  let ?i = "se_insert vlen k v (a\<lparr>e_expires := set_expires now k ttl (e_expires a)\<rparr>)"
  let ?b = "snd (se_expire vlen now2 ks ?i)"
  have fresh: "\<not> stale_key now2 k ?i" "\<not> stale_key t k ?i"
    using assms(5) by (auto simp: se_insert_def stale_key_def set_expires_def)
  have acc: "lru_acc vlen ?b" using insert_acc [OF assms(1) None] by (rule expire_acc)
  have b: "e_entries ?b = filter (\<lambda>e. \<not> (stale_key now2 (fst e) ?i \<and> fst e \<in> set ks)) (e_entries a) @ [(k, v)]"
    unfolding expire_entries using fresh(1) by (simp add: se_insert_def)
  have "total_size vlen (e_entries ?b) \<le> total_size vlen (e_entries ?i)"
    unfolding expire_entries using assms(2) by (rule total_filter)
  then have lt: "total_size vlen (e_entries ?b) < 2 ^ 63" using assms(3) by (simp add: se_insert_def)
  have "e_max ?b = e_max a" by (simp add: se_insert_def)
  with shrink_keeps_last [OF acc assms(2) lt b] assms(4) obtain es where
    es: "e_entries (snd (se_shrink vlen ?b)) = es @ [(k, v)]" by auto
  have "gomap_ok (es @ [(k, v)])" using shrink_acc [OF acc] es by (simp add: lru_acc_def)
  then have "map_of (es @ [(k, v)]) k = Some v" by (intro map_of_last) simp
  moreover have "se_Set vlen now now2 ks k (Some v) ttl a = se_evict vlen now2 ks ?i"
    using None by (simp add: se_Set_def Let_def)
  ultimately show ?thesis
    using es fresh(2)
    by (auto simp: se_evict_def Let_def simp del: map_of_append dest!: stale_shrink_mono stale_expire_mono)
qed

subsection \<open>The recency order\<close>

text \<open>The entries from the least to the most recently used, read along the links.\<close>

definition lru_order :: "'v lruCache \<Rightarrow> (string, 'v) gomap" where
  "lru_order c = map (entry_at (c_list c)) (list_elems (c_list c))"

definition fresh_entries :: "int \<Rightarrow> 'v lruCache \<Rightarrow> (string, 'v) gomap" where
  "fresh_entries now c =
     filter (\<lambda>e. case map_of (c_expires c) (fst e) of Some expTime \<Rightarrow> now \<le> expTime | None \<Rightarrow> True) (lru_order c)"

lemma repr_dom: "lru_repr c a \<Longrightarrow> dom (map_of (c_items c)) = dom (map_of (e_entries a))"
  by (rule set_eqI) (simp add: domIff repr_item(1) del: not_None_eq)

lemma repr_order: "lru_repr c a \<Longrightarrow> lru_order c = e_entries a"
  by (erule lru_reprE) (simp add: lru_order_def list_elems_repr [OF heap_okD(1)])

lemma repr_fresh: "lru_repr c a \<Longrightarrow> fresh_entries now c = filter (\<lambda>e. \<not> stale_key now (fst e) a) (e_entries a)"
  by (auto simp: fresh_entries_def repr_order repr_fields(1) stale_key_def intro!: filter_cong split: option.split)

subsection \<open>Properties\<close>

definition demo_opts :: Options where
  "demo_opts = NewOptions\<lparr>MaxBytes := 8, OnEvicted := True\<rparr>"

definition demo_lru :: "nat lruCache" where
  "demo_lru = snd (the (run_ops (lru_step int)
     [LSet 1 1 [] ''a'' (Some 3) 0, LSet 2 2 [] ''b'' (Some 2) 0, LSet 3 3 [] ''a'' (Some 6) 0] (newLRUCache demo_opts)))"

lemma lru_run_ok:
  "\<exists>outs c. run_ops (lru_step vlen) ops (newLRUCache opts) = Some (outs, c) \<and> lru_ok vlen c"
  using lru.run_sim [OF newLRU_repr] run_acc [OF init_acc] unfolding lru_ok_def by blast

lemma demo_run:
  "\<exists>outs. run_ops (lru_step int)
     [LSet 1 1 [] ''a'' (Some 3) 0, LSet 2 2 [] ''b'' (Some 2) 0, LSet 3 3 [] ''a'' (Some 6) 0] (newLRUCache demo_opts)
     = Some (outs, demo_lru)"
  and demo_lru_ok: "lru_ok int demo_lru"
  unfolding demo_lru_def
  using lru_run_ok [of int "[LSet 1 1 [] ''a'' (Some 3) 0, LSet 2 2 [] ''b'' (Some 2) 0, LSet 3 3 [] ''a'' (Some 6) 0]" demo_opts]
  by (auto simp del: run_ops.simps)

lemma some_pair: "\<not> Option.is_none x \<Longrightarrow> fst (the x) = r \<Longrightarrow> x = Some (r, snd (the x))"
  by (cases x) auto


text \<open>
  C21: the byte account is exact after every sequence of operations: \<open>usedBytes\<close> is the
  sum over the stored entries of key length plus \<open>Len()\<close>, modulo the 64-bit wrap-around;
  \<open>Len\<close> is the number of keys of the map, the list and the map hold the same elements,
  and an expiry time is kept for stored keys only.
\<close>

theorem lru_account_exact:
  "\<exists>outs c'. run_ops (lru_step vlen) ops (newLRUCache opts) = Some (outs, c') \<and>
    lru_UsedBytes c' = wrap64 (lru_bytes vlen c') \<and> lru_Len c' = int (length (c_items c')) \<and>
    gomap_ok (c_items c') \<and> fst ` set (c_expires c') \<subseteq> fst ` set (c_items c')"
proof -
  obtain outs c' a where run: "run_ops (lru_step vlen) ops (newLRUCache opts) = Some (outs, c')"
    and r: "lru_repr c' a" and acc: "lru_acc vlen a"
    using lru.run_sim [OF newLRU_repr] run_acc [OF init_acc] by blast
  obtain xs where "heap_ok (c_list c') xs (c_items c')" using r by (rule lru_reprE)
  then have "gomap_ok (c_items c')" by (rule heap_okD(2))
  moreover have "fst ` set (c_expires c') \<subseteq> fst ` set (c_items c')"
    using acc repr_fields(1) [OF r] repr_dom [OF r] unfolding gomap_dom lru_acc_def by simp
  moreover have "lru_UsedBytes c' = wrap64 (lru_bytes vlen c')" "lru_Len c' = int (length (c_items c'))"
    using acc repr_bytes [OF r] repr_fields(3,6) [OF r]
    by (simp_all add: lru_acc_def lru_UsedBytes_def lru_Len_def)
  ultimately show ?thesis using run by blast
qed

text \<open>
  C22: the memory bound. After the insertion of a new key, and after \<open>SetMaxBytes\<close> with a
  positive limit, the account does not exceed the limit, whatever the sizes are: the
  eviction loop ends, at the latest with the empty cache and account 0.
\<close>

theorem lru_insert_within_bound:
  assumes "lru_ok vlen c" and "map_of (c_items c) k = None" and "0 < c_maxBytes c"
  shows "\<exists>cbs c'. lru_SetWithExpiration vlen now now2 ks k (Some v) ttl c = Some (cbs, c') \<and> lru_ok vlen c' \<and>
    c_maxBytes c' = c_maxBytes c \<and> lru_UsedBytes c' \<le> c_maxBytes c"
proof -
  obtain a where a: "lru_repr c a" "lru_acc vlen a" using assms(1) by (rule lru_okE)
  let ?s = "se_Set vlen now now2 ks k (Some v) ttl a"
  obtain c' where c': "lru_SetWithExpiration vlen now now2 ks k (Some v) ttl c = Some (fst ?s, c')" "lru_repr c' (snd ?s)"
    using Set_lru_sim [OF a(1)] by blast
  have none: "map_of (e_entries a) k = None" using repr_item(1) [OF a(1)] assms(2) by simp
  let ?i = "se_insert vlen k v (a\<lparr>e_expires := set_expires now k ttl (e_expires a)\<rparr>)"
  have s: "?s = se_evict vlen now2 ks ?i" using none by (simp add: se_Set_def Let_def)
  have m: "e_max ?i = c_maxBytes c" using repr_fields(2) [OF a(1)] by (simp add: se_insert_def)
  have acc: "lru_acc vlen ?i" using a(2) none by (rule insert_acc)
  have "e_used (snd ?s) \<le> c_maxBytes c" "e_max (snd ?s) = c_maxBytes c"
    using shrink_bound [OF expire_acc [OF acc], of now2 ks] m assms(3) by (simp_all add: s se_evict_def Let_def)
  then show ?thesis using c' Set_acc [OF a(2)] repr_fields(2,3) [OF c'(2)]
    unfolding lru_ok_def lru_UsedBytes_def by metis
qed

theorem lru_insert_within_bound_witness:
  "\<exists>cbs c'. lru_SetWithExpiration int 5 5 [] ''ab'' (Some (7::nat)) 0
      (newLRUCache \<lparr>MaxBytes = 8, BucketCount = 0, CapPerBucket = 0, Level2Cap = 0, CleanupInterval = 0, OnEvicted = True\<rparr>)
      = Some (cbs, c') \<and> lru_UsedBytes c' \<le> 8"
  using lru_insert_within_bound [OF newLRU_ok, of "\<lparr>MaxBytes = 8, BucketCount = 0, CapPerBucket = 0, Level2Cap = 0,
      CleanupInterval = 0, OnEvicted = True\<rparr>" "''ab''" int 5 5 "[]" 7 0]
  by (auto simp: newLRUCache_def Let_def)



text \<open>
  A value that was set is returned by a following \<open>Get\<close> until it expires, provided
  it fits the limit at all: a new key is inserted at the young end and eviction works from
  the old end, so the cache may drop every other entry but not the new one.
\<close>

lemma lru_set_then_get:
  assumes "lru_ok vlen c" and "\<And>v. 0 \<le> vlen v" and "lru_bytes vlen c + entry_size vlen (k, v) < 2 ^ 63"
    and "0 < c_maxBytes c \<longrightarrow> entry_size vlen (k, v) \<le> c_maxBytes c"
    and "0 < ttl \<longrightarrow> now2 \<le> now + ttl \<and> t \<le> now + ttl"
  shows "\<exists>cbs c1 c2. lru_SetWithExpiration vlen now now2 ks k (Some v) ttl c = Some (cbs, c1) \<and> lru_ok vlen c1 \<and>
    lru_Get t k c1 = Some (Some v, False, c2)"
proof -
  obtain a where a: "lru_repr c a" "lru_acc vlen a" using assms(1) by (rule lru_okE)
  let ?s = "se_Set vlen now now2 ks k (Some v) ttl a"
  obtain c1 where c1: "lru_SetWithExpiration vlen now now2 ks k (Some v) ttl c = Some (fst ?s, c1)" "lru_repr c1 (snd ?s)"
    using Set_lru_sim [OF a(1)] by blast
  have "map_of (e_entries (snd ?s)) k = Some v" "\<not> stale_key t k (snd ?s)"
    using Set_present [OF a(2) assms(2), of k v ttl now2 now t ks] assms(3,4,5) repr_bytes(1) [OF a(1), of vlen]
      repr_fields(2) [OF a(1)] by simp_all
  then have "fst (se_Get t k (snd ?s)) = (Some v, False)" by (simp add: se_Get_def)
  then show ?thesis using c1 Get_lru_sim [OF c1(2), of t k] Set_acc [OF a(2)] unfolding lru_ok_def by fastforce
qed

lemma lru_set_then_get_witness:
  "\<exists>cbs c1 c2. lru_SetWithExpiration int 20 21 [] ''z'' (Some 7) 10 demo_lru = Some (cbs, c1) \<and>
    lru_Get 30 ''z'' c1 = Some (Some 7, False, c2)"
proof -
  have 2: "lru_bytes int demo_lru = 10" by code_simp
  have 3: "c_maxBytes demo_lru = 8" by code_simp
  from lru_set_then_get [OF demo_lru_ok, of "''z''" 7 10 21 20 30 "[]"] show ?thesis
    by (auto simp: 2 3 entry_size_def)
qed

text \<open>
  An update of an existing key does not call \<open>evict\<close>: writing a larger value under a
  present key leaves the account above the limit. Here the limit is 8 bytes and the account
  is 10 after three writes.
\<close>

lemma lru_update_exceeds_bound:
  "\<exists>outs c. run_ops (lru_step int)
      [LSet 1 1 [] ''a'' (Some 3) 0, LSet 2 2 [] ''b'' (Some 2) 0, LSet 3 3 [] ''a'' (Some 6) 0] (newLRUCache demo_opts)
      = Some (outs, c) \<and> c_maxBytes c = 8 \<and> lru_UsedBytes c = 10 \<and> lru_bytes int c = 10"
proof -
  have "lru_UsedBytes demo_lru = 10" "c_maxBytes demo_lru = 8" "lru_bytes int demo_lru = 10" by code_simp+
  with demo_run show ?thesis by blast
qed

text \<open>
  \<open>Get\<close> holds a list element across the change from the read lock to the write lock. When
  \<open>Clear\<close> and a \<open>Set\<close> of the same key run in between, the key is present again, but the
  element belongs to the cleared list: \<open>Init\<close> does not detach it, \<open>MoveToBack\<close> links it
  back and breaks the ring. \<open>Front\<close> then yields the root, and the next eviction panics on
  its missing entry.
\<close>

theorem lru_stale_element_panics:
  "\<exists>c1 c2 c3 c4 cbs cbs'.
    lru_SetWithExpiration int 1 1 [] ''a'' (Some 3) 0 (newLRUCache demo_opts) = Some ([], c1) \<and>
    lru_Get_read 2 ''a'' c1 = Some (GFound 1 3) \<and>
    lru_Clear [''a''] c1 = Some (cbs, c2) \<and>
    lru_SetWithExpiration int 3 3 [] ''a'' (Some 4) 0 c2 = Some (cbs', c3) \<and>
    lru_Get_touch ''a'' 1 c3 = c4 \<and> lru_Len c4 = 1 \<and> list_Front (c_list c4) = Some 0 \<and>
    lru_SetWithExpiration int 4 4 [] ''b'' (Some 9) 0 c4 = None"
proof -
  define c1 where "c1 = snd (the (lru_SetWithExpiration int 1 1 [] ''a'' (Some 3) 0 (newLRUCache demo_opts)))"
  define c2 where "c2 = snd (the (lru_Clear [''a''] c1))"
  define c3 where "c3 = snd (the (lru_SetWithExpiration int 3 3 [] ''a'' (Some 4) 0 c2))"
  define c4 where "c4 = lru_Get_touch ''a'' 1 c3"
  have 1: "lru_SetWithExpiration int 1 1 [] ''a'' (Some 3) 0 (newLRUCache demo_opts) = Some ([], c1)"
    unfolding c1_def by (rule some_pair) code_simp+
  have 2: "lru_Clear [''a''] c1 = Some ([(''a'', Some 3)], c2)"
    unfolding c2_def c1_def by (rule some_pair) code_simp+
  have 3: "lru_SetWithExpiration int 3 3 [] ''a'' (Some 4) 0 c2 = Some ([], c3)"
    unfolding c3_def c2_def c1_def by (rule some_pair) code_simp+
  have r: "lru_Get_read 2 ''a'' c1 = Some (GFound 1 3)" unfolding c1_def by code_simp
  have l: "lru_Len c4 = 1" "list_Front (c_list c4) = Some 0" unfolding c4_def c3_def c2_def c1_def by code_simp+
  have "Option.is_none (lru_SetWithExpiration int 4 4 [] ''b'' (Some 9) 0 c4)"
    unfolding c4_def c3_def c2_def c1_def by code_simp
  then have "lru_SetWithExpiration int 4 4 [] ''b'' (Some 9) 0 c4 = None" by (simp add: Option.is_none_def)
  with 1 2 3 r l c4_def show ?thesis by blast
qed

text \<open>
  An expired entry is never returned: \<open>Get\<close> misses, changes nothing and starts a
  \<open>Delete\<close> of the key, which removes exactly this entry from list, maps and account;
  afterwards \<open>Get\<close> misses at every time.
\<close>

lemma lru_expired_entry_removed:
  assumes "lru_ok vlen c" and "map_of (c_expires c) k = Some e" and "e < t"
  shows "lru_Get t k c = Some (None, True, c) \<and>
    (\<exists>cbs c'. lru_Delete vlen k c = Some (True, cbs, c') \<and> lru_ok vlen c' \<and> lru_Len c' = lru_Len c - 1 \<and>
      lru_order c' = filter (\<lambda>e. fst e \<noteq> k) (lru_order c) \<and> (\<forall>t'. lru_Get t' k c' = Some (None, False, c')))"
proof -
  obtain a where a: "lru_repr c a" "lru_acc vlen a" using assms(1) by (rule lru_okE)
  have e: "map_of (e_expires a) k = Some e" using assms(2) repr_fields(1) [OF a(1)] by simp
  then have "k \<in> dom (map_of (e_entries a))" using a(2) unfolding lru_acc_def by blast
  then obtain v where v: "map_of (e_entries a) k = Some v" by blast
  then obtain el where el: "map_of (c_items c) k = Some el" using repr_item(1) [OF a(1), of k] by auto
  have get: "lru_Get t k c = Some (None, True, c)"
    using el assms(2,3) by (simp add: lru_Get_def lru_Get_read_def)
  let ?a = "snd (se_remove vlen k a)"
  obtain c' where c': "lru_Delete vlen k c = Some (True, fst (se_remove vlen k a), c')" "lru_repr c' ?a"
    using Delete_lru_sim [OF a(1), of vlen k] v by auto
  have gone: "map_of (c_items c') k = None"
    unfolding repr_item(1) [OF c'(2)] using v by (simp add: se_remove_def)
  have "lru_Get t' k c' = Some (None, False, c')" for t' using gone by (simp add: lru_Get_def lru_Get_read_def)
  moreover have "lru_Len c' = lru_Len c - 1"
    using length_delete [of "e_entries a" k v] a(2) v repr_fields(6) [OF a(1)] repr_fields(6) [OF c'(2)]
    by (simp add: lru_Len_def lru_acc_def se_remove_def)
  moreover have "lru_ok vlen c'" using c'(2) remove_acc [OF a(2)] unfolding lru_ok_def by blast
  moreover have "lru_order c' = filter (\<lambda>e. fst e \<noteq> k) (lru_order c)"
    by (simp add: repr_order [OF a(1)] repr_order [OF c'(2)] remove_entries)
  ultimately show ?thesis using get c'(1) by blast
qed

definition demo_ttl :: "nat lruCache" where
  "demo_ttl = snd (the (run_ops (lru_step int)
     [LSet 1 1 [] ''a'' (Some 3) 5, LSet 2 2 [] ''b'' (Some 2) 0] (newLRUCache demo_opts)))"

lemma demo_ttl_ok: "lru_ok int demo_ttl"
  unfolding demo_ttl_def
  using lru_run_ok [of int "[LSet 1 1 [] ''a'' (Some 3) 5, LSet 2 2 [] ''b'' (Some 2) 0]" demo_opts]
  by (auto simp del: run_ops.simps)

lemma lru_expired_entry_removed_witness:
  "lru_Get 7 ''a'' demo_ttl = Some (None, True, demo_ttl) \<and>
    (\<exists>cbs c'. lru_Delete int ''a'' demo_ttl = Some (True, cbs, c') \<and> lru_order c' = [(''b'', 2)])"
proof -
  have 1: "map_of (c_expires demo_ttl) ''a'' = Some 6" by code_simp
  have 2: "filter (\<lambda>e. fst e \<noteq> ''a'') (lru_order demo_ttl) = [(''b'', 2)]" by code_simp
  from lru_expired_entry_removed [OF demo_ttl_ok 1, of 7] show ?thesis unfolding 2 by auto
qed

text \<open>
  The \<open>Delete\<close> that a \<open>Get\<close> of an expired entry starts runs later and does not check
  the entry again: a value written in between, here without expiry, is deleted.
\<close>

lemma lru_async_delete_drops_fresh:
  "\<exists>c1 c2 cbs. lru_Get_read 7 ''a'' demo_ttl = Some GExpired \<and>
    lru_SetWithExpiration int 8 8 [] ''a'' (Some 4) 0 demo_ttl = Some ([], c1) \<and>
    lru_Get_read 9 ''a'' c1 = Some (GFound 1 4) \<and>
    lru_Delete int ''a'' c1 = Some (True, cbs, c2) \<and> lru_Get_read 9 ''a'' c2 = Some GMiss"
proof -
  define c1 where "c1 = snd (the (lru_SetWithExpiration int 8 8 [] ''a'' (Some 4) 0 demo_ttl))"
  define c2 where "c2 = snd (snd (the (lru_Delete int ''a'' c1)))"
  have 1: "lru_SetWithExpiration int 8 8 [] ''a'' (Some 4) 0 demo_ttl = Some ([], c1)"
    unfolding c1_def by (rule some_pair) code_simp+
  have "lru_Delete int ''a'' c1 = Some (True, snd (the (lru_Delete int ''a'' c1)))"
    unfolding c1_def by (rule some_pair) code_simp+
  then have 2: "\<exists>cbs. lru_Delete int ''a'' c1 = Some (True, cbs, c2)" unfolding c2_def by (metis prod.collapse)
  have "lru_Get_read 7 ''a'' demo_ttl = Some GExpired" by code_simp
  moreover have "lru_Get_read 9 ''a'' c1 = Some (GFound 1 4)" unfolding c1_def by code_simp
  moreover have "lru_Get_read 9 ''a'' c2 = Some GMiss" unfolding c2_def c1_def by code_simp
  ultimately show ?thesis using 1 2 by blast
qed

end
