(* ===== verification/Store.thy ===== *)
theory Store
  imports Lru2_Expiry Lru_Theorems
begin

text \<open>
  The \<open>Store\<close> interface of \<^verbatim>\<open>store/store.go\<close> and \<open>NewStore\<close>, which selects one of
  the two implementations. A value of interface type is the sum of the implementations; a
  method call dispatches on it. What a call does besides its result is a list of events:
  \<open>onEvicted\<close> calls and the \<open>Delete\<close> that a \<open>Get\<close> of the LRU cache may start.

  The locale \<open>store_contract\<close> is what the layers above rely on; it is interpreted for the
  dispatching methods, and its proof rests on the laws of both implementations.
\<close>

datatype 'v Store = StoreLRU "'v lruCache" | StoreLRU2 "'v lru2Store"

datatype 'v event = Evicted string "'v option" | SpawnDelete string

definition events :: "'v calls \<Rightarrow> 'v event list" where
  "events cbs = map (\<lambda>(k, v). Evicted k v) cbs"

definition NewStore :: "CacheType \<Rightarrow> Options \<Rightarrow> 'v Store" where
  "NewStore cacheType opts =
     (if cacheType = LRU2_type then StoreLRU2 (newLRU2Cache opts)
      else if cacheType = LRU_type then StoreLRU (newLRUCache opts)
      else StoreLRU (newLRUCache opts))"

text \<open>\<open>t1\<close> and \<open>t2\<close> are the clock readings; the LRU cache reads the clock once.\<close>

fun store_Get ::
  "int \<Rightarrow> int \<Rightarrow> string \<Rightarrow> 'v Store \<Rightarrow> ('v option option \<times> 'v event list \<times> 'v Store) option" where
  "store_Get t1 t2 key (StoreLRU c) = do {
     (r, del, c) \<leftarrow> lru_Get t1 key c;
     Some (map_option Some r, if del then [SpawnDelete key] else [], StoreLRU c)
   }"
| "store_Get t1 t2 key (StoreLRU2 s) = do {
     (r, cbs, s) \<leftarrow> lru2_Get t1 t2 key s;
     Some (r, events cbs, StoreLRU2 s)
   }"

text \<open>\<open>ks\<close> is the sequence of keys that the LRU cache's eviction ranges over.\<close>

fun store_SetWithExpiration ::
  "('v \<Rightarrow> int) \<Rightarrow> int \<Rightarrow> int \<Rightarrow> string list \<Rightarrow> string \<Rightarrow> 'v option \<Rightarrow> int \<Rightarrow> 'v Store
    \<Rightarrow> ('v event list \<times> 'v Store) option" where
  "store_SetWithExpiration vlen now now2 ks key val ttl (StoreLRU c) = do {
     (cbs, c) \<leftarrow> lru_SetWithExpiration vlen now now2 ks key val ttl c;
     Some (events cbs, StoreLRU c)
   }"
| "store_SetWithExpiration vlen now now2 ks key val ttl (StoreLRU2 s) = do {
     (cbs, s) \<leftarrow> lru2_SetWithExpiration now key val ttl s;
     Some (events cbs, StoreLRU2 s)
   }"

fun store_Set ::
  "('v \<Rightarrow> int) \<Rightarrow> int \<Rightarrow> int \<Rightarrow> string list \<Rightarrow> string \<Rightarrow> 'v option \<Rightarrow> 'v Store
    \<Rightarrow> ('v event list \<times> 'v Store) option" where
  "store_Set vlen now now2 ks key val (StoreLRU c) = do {
     (cbs, c) \<leftarrow> lru_Set vlen now now2 ks key val c;
     Some (events cbs, StoreLRU c)
   }"
| "store_Set vlen now now2 ks key val (StoreLRU2 s) = do {
     (cbs, s) \<leftarrow> lru2_Set now key val s;
     Some (events cbs, StoreLRU2 s)
   }"

fun store_Delete ::
  "('v \<Rightarrow> int) \<Rightarrow> string \<Rightarrow> 'v Store \<Rightarrow> (bool \<times> 'v event list \<times> 'v Store) option" where
  "store_Delete vlen key (StoreLRU c) = do {
     (r, cbs, c) \<leftarrow> lru_Delete vlen key c;
     Some (r, events cbs, StoreLRU c)
   }"
| "store_Delete vlen key (StoreLRU2 s) = do {
     (r, cbs, s) \<leftarrow> lru2_Delete key s;
     Some (r, events cbs, StoreLRU2 s)
   }"

text \<open>\<open>ord\<close> arranges the keys in the order in which \<open>range\<close> yields them.\<close>

fun store_Clear ::
  "(string list \<Rightarrow> string list) \<Rightarrow> 'v Store \<Rightarrow> ('v event list \<times> 'v Store) option" where
  "store_Clear ord (StoreLRU c) = do {
     (cbs, c) \<leftarrow> lru_Clear (ord (map fst (c_items c))) c;
     Some (events cbs, StoreLRU c)
   }"
| "store_Clear ord (StoreLRU2 s) = do {
     (cbs, s) \<leftarrow> lru2_Clear ord s;
     Some (events cbs, StoreLRU2 s)
   }"

fun store_Len :: "'v Store \<Rightarrow> int option" where
  "store_Len (StoreLRU c) = Some (lru_Len c)"
| "store_Len (StoreLRU2 s) = map_option int (lru2_Len s)"

fun store_Close :: "'v Store \<Rightarrow> 'v Store option" where
  "store_Close (StoreLRU c) = map_option StoreLRU (lru_Close c)"
| "store_Close (StoreLRU2 s) = Some (StoreLRU2 (lru2_Close s))"

subsection \<open>The contract\<close>

text \<open>The times at which an entry written at \<open>now\<close> with \<open>ttl\<close> is still valid (\<open>ttl \<le> 0\<close>: always).\<close>

definition in_time :: "int \<Rightarrow> int \<Rightarrow> int \<Rightarrow> bool" where
  "in_time now ttl t \<longleftrightarrow> (0 < ttl \<longrightarrow> 0 < now + ttl \<and> now + ttl < 2 ^ 63 \<and> t < now + ttl)"

locale store_contract =
  fixes ok :: "'s \<Rightarrow> bool"
    and fits :: "'s \<Rightarrow> string \<Rightarrow> 'v \<Rightarrow> bool"
    and get :: "int \<Rightarrow> int \<Rightarrow> string \<Rightarrow> 's \<Rightarrow> ('v option option \<times> 'v event list \<times> 's) option"
    and set :: "int \<Rightarrow> int \<Rightarrow> string list \<Rightarrow> string \<Rightarrow> 'v option \<Rightarrow> int \<Rightarrow> 's \<Rightarrow> ('v event list \<times> 's) option"
    and del :: "string \<Rightarrow> 's \<Rightarrow> (bool \<times> 'v event list \<times> 's) option"
    and clear :: "(string list \<Rightarrow> string list) \<Rightarrow> 's \<Rightarrow> ('v event list \<times> 's) option"
    and len :: "'s \<Rightarrow> int option"
    and close :: "'s \<Rightarrow> 's option"
  assumes get_total: "ok s \<Longrightarrow> \<exists>r ev s'. get t1 t2 k s = Some (r, ev, s') \<and> ok s'"
    and set_total: "ok s \<Longrightarrow> \<exists>ev s'. set now now2 ks k val ttl s = Some (ev, s') \<and> ok s'"
    and del_total: "ok s \<Longrightarrow> \<exists>r ev s'. del k s = Some (r, ev, s') \<and> ok s'"
    and set_get: "ok s \<Longrightarrow> fits s k v \<Longrightarrow> in_time now ttl now2 \<Longrightarrow> in_time now ttl t1 \<Longrightarrow> in_time now ttl t2 \<Longrightarrow>
      set now now2 ks k (Some v) ttl s = Some (ev, s') \<Longrightarrow>
      \<exists>ev' s''. get t1 t2 k s' = Some (Some (Some v), ev', s'')"
    and del_get: "ok s \<Longrightarrow> del k s = Some (r, ev, s') \<Longrightarrow> \<exists>ev' s''. get t1 t2 k s' = Some (None, ev', s'')"
    and clear_total: "ok s \<Longrightarrow> \<exists>ev s'. clear ord s = Some (ev, s') \<and> ok s'"
    and clear_empty: "ok s \<Longrightarrow> (\<And>xs. List.set (ord xs) = List.set xs) \<Longrightarrow> clear ord s = Some (ev, s') \<Longrightarrow>
      len s' = Some 0 \<and> (\<exists>ev' s''. get t1 t2 k s' = Some (None, ev', s''))"
    and len_total: "ok s \<Longrightarrow> \<exists>n. len s = Some n"
    and close_total: "ok s \<Longrightarrow> \<exists>s'. close s = Some s'"
begin

lemma set_totalE:
  assumes "ok s"
  obtains ev s' where "set now now2 ks k v ttl s = Some (ev, s')" "ok s'"
  using set_total [OF assms] by blast

lemma get_totalE:
  assumes "ok s"
  obtains r ev s' where "get t1 t2 k s = Some (r, ev, s')" "ok s'"
  using get_total [OF assms] by blast

lemma del_totalE:
  assumes "ok s"
  obtains r ev s' where "del k s = Some (r, ev, s')" "ok s'"
  using del_total [OF assms] by blast

text \<open>Write, read and delete in sequence, without a panic.\<close>

lemma set_get_del_get:
  assumes "ok s" and "fits s k v" and "in_time now ttl now2" and "in_time now ttl t1" and "in_time now ttl t2"
  shows "\<exists>ev1 s1 ev2 s2 r ev3 s3 ev4 s4. set now now2 ks k (Some v) ttl s = Some (ev1, s1) \<and>
    get t1 t2 k s1 = Some (Some (Some v), ev2, s2) \<and> del k s2 = Some (r, ev3, s3) \<and>
    get t3 t4 k s3 = Some (None, ev4, s4) \<and> ok s4"
proof -
  obtain ev1 s1 where s1: "set now now2 ks k (Some v) ttl s = Some (ev1, s1)" "ok s1"
    using assms(1) by (rule set_totalE)
  obtain ev2 s2 where s2: "get t1 t2 k s1 = Some (Some (Some v), ev2, s2)" using set_get [OF assms s1(1)] by blast
  then have "ok s2" using get_total [OF s1(2), of t1 t2 k] by simp
  then obtain r ev3 s3 where s3: "del k s2 = Some (r, ev3, s3)" "ok s3" by (rule del_totalE)
  obtain ev4 s4 where "get t3 t4 k s3 = Some (None, ev4, s4)" using del_get [OF \<open>ok s2\<close> s3(1)] by blast
  moreover from this have "ok s4" using get_total [OF s3(2), of t3 t4 k] by simp
  ultimately show ?thesis using s1 s2 s3 by blast
qed

end

subsection \<open>Both implementations satisfy the contract\<close>

fun store_ok :: "('v \<Rightarrow> int) \<Rightarrow> 'v Store \<Rightarrow> bool" where
  "store_ok vlen (StoreLRU c) \<longleftrightarrow> lru_ok vlen c \<and> \<not> c_closed c \<and> (\<forall>v. 0 \<le> vlen v)"
| "store_ok vlen (StoreLRU2 s) \<longleftrightarrow> lru2_ok s"

fun store_fits :: "('v \<Rightarrow> int) \<Rightarrow> 'v Store \<Rightarrow> string \<Rightarrow> 'v \<Rightarrow> bool" where
  "store_fits vlen (StoreLRU c) k v \<longleftrightarrow> lru_bytes vlen c + entry_size vlen (k, v) < 2 ^ 63 \<and>
     (0 < c_maxBytes c \<longrightarrow> entry_size vlen (k, v) \<le> c_maxBytes c)"
| "store_fits vlen (StoreLRU2 s) k v \<longleftrightarrow> True"

lemma remove_closed: "e_closed (snd (se_remove vlen k a)) = e_closed a"
  by (simp add: se_remove_def split: option.split)

lemma expire_closed: "e_closed (snd (se_expire vlen now ks a)) = e_closed a"
  by (induction ks arbitrary: a) (simp_all add: Let_def remove_closed)

lemma shrink_closed: "e_closed (snd (se_shrink vlen a)) = e_closed a"
proof (induction vlen a rule: se_shrink.induct)
  case (1 vlen a)
  show ?case
  proof (cases "e_entries a")
    case (Cons e es)
    then show ?thesis using 1 [OF Cons prod.collapse _ refl]
      by (subst se_shrink.simps) (simp add: Let_def case_prod_beta remove_closed)
  qed (simp add: se_shrink.simps)
qed

lemma Set_closed: "e_closed (snd (se_Set vlen now now2 ks k v ttl a)) = e_closed a"
  by (simp add: se_Set_def se_evict_def Let_def shrink_closed expire_closed remove_closed se_insert_def se_touch_def
      split: option.split)

lemma lru_Get_ok:
  assumes "lru_ok vlen c"
  shows "\<exists>r d c'. lru_Get t k c = Some (r, d, c') \<and> lru_ok vlen c' \<and> c_closed c' = c_closed c"
proof -
  obtain a where a: "lru_repr c a" "lru_acc vlen a" using assms by (rule Lru_Theorems.lru_okE)
  obtain c' where c': "lru_Get t k c = Some (fst (fst (se_Get t k a)), snd (fst (se_Get t k a)), c')"
    "lru_repr c' (snd (se_Get t k a))" using Get_lru_sim [OF a(1)] by blast
  have "lru_acc vlen (snd (se_Get t k a))" using spec_acc [OF a(2), of "LGet t k"] by (simp add: Let_def)
  moreover have "e_closed (snd (se_Get t k a)) = e_closed a" by (simp add: se_Get_def se_touch_def split: option.split)
  ultimately show ?thesis using c' repr_fields(5) [OF a(1)] repr_fields(5) [OF c'(2)] unfolding lru_ok_def by auto
qed

lemma lru_Set_ok:
  assumes "lru_ok vlen c"
  shows "\<exists>cbs c'. lru_SetWithExpiration vlen now now2 ks k v ttl c = Some (cbs, c') \<and> lru_ok vlen c' \<and>
    c_closed c' = c_closed c"
proof -
  obtain a where a: "lru_repr c a" "lru_acc vlen a" using assms by (rule Lru_Theorems.lru_okE)
  let ?s = "se_Set vlen now now2 ks k v ttl a"
  obtain c' where c': "lru_SetWithExpiration vlen now now2 ks k v ttl c = Some (fst ?s, c')" "lru_repr c' (snd ?s)"
    using Set_lru_sim [OF a(1)] by blast
  have "c_closed c' = c_closed c" using repr_fields(5) [OF a(1)] repr_fields(5) [OF c'(2)] Set_closed by metis
  then show ?thesis using c' Set_acc [OF a(2)] unfolding lru_ok_def by blast
qed

lemma lru_Delete_ok:
  assumes "lru_ok vlen c"
  shows "\<exists>r cbs c'. lru_Delete vlen k c = Some (r, cbs, c') \<and> lru_ok vlen c' \<and> c_closed c' = c_closed c \<and>
    (\<forall>t. lru_Get t k c' = Some (None, False, c'))"
proof -
  obtain a where a: "lru_repr c a" "lru_acc vlen a" using assms by (rule Lru_Theorems.lru_okE)
  obtain c' where c': "lru_Delete vlen k c = Some (map_of (e_entries a) k \<noteq> None, fst (se_remove vlen k a), c')"
    "lru_repr c' (snd (se_remove vlen k a))" using Delete_lru_sim [OF a(1)] by blast
  have "map_of (e_entries (snd (se_remove vlen k a))) k = None" by (simp add: se_remove_def split: option.split)
  then have "map_of (c_items c') k = None" using repr_item(1) [OF c'(2)] by simp
  then have "\<forall>t. lru_Get t k c' = Some (None, False, c')" by (simp add: lru_Get_def lru_Get_read_def)
  moreover have "c_closed c' = c_closed c" using repr_fields(5) [OF a(1)] repr_fields(5) [OF c'(2)] remove_closed by metis
  ultimately show ?thesis using c' remove_acc [OF a(2), of k] unfolding lru_ok_def by blast
qed

lemma lru_Clear_ok:
  assumes "lru_ok vlen c"
  shows "\<exists>cbs c'. lru_Clear ks c = Some (cbs, c') \<and> lru_ok vlen c' \<and> c_closed c' = c_closed c \<and> lru_Len c' = 0 \<and>
    (\<forall>t k. lru_Get t k c' = Some (None, False, c'))"
proof -
  obtain a where a: "lru_repr c a" "lru_acc vlen a" using assms by (rule Lru_Theorems.lru_okE)
  let ?a = "a\<lparr>e_entries := [], e_expires := [], e_used := 0\<rparr>"
  obtain cbs c' where c': "lru_Clear ks c = Some (cbs, c')" "lru_repr c' ?a" using Clear_lru_sim [OF a(1)] by blast
  have "lru_acc vlen ?a" by (simp add: lru_acc_def wrap64_def)
  moreover have "map_of (c_items c') k = None" for k using repr_item(1) [OF c'(2)] by simp
  then have "\<forall>t k. lru_Get t k c' = Some (None, False, c')" by (simp add: lru_Get_def lru_Get_read_def)
  ultimately show ?thesis using c' repr_fields(5,6) [OF c'(2)] repr_fields(5) [OF a(1)]
    unfolding lru_ok_def by (auto simp: lru_Len_def)
qed

lemma lru_Set_Get:
  assumes "lru_ok vlen c" and "\<forall>v. 0 \<le> vlen v" and "store_fits vlen (StoreLRU c) k v"
    and "in_time now ttl now2" and "in_time now ttl t"
    and "lru_SetWithExpiration vlen now now2 ks k (Some v) ttl c = Some (cbs, c1)"
  shows "\<exists>c2. lru_Get t k c1 = Some (Some v, False, c2)"
proof -
  obtain a where a: "lru_repr c a" "lru_acc vlen a" using assms(1) by (rule Lru_Theorems.lru_okE)
  let ?s = "se_Set vlen now now2 ks k (Some v) ttl a"
  have c1: "lru_repr c1 (snd ?s)" using Set_lru_sim [OF a(1), of vlen now now2 ks k "Some v" ttl] assms(6) by simp
  have "0 < ttl \<longrightarrow> now2 \<le> now + ttl \<and> t \<le> now + ttl" using assms(4,5) by (auto simp: in_time_def)
  with Set_present [OF a(2), of k v ttl now2 now t ks] assms(2,3) repr_bytes(1) [OF a(1), of vlen] repr_fields(2) [OF a(1)]
  have "map_of (e_entries (snd ?s)) k = Some v" "\<not> stale_key t k (snd ?s)" by simp_all
  with Get_lru_sim [OF c1, of t k] show ?thesis by (auto simp: se_Get_def)
qed

lemma lru2_ops_ok:
  assumes "lru2_ok s"
  shows "\<exists>r cbs s'. lru2_Get t1 t2 k s = Some (r, cbs, s') \<and> lru2_ok s'"
    and "\<exists>cbs s'. lru2_SetWithExpiration now k v ttl s = Some (cbs, s') \<and> lru2_ok s'"
    and "\<exists>r cbs s'. lru2_Delete k s = Some (r, cbs, s') \<and> lru2_ok s' \<and>
      (\<forall>t1 t2. \<exists>s''. lru2_Get t1 t2 k s' = Some (None, [], s''))"
proof -
  obtain a where a: "store_repr s a" "spec_ok a" using assms by (rule Lru2_Theorems.lru2_okE)
  show "\<exists>r cbs s'. lru2_Get t1 t2 k s = Some (r, cbs, s') \<and> lru2_ok s'"
    using Get_sim [OF a(1), of t1 t2 k] lru2_okI [OF _ a(2)] by blast
  show "\<exists>cbs s'. lru2_SetWithExpiration now k v ttl s = Some (cbs, s') \<and> lru2_ok s'"
    using Set_sim [OF a(1), of now k v ttl] lru2_okI [OF _ a(2)] by blast
  let ?d = "ss_Delete k a"
  obtain s1 where s1: "lru2_Delete k s = Some (fst ?d, fst (snd ?d), s1)" "store_repr s1 (snd (snd ?d))"
    using Delete_sim [OF a(1)] by blast
  have gone: "find_live k (fst (on_levels (snd (snd ?d)) k)) = None"
    "find_live k (snd (on_levels (snd (snd ?d)) k)) = None"
    using a(2) by (simp_all add: ss_Delete_def Let_def sp_delete_live)
  have "\<exists>s2. lru2_Get t1 t2 k s1 = Some (None, [], s2)" for t1 t2
    using Get_sim [OF s1(2), of t1 t2 k] Get_miss [OF gone] by (auto simp: lookup2_def gone)
  with s1 ss_Delete_ok [OF a(2)]
  show "\<exists>r cbs s'. lru2_Delete k s = Some (r, cbs, s') \<and> lru2_ok s' \<and>
      (\<forall>t1 t2. \<exists>s''. lru2_Get t1 t2 k s' = Some (None, [], s''))"
    unfolding lru2_ok_def by blast
qed

lemma lru2_Clear_ok:
  assumes "lru2_ok s"
  shows "\<exists>cbs s'. lru2_Clear ord s = Some (cbs, s') \<and> lru2_ok s' \<and>
    ((\<forall>ks. set (ord ks) = set ks) \<longrightarrow> lru2_Len s' = Some 0 \<and> (\<forall>k t1 t2. \<exists>cbs' s''. lru2_Get t1 t2 k s' = Some (None, cbs', s'')))"
proof -
  obtain a where a: "store_repr s a" "spec_ok a" using assms by (rule Lru2_Theorems.lru2_okE)
  obtain cbs s' where "lru2_Clear ord s = Some (cbs, s')" "store_repr s' (snd (ss_delete_loop (ord (ss_keys a)) a))"
    using Clear_sim [OF a(1)] by blast
  with cleared [where ord = ord, OF a(2) this(2)] ss_delete_loop_ok [OF a(2)] show ?thesis unfolding lru2_ok_def by blast
qed

lemma lru2_Len_ok: "lru2_ok s \<Longrightarrow> \<exists>n. lru2_Len s = Some n"
  using Len_sim by (auto elim!: Lru2_Theorems.lru2_okE)

lemma in_time_expire_at:
  assumes "in_time now ttl t"
  shows "0 < expire_at now ttl" and "\<not> expired t (expire_at now ttl)"
proof -
  have "wrap64 (now + ttl) = now + ttl" if "0 < ttl"
    using assms that by (intro wrap64_id) (auto simp: in_time_def in_int64_def)
  then show "0 < expire_at now ttl" and "\<not> expired t (expire_at now ttl)"
    using assms by (auto simp: in_time_def expire_at_def expired_def noExpiration_def MaxInt64_def)
qed

lemma lru2_Set_Get:
  assumes "lru2_ok s" and "in_time now ttl t1" and "in_time now ttl t2"
    and "lru2_SetWithExpiration now k (Some v) ttl s = Some (cbs, s1)"
  shows "\<exists>cbs s2. lru2_Get t1 t2 k s1 = Some (Some (Some v), cbs, s2)"
proof -
  obtain a where a: "store_repr s a" "spec_ok a" using assms(1) by (rule Lru2_Theorems.lru2_okE)
  let ?a = "snd (lru2_spec (SSet now k (Some v) ttl) a)"
  have s1: "store_repr s1 ?a" using Set_sim [OF a(1), of now k "Some v" ttl] assms(4) by simp
  have "holds k (Some v) (expire_at now ttl) (on_levels ?a k)" using a(2) by (simp add: Let_def holds_Set)
  from holds_lookup [OF this] in_time_expire_at [OF assms(2)] in_time_expire_at [OF assms(3)]
  have "lookup2 t1 t2 k (on_levels ?a k) = Some (Some v)" by blast
  with Get_sim [OF s1, of t1 t2 k] show ?thesis by auto
qed

interpretation store: store_contract "store_ok vlen" "store_fits vlen" store_Get "store_SetWithExpiration vlen"
  "store_Delete vlen" store_Clear store_Len store_Close for vlen
proof
  fix s :: "'a Store" and t1 t2 k
  assume "store_ok vlen s"
  then show "\<exists>r ev s'. store_Get t1 t2 k s = Some (r, ev, s') \<and> store_ok vlen s'"
    using lru_Get_ok [of vlen _ t1 k] lru2_ops_ok(1) [of _ t1 t2 k] by (cases s) fastforce+
next
  fix s :: "'a Store" and now now2 ks k v ttl
  assume "store_ok vlen s"
  then show "\<exists>ev s'. store_SetWithExpiration vlen now now2 ks k v ttl s = Some (ev, s') \<and> store_ok vlen s'"
    using lru_Set_ok [of vlen _ now now2 ks k v ttl] lru2_ops_ok(2) [of _ now k v ttl] by (cases s) fastforce+
next
  fix s :: "'a Store" and k
  assume "store_ok vlen s"
  then show "\<exists>r ev s'. store_Delete vlen k s = Some (r, ev, s') \<and> store_ok vlen s'"
    using lru_Delete_ok [of vlen _ k] lru2_ops_ok(3) [of _ k] by (cases s) fastforce+
next
  fix s s' :: "'a Store" and k v now now2 ks ttl t1 t2 ev
  assume "store_ok vlen s" "store_fits vlen s k v" "in_time now ttl now2" "in_time now ttl t1" "in_time now ttl t2"
    "store_SetWithExpiration vlen now now2 ks k (Some v) ttl s = Some (ev, s')"
  then show "\<exists>ev' s''. store_Get t1 t2 k s' = Some (Some (Some v), ev', s'')"
  proof (cases s)
    case (StoreLRU c)
    with \<open>store_ok vlen s\<close> \<open>store_fits vlen s k v\<close> \<open>store_SetWithExpiration vlen now now2 ks k (Some v) ttl s = Some (ev, s')\<close>
    obtain cbs c1 where "lru_ok vlen c" "\<forall>v. 0 \<le> vlen v" "store_fits vlen (StoreLRU c) k v" "s' = StoreLRU c1"
      "lru_SetWithExpiration vlen now now2 ks k (Some v) ttl c = Some (cbs, c1)"
      by (auto simp: bind_eq_Some_conv)
    with lru_Set_Get [OF this(1,2,3) \<open>in_time now ttl now2\<close> \<open>in_time now ttl t1\<close> this(5)] show ?thesis by auto
  next
    case (StoreLRU2 c)
    with \<open>store_ok vlen s\<close> \<open>store_SetWithExpiration vlen now now2 ks k (Some v) ttl s = Some (ev, s')\<close>
    obtain cbs c1 where "lru2_ok c" "s' = StoreLRU2 c1" "lru2_SetWithExpiration now k (Some v) ttl c = Some (cbs, c1)"
      by (auto simp: bind_eq_Some_conv)
    with lru2_Set_Get [OF this(1) \<open>in_time now ttl t1\<close> \<open>in_time now ttl t2\<close> this(3)] show ?thesis by auto
  qed
next
  fix s s' :: "'a Store" and k r ev t1 t2
  assume "store_ok vlen s" "store_Delete vlen k s = Some (r, ev, s')"
  then show "\<exists>ev' s''. store_Get t1 t2 k s' = Some (None, ev', s'')"
  proof (cases s)
    case (StoreLRU c)
    with \<open>store_ok vlen s\<close> \<open>store_Delete vlen k s = Some (r, ev, s')\<close> lru_Delete_ok [of vlen c k] show ?thesis by auto
  next
    case (StoreLRU2 c)
    with \<open>store_ok vlen s\<close> \<open>store_Delete vlen k s = Some (r, ev, s')\<close>
    obtain s1 where "s' = StoreLRU2 s1" "\<forall>t1 t2. \<exists>s''. lru2_Get t1 t2 k s1 = Some (None, [], s'')"
      using lru2_ops_ok(3) [of c k] by auto
    then obtain s'' where "lru2_Get t1 t2 k s1 = Some (None, [], s'')" by blast
    with \<open>s' = StoreLRU2 s1\<close> show ?thesis by simp
  qed
next
  fix s :: "'a Store" and ord
  assume "store_ok vlen s"
  then show "\<exists>ev s'. store_Clear ord s = Some (ev, s') \<and> store_ok vlen s'"
  proof (cases s)
    case (StoreLRU c)
    with \<open>store_ok vlen s\<close> lru_Clear_ok [of vlen c "ord (map fst (c_items c))"] show ?thesis by auto
  next
    case (StoreLRU2 c)
    with \<open>store_ok vlen s\<close> lru2_Clear_ok [of c ord] show ?thesis by auto
  qed
next
  fix s s' :: "'a Store" and ord ev t1 t2 k
  assume ok: "store_ok vlen s" and ord: "\<And>xs. set (ord xs) = set xs" and s': "store_Clear ord s = Some (ev, s')"
  show "store_Len s' = Some 0 \<and> (\<exists>ev' s''. store_Get t1 t2 k s' = Some (None, ev', s''))"
  proof (cases s)
    case (StoreLRU c)
    with ok s' lru_Clear_ok [of vlen c "ord (map fst (c_items c))"] show ?thesis by auto
  next
    case (StoreLRU2 c)
    with ok s' ord obtain s1 where "s' = StoreLRU2 s1" "lru2_Len s1 = Some 0"
      "\<forall>k t1 t2. \<exists>cbs' s''. lru2_Get t1 t2 k s1 = Some (None, cbs', s'')" using lru2_Clear_ok [of c ord] by auto
    moreover from this(3) obtain cbs' s'' where "lru2_Get t1 t2 k s1 = Some (None, cbs', s'')" by blast
    ultimately show ?thesis by simp
  qed
next
  fix s :: "'a Store"
  assume "store_ok vlen s"
  then show "\<exists>n. store_Len s = Some n" using lru2_Len_ok by (cases s) auto
next
  fix s :: "'a Store"
  assume "store_ok vlen s"
  then show "\<exists>s'. store_Close s = Some s'" by (cases s) (auto simp: lru_Close_def)
qed

lemma NewStore_ok: "opts_ok opts \<Longrightarrow> \<forall>v. 0 \<le> vlen v \<Longrightarrow> store_ok vlen (NewStore ct opts)"
  by (simp add: NewStore_def newLRU2_ok newLRU_ok) (simp add: newLRUCache_def Let_def)



end
