(* ===== verification/Byte_View.thy ===== *)
theory Byte_View
  imports Prelude
begin

text \<open>
  \<^verbatim>\<open>byteview.go\<close> and \<^verbatim>\<open>utils.go\<close>: the read-only byte view that is the value type of
  the cache, and the check of a peer address. A Go byte slice is an optional list of bytes:
  \<open>None\<close> is the nil slice, which the cache uses as its placeholder for a missing value, and
  which is not the same as the empty slice \<open>Some []\<close>. Slice contents are values in the
  model: a copy made by \<open>cloneBytes\<close> equals the original and shares nothing with it.
\<close>

type_synonym slice = "bytes option"

definition slice_bytes :: "slice \<Rightarrow> bytes" where
  "slice_bytes b = (case b of None \<Rightarrow> [] | Some bs \<Rightarrow> bs)"

datatype ByteView = ByteView (bv_b: slice)

definition bv_Len :: "ByteView \<Rightarrow> int" where
  "bv_Len v = int (length (slice_bytes (bv_b v)))"

text \<open>\<open>make\<close> and \<open>copy\<close>: the result is never nil.\<close>

definition cloneBytes :: "slice \<Rightarrow> slice" where
  "cloneBytes b = Some (slice_bytes b)"

definition bv_ByteSlice :: "ByteView \<Rightarrow> slice" where
  "bv_ByteSlice v = cloneBytes (bv_b v)"

definition bv_String :: "ByteView \<Rightarrow> string" where
  "bv_String v = map (\<lambda>b. char_of (unat b)) (slice_bytes (bv_b v))"

lemma bv_Len_nonneg: "0 \<le> bv_Len v"
  by (simp add: bv_Len_def)

subsection \<open>Peer addresses\<close>

text \<open>\<open>strings.Split(s, sep)\<close> for a separator of one character.\<close>

primrec split_on :: "char \<Rightarrow> string \<Rightarrow> string list" where
  "split_on c [] = [[]]"
| "split_on c (x # xs) =
     (if x = c then [] # split_on c xs
      else (x # hd (split_on c xs)) # tl (split_on c xs))"

definition ValidPeerAddr :: "string \<Rightarrow> bool" where
  "ValidPeerAddr addr =
     (let t1 = split_on CHR '':'' addr in
      if length t1 \<noteq> 2 then False
      else let t2 = split_on CHR ''.'' (t1 ! 0) in
        if t1 ! 0 \<noteq> ''localhost'' \<and> length t2 \<noteq> 4 then False else True)"

lemma split_on_nonempty: "split_on c s \<noteq> []"
  by (cases s) auto

lemma length_split_on: "length (split_on c s) = Suc (count_list s c)"
  by (induction s) (auto simp: split_on_nonempty)

lemma split_on_append: "c \<notin> set xs \<Longrightarrow> split_on c (xs @ c # ys) = xs # split_on c ys"
  by (induction xs) auto

lemma split_on_none: "c \<notin> set xs \<Longrightarrow> split_on c xs = [xs]"
  by (induction xs) auto

text \<open>
  What the address check accepts, exactly: one colon, and in front of it \<open>localhost\<close> or
  a text with exactly three dots. The port and the parts between the dots are not examined.
\<close>

lemma valid_peer_addr_iff:
  "ValidPeerAddr addr \<longleftrightarrow>
     (\<exists>host port. addr = host @ CHR '':'' # port \<and> CHR '':'' \<notin> set host \<and> CHR '':'' \<notin> set port \<and>
        (host = ''localhost'' \<or> count_list host (CHR ''.'') = 3))"
proof
  assume v: "ValidPeerAddr addr"
  then have n: "count_list addr (CHR '':'') = 1"
    by (auto simp: ValidPeerAddr_def Let_def length_split_on split: if_splits)
  then have "CHR '':'' \<in> set addr" by (metis count_notin one_neq_zero)
  then obtain host port where a: "addr = host @ CHR '':'' # port" "CHR '':'' \<notin> set host" by (auto dest: split_list_first)
  with n have p: "CHR '':'' \<notin> set port" by (simp add: count_list_0_iff [symmetric])
  have "split_on (CHR '':'') addr = [host, port]" using a p by (simp add: split_on_append split_on_none)
  with v have "host = ''localhost'' \<or> count_list host (CHR ''.'') = 3"
    by (auto simp: ValidPeerAddr_def Let_def length_split_on split: if_splits)
  with a p show "\<exists>host port. addr = host @ CHR '':'' # port \<and> CHR '':'' \<notin> set host \<and> CHR '':'' \<notin> set port \<and>
        (host = ''localhost'' \<or> count_list host (CHR ''.'') = 3)" by blast
next
  assume "\<exists>host port. addr = host @ CHR '':'' # port \<and> CHR '':'' \<notin> set host \<and> CHR '':'' \<notin> set port \<and>
        (host = ''localhost'' \<or> count_list host (CHR ''.'') = 3)"
  then obtain host port where "addr = host @ CHR '':'' # port" "CHR '':'' \<notin> set host" "CHR '':'' \<notin> set port"
    and h: "host = ''localhost'' \<or> count_list host (CHR ''.'') = 3" by blast
  then have "split_on (CHR '':'') addr = [host, port]" by (simp add: split_on_append split_on_none)
  with h show "ValidPeerAddr addr" by (auto simp: ValidPeerAddr_def Let_def length_split_on)
qed

end
