(* ===== verification/Cache_Layer.thy ===== *)
theory Cache_Layer
  imports Store Byte_View
begin

text \<open>
  \<^verbatim>\<open>cache.go\<close>: the storage layer \<open>Cache\<close>, which creates its store on the first write,
  checks the closed and initialized flags, and counts hits and misses. The methods are in
  terms of the \<open>Store\<close> interface; the proofs use only the interface contract. A method
  returns \<open>None\<close> when it panics (a method call on the nil store).

  Floating-point numbers of the configuration are their IEEE 754 bit patterns.
\<close>

type_synonym float64 = u64

datatype cache_error =
    ErrCacheClosed | ErrCacheNotInit | ErrKeyNotFound | ErrBloomRejected | ErrLoaderFailed | ErrTypeAssertion
  | ErrPanic

record CacheOptions =
  co_CacheType :: CacheType
  co_MaxBytes :: int
  co_BucketCount :: u16
  co_CapPerBucket :: u16
  co_Level2Cap :: u16
  co_CleanupTime :: int
  co_OnEvicted :: bool
  co_DefaultTTL :: int
  co_ExpectedElements :: u64
  co_FalsePositiveRate :: float64

definition DefaultCacheOptions :: CacheOptions where
  "DefaultCacheOptions = \<lparr>co_CacheType = LRU2_type, co_MaxBytes = 8 * 1024 * 1024, co_BucketCount = 16,
     co_CapPerBucket = 512, co_Level2Cap = 256, co_CleanupTime = time_Minute, co_OnEvicted = False,
     co_DefaultTTL = time_Minute, co_ExpectedElements = 1000000, co_FalsePositiveRate = 0x3F847AE147AE147B\<rparr>"

record Cache =
  ca_store :: "ByteView Store option"
  ca_opts :: CacheOptions
  ca_hits :: int
  ca_misses :: int
  ca_initialized :: bool
  ca_closed :: bool

definition NewCache :: "CacheOptions \<Rightarrow> Cache" where
  "NewCache opts = \<lparr>ca_store = None, ca_opts = opts, ca_hits = 0, ca_misses = 0, ca_initialized = False, ca_closed = False\<rparr>"

definition store_options :: "CacheOptions \<Rightarrow> Options" where
  "store_options opts = \<lparr>MaxBytes = co_MaxBytes opts, BucketCount = co_BucketCount opts, CapPerBucket = co_CapPerBucket opts,
     Level2Cap = co_Level2Cap opts, CleanupInterval = co_CleanupTime opts, OnEvicted = co_OnEvicted opts\<rparr>"

definition ensureInitialized :: "Cache \<Rightarrow> Cache" where
  "ensureInitialized c =
     (if ca_initialized c then c
      else c\<lparr>ca_store := Some (NewStore (co_CacheType (ca_opts c)) (store_options (ca_opts c))), ca_initialized := True\<rparr>)"

definition add_miss :: "Cache \<Rightarrow> Cache" where
  "add_miss c = c\<lparr>ca_misses := wrap64 (ca_misses c + 1)\<rparr>"

definition add_hit :: "Cache \<Rightarrow> Cache" where
  "add_hit c = c\<lparr>ca_hits := wrap64 (ca_hits c + 1)\<rparr>"

definition Cache_Get ::
  "int \<Rightarrow> int \<Rightarrow> string \<Rightarrow> Cache \<Rightarrow> ((cache_error + ByteView) \<times> ByteView event list \<times> Cache) option" where
  "Cache_Get t1 t2 key c =
     (if ca_closed c then Some (Inl ErrCacheClosed, [], c)
      else if \<not> ca_initialized c then Some (Inl ErrCacheNotInit, [], add_miss c)
      else do {
        st \<leftarrow> ca_store c;
        (r, ev, st) \<leftarrow> store_Get t1 t2 key st;
        let c = c\<lparr>ca_store := Some st\<rparr>;
        Some (case r of
          None \<Rightarrow> (Inl ErrKeyNotFound, ev, add_miss c)
        | Some None \<Rightarrow> (Inl ErrTypeAssertion, ev, c)
        | Some (Some bv) \<Rightarrow>
            if bv_b bv = None then (Inl ErrKeyNotFound, ev, add_miss c)
            else (Inr bv, ev, add_hit c))
      })"

definition Cache_Set ::
  "int \<Rightarrow> int \<Rightarrow> string list \<Rightarrow> string \<Rightarrow> ByteView \<Rightarrow> Cache \<Rightarrow> (ByteView event list \<times> Cache) option" where
  "Cache_Set now now2 ks key val c =
     (if ca_closed c then Some ([], c)
      else do {
        let c = ensureInitialized c;
        st \<leftarrow> ca_store c;
        (ev, st) \<leftarrow> store_Set bv_Len now now2 ks key (Some val) st;
        Some (ev, c\<lparr>ca_store := Some st\<rparr>)
      })"

text \<open>\<open>t\<close> is the clock reading of \<open>time.Until\<close>.\<close>

definition Cache_SetWithExpiration ::
  "int \<Rightarrow> int \<Rightarrow> int \<Rightarrow> string list \<Rightarrow> string \<Rightarrow> ByteView \<Rightarrow> int \<Rightarrow> Cache \<Rightarrow> (ByteView event list \<times> Cache) option" where
  "Cache_SetWithExpiration t now now2 ks key val expirationTime c =
     (if ca_closed c then Some ([], c)
      else
        let c = ensureInitialized c; expiration = time_Sub expirationTime t in
        if expiration \<le> 0 then Some ([], c)
        else do {
          st \<leftarrow> ca_store c;
          (ev, st) \<leftarrow> store_SetWithExpiration bv_Len now now2 ks key (Some val) expiration st;
          Some (ev, c\<lparr>ca_store := Some st\<rparr>)
        })"

definition Cache_Delete :: "string \<Rightarrow> Cache \<Rightarrow> (bool \<times> ByteView event list \<times> Cache) option" where
  "Cache_Delete key c =
     (if ca_closed c \<or> \<not> ca_initialized c then Some (False, [], c)
      else do {
        st \<leftarrow> ca_store c;
        (r, ev, st) \<leftarrow> store_Delete bv_Len key st;
        Some (r, ev, c\<lparr>ca_store := Some st\<rparr>)
      })"

definition Cache_Clear :: "(string list \<Rightarrow> string list) \<Rightarrow> Cache \<Rightarrow> (ByteView event list \<times> Cache) option" where
  "Cache_Clear ord c =
     (if ca_closed c \<or> \<not> ca_initialized c then Some ([], c)
      else do {
        st \<leftarrow> ca_store c;
        (ev, st) \<leftarrow> store_Clear ord st;
        Some (ev, c\<lparr>ca_store := Some st, ca_hits := 0, ca_misses := 0\<rparr>)
      })"

definition Cache_Len :: "Cache \<Rightarrow> int option" where
  "Cache_Len c =
     (if ca_closed c \<or> \<not> ca_initialized c then Some 0 else do { st \<leftarrow> ca_store c; store_Len st })"

definition Cache_Close :: "Cache \<Rightarrow> Cache option" where
  "Cache_Close c =
     (if ca_closed c then Some c
      else
        let c = c\<lparr>ca_closed := True\<rparr> in
        case ca_store c of
          None \<Rightarrow> Some (c\<lparr>ca_initialized := False\<rparr>)
        | Some st \<Rightarrow> do { _ \<leftarrow> store_Close st; Some (c\<lparr>ca_store := None, ca_initialized := False\<rparr>) })"

text \<open>
  \<open>Stats\<close>: the map as a record; \<open>cs_size\<close> and \<open>cs_hit_rate\<close> are present when the cache is
  initialized. The hit rate is the pair of numerator and denominator.
\<close>

record CacheStats =
  cs_initialized :: bool
  cs_closed :: bool
  cs_hits :: int
  cs_misses :: int
  cs_size :: "int option"
  cs_hit_rate :: "(int \<times> int) option"

definition Cache_Stats :: "Cache \<Rightarrow> CacheStats option" where
  "Cache_Stats c =
     (let st = \<lparr>cs_initialized = ca_initialized c, cs_closed = ca_closed c, cs_hits = ca_hits c,
                cs_misses = ca_misses c, cs_size = None, cs_hit_rate = None\<rparr> in
      if ca_initialized c then do {
        n \<leftarrow> Cache_Len c;
        let totalRequests = wrap64 (cs_hits st + cs_misses st);
        Some (st\<lparr>cs_size := Some n,
                 cs_hit_rate := Some (if totalRequests > 0 then (cs_hits st, totalRequests) else (0, 1))\<rparr>)
      } else Some st)"

subsection \<open>Invariant\<close>

definition cache_ok :: "Cache \<Rightarrow> bool" where
  "cache_ok c \<longleftrightarrow> opts_ok (store_options (ca_opts c)) \<and> (ca_initialized c \<longleftrightarrow> ca_store c \<noteq> None) \<and>
     (ca_closed c \<longrightarrow> \<not> ca_initialized c) \<and>
     (case ca_store c of None \<Rightarrow> True | Some st \<Rightarrow> store_ok bv_Len st)"

lemma NewCache_ok: "opts_ok (store_options opts) \<Longrightarrow> cache_ok (NewCache opts)"
  by (simp add: cache_ok_def NewCache_def)

lemma counters_ok [simp]: "cache_ok (add_miss c) = cache_ok c" "cache_ok (add_hit c) = cache_ok c"
  by (simp_all add: cache_ok_def add_miss_def add_hit_def)

lemma ensureInitialized_ok:
  assumes "cache_ok c" and "\<not> ca_closed c"
  obtains st where "ca_store (ensureInitialized c) = Some st" "store_ok bv_Len st" "ca_initialized (ensureInitialized c)"
    "cache_ok (ensureInitialized c)" "\<not> ca_closed (ensureInitialized c)"
proof (cases "ca_initialized c")
  case True
  then have "ensureInitialized c = c" by (simp add: ensureInitialized_def)
  with True assms that show ?thesis by (auto simp: cache_ok_def)
next
  case False
  let ?st = "NewStore (co_CacheType (ca_opts c)) (store_options (ca_opts c)) :: ByteView Store"
  have "store_ok bv_Len ?st" using assms(1) by (intro NewStore_ok) (simp_all add: cache_ok_def bv_Len_nonneg)
  with False assms that [of ?st] show ?thesis by (simp add: ensureInitialized_def cache_ok_def)
qed

lemma store_upd_ok:
  "cache_ok c \<Longrightarrow> ca_initialized c \<Longrightarrow> store_ok bv_Len st \<Longrightarrow> cache_ok (c\<lparr>ca_store := Some st\<rparr>)"
  by (simp add: cache_ok_def)

lemma open_store:
  assumes "cache_ok c" and "ca_initialized c"
  obtains st where "ca_store c = Some st" "store_ok bv_Len st" "\<not> ca_closed c"
  using assms by (auto simp: cache_ok_def)

lemma store_Set_eq: "store_Set vlen now now2 ks k v st = store_SetWithExpiration vlen now now2 ks k v 0 st"
  by (cases st) (simp_all add: lru_Set_def lru2_Set_def)

lemma Cache_Get_ok:
  assumes "cache_ok c"
  shows "\<exists>r ev c'. Cache_Get t1 t2 k c = Some (r, ev, c') \<and> cache_ok c' \<and> ca_closed c' = ca_closed c"
proof (cases "ca_closed c \<or> \<not> ca_initialized c")
  case True
  then show ?thesis using assms by (auto simp: Cache_Get_def add_miss_def [of c] counters_ok(1) [of c, unfolded add_miss_def])
next
  case False
  then obtain st where st: "ca_store c = Some st" "store_ok bv_Len st" using open_store [OF assms] by blast
  obtain r ev st' where r: "store_Get t1 t2 k st = Some (r, ev, st')" "store_ok bv_Len st'"
    using store.get_totalE [OF st(2)] .
  have "cache_ok (c\<lparr>ca_store := Some st'\<rparr>)" using assms False r(2) by (intro store_upd_ok) simp_all
  then show ?thesis using False st(1) r(1)
    by (auto simp: Cache_Get_def Let_def add_miss_def add_hit_def cache_ok_def split: option.split)
qed

lemma Cache_Delete_ok:
  assumes "cache_ok c"
  shows "\<exists>r ev c'. Cache_Delete k c = Some (r, ev, c') \<and> cache_ok c'"
proof (cases "ca_closed c \<or> \<not> ca_initialized c")
  case True
  then show ?thesis using assms by (auto simp: Cache_Delete_def)
next
  case False
  then obtain st where st: "ca_store c = Some st" "store_ok bv_Len st" using open_store [OF assms] by blast
  obtain r ev st' where "store_Delete bv_Len k st = Some (r, ev, st')" "store_ok bv_Len st'"
    using store.del_totalE [OF st(2)] .
  with False st(1) assms show ?thesis by (auto simp: Cache_Delete_def store_upd_ok)
qed

lemma Cache_write_ok:
  assumes "cache_ok c" and "\<not> ca_closed c"
  obtains st ev st' where "ca_store (ensureInitialized c) = Some st"
    "store_SetWithExpiration bv_Len now now2 ks k (Some v) ttl st = Some (ev, st')"
    "cache_ok ((ensureInitialized c)\<lparr>ca_store := Some st'\<rparr>)" "cache_ok (ensureInitialized c)"
proof -
  obtain st where st: "ca_store (ensureInitialized c) = Some st" "store_ok bv_Len st" "ca_initialized (ensureInitialized c)"
    "cache_ok (ensureInitialized c)" using ensureInitialized_ok [OF assms] .
  obtain ev st' where "store_SetWithExpiration bv_Len now now2 ks k (Some v) ttl st = Some (ev, st')" "store_ok bv_Len st'"
    using store.set_totalE [OF st(2)] .
  with st that show ?thesis by (simp add: store_upd_ok)
qed

lemma Cache_Set_ok:
  assumes "cache_ok c"
  shows "\<exists>ev c'. Cache_Set now now2 ks k v c = Some (ev, c') \<and> cache_ok c'"
proof (cases "ca_closed c")
  case False
  from Cache_write_ok [OF assms False, of now now2 ks k v 0] obtain st ev st' where
    "ca_store (ensureInitialized c) = Some st" "store_SetWithExpiration bv_Len now now2 ks k (Some v) 0 st = Some (ev, st')"
    "cache_ok ((ensureInitialized c)\<lparr>ca_store := Some st'\<rparr>)" .
  with False show ?thesis by (simp add: Cache_Set_def store_Set_eq Let_def)
qed (use assms in \<open>simp add: Cache_Set_def\<close>)

lemma Cache_SetWithExpiration_ok:
  assumes "cache_ok c"
  shows "\<exists>ev c'. Cache_SetWithExpiration t now now2 ks k v e c = Some (ev, c') \<and> cache_ok c'"
proof (cases "ca_closed c")
  case False
  from Cache_write_ok [OF assms False, of now now2 ks k v "time_Sub e t"] obtain st ev st' where
    "ca_store (ensureInitialized c) = Some st" "store_SetWithExpiration bv_Len now now2 ks k (Some v) (time_Sub e t) st = Some (ev, st')"
    "cache_ok ((ensureInitialized c)\<lparr>ca_store := Some st'\<rparr>)" "cache_ok (ensureInitialized c)" .
  with False show ?thesis by (simp add: Cache_SetWithExpiration_def Let_def)
qed (use assms in \<open>simp add: Cache_SetWithExpiration_def\<close>)

lemma Cache_Clear_ok:
  assumes "cache_ok c"
  shows "\<exists>ev c'. Cache_Clear ord c = Some (ev, c') \<and> cache_ok c'"
proof (cases "ca_closed c \<or> \<not> ca_initialized c")
  case False
  then obtain st where st: "ca_store c = Some st" "store_ok bv_Len st" using open_store [OF assms] by blast
  obtain ev st' where "store_Clear ord st = Some (ev, st')" "store_ok bv_Len st'" using store.clear_total [OF st(2)] by blast
  with False st assms show ?thesis by (auto simp: Cache_Clear_def cache_ok_def)
qed (use assms in \<open>auto simp: Cache_Clear_def\<close>)

lemma Cache_Len_ok: "cache_ok c \<Longrightarrow> \<exists>n. Cache_Len c = Some n"
  using store.len_total by (auto simp: Cache_Len_def cache_ok_def)

lemma Cache_Close_ok:
  assumes "cache_ok c"
  shows "\<exists>c'. Cache_Close c = Some c' \<and> cache_ok c' \<and> ca_closed c' \<and> ca_store c' = None"
proof (cases "ca_closed c")
  case True
  then show ?thesis using assms by (cases "ca_store c") (auto simp: Cache_Close_def cache_ok_def)
next
  case False
  then show ?thesis using assms store.close_total [of bv_Len "the (ca_store c)"]
    by (cases "ca_store c") (auto simp: Cache_Close_def cache_ok_def Let_def)
qed

lemma Cache_Stats_ok: "cache_ok c \<Longrightarrow> \<exists>s. Cache_Stats c = Some s"
  using Cache_Len_ok [of c] by (auto simp: Cache_Stats_def Let_def)

subsection \<open>Sequences of operations\<close>

datatype layer_op =
    KGet int int string
  | KSet int int "string list" string ByteView
  | KSetExp int int int "string list" string ByteView int
  | KDelete string
  | KClear "string list \<Rightarrow> string list"
  | KLen
  | KClose
  | KStats

datatype layer_out = KRGet "cache_error + ByteView" | KRDone | KRBool bool | KRInt int | KRStats CacheStats

primrec layer_step :: "layer_op \<Rightarrow> Cache \<Rightarrow> ((layer_out \<times> ByteView event list) \<times> Cache) option" where
  "layer_step (KGet t1 t2 k) c = do { (r, ev, c) \<leftarrow> Cache_Get t1 t2 k c; Some ((KRGet r, ev), c) }"
| "layer_step (KSet now now2 ks k v) c = do { (ev, c) \<leftarrow> Cache_Set now now2 ks k v c; Some ((KRDone, ev), c) }"
| "layer_step (KSetExp t now now2 ks k v e) c =
     do { (ev, c) \<leftarrow> Cache_SetWithExpiration t now now2 ks k v e c; Some ((KRDone, ev), c) }"
| "layer_step (KDelete k) c = do { (r, ev, c) \<leftarrow> Cache_Delete k c; Some ((KRBool r, ev), c) }"
| "layer_step (KClear ord) c = do { (ev, c) \<leftarrow> Cache_Clear ord c; Some ((KRDone, ev), c) }"
| "layer_step KLen c = do { n \<leftarrow> Cache_Len c; Some ((KRInt n, []), c) }"
| "layer_step KClose c = do { c \<leftarrow> Cache_Close c; Some ((KRDone, []), c) }"
| "layer_step KStats c = do { s \<leftarrow> Cache_Stats c; Some ((KRStats s, []), c) }"

lemma layer_step_ok:
  assumes "cache_ok c"
  shows "\<exists>out c'. layer_step x c = Some (out, c') \<and> cache_ok c'"
proof (cases x)
  case (KGet t1 t2 k)
  with Cache_Get_ok [OF assms, of t1 t2 k] show ?thesis by auto
next
  case (KSet now now2 ks k v)
  with Cache_Set_ok [OF assms, of now now2 ks k v] show ?thesis by auto
next
  case (KSetExp t now now2 ks k v e)
  with Cache_SetWithExpiration_ok [OF assms, of t now now2 ks k v e] show ?thesis by auto
next
  case (KDelete k)
  with Cache_Delete_ok [OF assms, of k] show ?thesis by auto
next
  case (KClear ord)
  with Cache_Clear_ok [OF assms, of ord] show ?thesis by auto
next
  case KLen
  with Cache_Len_ok [OF assms] assms show ?thesis by auto
next
  case KClose
  with Cache_Close_ok [OF assms] show ?thesis by auto
next
  case KStats
  with Cache_Stats_ok [OF assms] assms show ?thesis by auto
qed

text \<open>
  The storage layer never panics: from a new cache whose configuration is in range for
  the two-level store, every sequence of \<open>Get\<close>, \<open>Set\<close>, \<open>SetWithExpiration\<close>,
  \<open>Delete\<close>, \<open>Clear\<close>, \<open>Len\<close>, \<open>Close\<close> and \<open>Stats\<close> returns. The store exists exactly when
  the initialized flag is set, and a closed cache has none.
\<close>

lemma cache_layer_never_panics:
  assumes "opts_ok (store_options opts)"
  shows "\<exists>outs c'. run_ops layer_step ops (NewCache opts) = Some (outs, c') \<and>
    (ca_initialized c' \<longleftrightarrow> ca_store c' \<noteq> None) \<and> (ca_closed c' \<longrightarrow> ca_store c' = None)"
proof -
  have "\<exists>outs c'. run_ops layer_step ops c = Some (outs, c') \<and> cache_ok c'" if "cache_ok c" for c
    using that
  proof (induction ops arbitrary: c)
    case (Cons x ops)
    obtain out c1 where "layer_step x c = Some (out, c1)" "cache_ok c1" using layer_step_ok [OF Cons.prems] by blast
    with Cons.IH [OF this(2)] show ?case by auto
  qed simp
  from this [OF NewCache_ok [OF assms]] show ?thesis by (auto simp: cache_ok_def)
qed

lemma cache_layer_never_panics_witness:
  "\<exists>outs c'. run_ops layer_step [KGet 1 1 ''a'', KSet 2 2 [] ''a'' (ByteView None), KLen, KClose, KGet 3 3 ''a'']
     (NewCache DefaultCacheOptions) = Some (outs, c') \<and> (ca_closed c' \<longrightarrow> ca_store c' = None)"
  using cache_layer_never_panics [of DefaultCacheOptions
      "[KGet 1 1 ''a'', KSet 2 2 [] ''a'' (ByteView None), KLen, KClose, KGet 3 3 ''a'']"]
  by (auto simp: opts_ok_def store_options_def DefaultCacheOptions_def simp del: run_ops.simps)

text \<open>
  A value written with an expiry time in the future is returned by a \<open>Get\<close> before that
  time and counted as a hit; the first write initializes the store. A nil view, the
  placeholder of a missing value, is read as \<open>ErrKeyNotFound\<close> and counted as a miss.
\<close>

lemma cache_layer_set_then_get:
  assumes "cache_ok c" and "\<not> ca_closed c" and "store_fits bv_Len (the (ca_store (ensureInitialized c))) k v"
    and "0 < time_Sub e t" and "in_time now (time_Sub e t) now2" and "in_time now (time_Sub e t) t1" and "in_time now (time_Sub e t) t2"
  shows "\<exists>ev1 c1 ev2 c2. Cache_SetWithExpiration t now now2 ks k v e c = Some (ev1, c1) \<and> cache_ok c1 \<and>
    Cache_Get t1 t2 k c1 = Some (if bv_b v = None then Inl ErrKeyNotFound else Inr v, ev2, c2) \<and>
    ca_hits c2 = (if bv_b v = None then ca_hits c else wrap64 (ca_hits c + 1)) \<and>
    ca_misses c2 = (if bv_b v = None then wrap64 (ca_misses c + 1) else ca_misses c)"
proof -
  let ?c = "ensureInitialized c" and ?ttl = "time_Sub e t"
  obtain st where st: "ca_store ?c = Some st" "store_ok bv_Len st" "ca_initialized ?c" "cache_ok ?c" "\<not> ca_closed ?c"
    using ensureInitialized_ok [OF assms(1,2)] .
  obtain ev1 st' where s1: "store_SetWithExpiration bv_Len now now2 ks k (Some v) ?ttl st = Some (ev1, st')" "store_ok bv_Len st'"
    using store.set_totalE [OF st(2)] .
  have "store_fits bv_Len st k v" using assms(3) st(1) by simp
  from store.set_get [OF st(2) this assms(5,6,7) s1(1)] obtain ev2 st'' where
    s2: "store_Get t1 t2 k st' = Some (Some (Some v), ev2, st'')" by blast
  have w: "Cache_SetWithExpiration t now now2 ks k v e c = Some (ev1, ?c\<lparr>ca_store := Some st'\<rparr>)"
    using assms(2,4) st(1) s1(1) by (simp add: Cache_SetWithExpiration_def Let_def)
  have "cache_ok (?c\<lparr>ca_store := Some st'\<rparr>)" using st(3,4) s1(2) by (intro store_upd_ok)
  moreover have "ca_hits ?c = ca_hits c" "ca_misses ?c = ca_misses c" by (simp_all add: ensureInitialized_def)
  ultimately show ?thesis using w s2 st(3,5) by (auto simp: Cache_Get_def Let_def add_hit_def add_miss_def)
qed

lemma cache_layer_set_then_get_witness:
  "\<exists>ev1 c1 ev2 c2. Cache_SetWithExpiration 100 101 102 [] ''k'' (ByteView (Some [7])) 1000 (NewCache DefaultCacheOptions)
      = Some (ev1, c1) \<and> Cache_Get 200 200 ''k'' c1 = Some (Inr (ByteView (Some [7])), ev2, c2) \<and> ca_hits c2 = 1"
proof -
  have 1: "cache_ok (NewCache DefaultCacheOptions)"
    by (rule NewCache_ok) (simp add: opts_ok_def store_options_def DefaultCacheOptions_def)
  have 2: "\<not> ca_closed (NewCache DefaultCacheOptions)" by (simp add: NewCache_def)
  have 3: "store_fits bv_Len (the (ca_store (ensureInitialized (NewCache DefaultCacheOptions)))) ''k'' (ByteView (Some [7]))"
    by (simp add: ensureInitialized_def NewCache_def DefaultCacheOptions_def NewStore_def)
  have 4: "time_Sub 1000 100 = 900" by (simp add: time_Sub_def MaxInt64_def)
  have 5: "in_time 101 (time_Sub 1000 100) 102" "in_time 101 (time_Sub 1000 100) 200" by (simp_all add: in_time_def 4)
  have 6: "ca_hits (NewCache DefaultCacheOptions) = 0" by (simp add: NewCache_def)
  from cache_layer_set_then_get [OF 1 2 3 _ 5 5(2), of "[]"] show ?thesis
    by (auto simp: 4 6 wrap64_def)
qed

end
