(* ===== verification/Bloom.thy ===== *)
theory Bloom
  imports Prelude
begin

text \<open>
  The Bloom filter of \<^verbatim>\<open>bloom/bloom.go\<close>: the bit array as a list of 64-bit words, the
  FNV-1a hash of the key followed by one seed byte, \<open>Add\<close> and \<open>Contains\<close>. The
  mutex makes each method atomic; \<open>None\<close> is a panic (modulo zero or an index out of
  range). The two floating-point formulas of \<open>NewBloomFilter\<close> that choose \<open>m\<close> and
  \<open>k\<close> are parameters, since nothing of the filter's correctness depends on the exact
  rounding.

  The set of bit positions that are set, \<open>bf_set\<close>, is the abstract state: \<open>Add\<close> unions
  the key's positions and \<open>Contains\<close> tests inclusion. The interface the cache policy
  relies on is the locale \<open>membership_filter\<close>.
\<close>

record BloomFilter =
  bf_bits :: "u64 list"
  bf_m :: u64
  bf_k :: u64

text \<open>\<open>hash/fnv\<close>: the 64-bit FNV-1a state after one \<open>Write\<close>.\<close>

definition fnv64a_Write :: "bytes \<Rightarrow> u64 \<Rightarrow> u64" where
  "fnv64a_Write bs h = foldl (\<lambda>h b. (h XOR ucast b) * 1099511628211) h bs"

definition fnv64a_init :: u64 where
  "fnv64a_init = 14695981039346656037"

definition bf_hash :: "string \<Rightarrow> u64 \<Rightarrow> u64" where
  "bf_hash key seed =
     (let h = fnv64a_Write (bytes_of_string key) fnv64a_init
      in fnv64a_Write [ucast seed] h)"

text \<open>\<open>calc_m n p\<close> and \<open>calc_k m n\<close> are the two floating-point formulas of the source.\<close>

definition NewBloomFilter ::
  "(u64 \<Rightarrow> 'f \<Rightarrow> u64) \<Rightarrow> (u64 \<Rightarrow> u64 \<Rightarrow> u64) \<Rightarrow> u64 \<Rightarrow> 'f \<Rightarrow> BloomFilter" where
  "NewBloomFilter calc_m calc_k n p =
     (let m = calc_m n p; k = calc_k m n
      in \<lparr>bf_bits = replicate (unat ((m + 63) div 64)) 0, bf_m = m, bf_k = k\<rparr>)"

text \<open>\<open>bf.hash(key, i) % bf.m\<close>.\<close>

definition bf_offset :: "BloomFilter \<Rightarrow> string \<Rightarrow> u64 \<Rightarrow> u64 option" where
  "bf_offset bf key i = (if bf_m bf = 0 then None else Some (bf_hash key i mod bf_m bf))"

definition bf_word :: "BloomFilter \<Rightarrow> u64 \<Rightarrow> u64 option" where
  "bf_word bf offset =
     (let j = unat (offset div 64) in if j < length (bf_bits bf) then Some (bf_bits bf ! j) else None)"

definition bit_mask :: "u64 \<Rightarrow> u64" where
  "bit_mask offset = push_bit (unat (offset mod 64)) 1"

definition bf_seeds :: "BloomFilter \<Rightarrow> u64 list" where
  "bf_seeds bf = map of_nat [0..<unat (bf_k bf)]"

primrec add_loop :: "string \<Rightarrow> u64 list \<Rightarrow> BloomFilter \<Rightarrow> BloomFilter option" where
  "add_loop key [] bf = Some bf"
| "add_loop key (i # is) bf = do {
     offset \<leftarrow> bf_offset bf key i;
     w \<leftarrow> bf_word bf offset;
     add_loop key is (bf\<lparr>bf_bits := (bf_bits bf)[unat (offset div 64) := w OR bit_mask offset]\<rparr>)
   }"

definition bf_Add :: "string \<Rightarrow> BloomFilter \<Rightarrow> BloomFilter option" where
  "bf_Add key bf = add_loop key (bf_seeds bf) bf"

primrec contains_loop :: "string \<Rightarrow> u64 list \<Rightarrow> BloomFilter \<Rightarrow> bool option" where
  "contains_loop key [] bf = Some True"
| "contains_loop key (i # is) bf = do {
     offset \<leftarrow> bf_offset bf key i;
     w \<leftarrow> bf_word bf offset;
     if w AND bit_mask offset = 0 then Some False else contains_loop key is bf
   }"

definition bf_Contains :: "BloomFilter \<Rightarrow> string \<Rightarrow> bool option" where
  "bf_Contains bf key = contains_loop key (bf_seeds bf) bf"

primrec add_all :: "('k \<Rightarrow> 'f \<Rightarrow> 'f option) \<Rightarrow> 'k list \<Rightarrow> 'f \<Rightarrow> 'f option" where
  "add_all add [] f = Some f"
| "add_all add (k # ks) f = Option.bind (add k f) (add_all add ks)"

subsection \<open>The interface\<close>

text \<open>
  What a client may rely on: both operations return on a well-formed filter, an added key is
  contained, and adding never removes a key.
\<close>

locale membership_filter =
  fixes wf :: "'f \<Rightarrow> bool"
    and add :: "'k \<Rightarrow> 'f \<Rightarrow> 'f option"
    and contains :: "'f \<Rightarrow> 'k \<Rightarrow> bool option"
  assumes add_wf: "wf f \<Longrightarrow> \<exists>f'. add k f = Some f' \<and> wf f'"
    and contains_total: "wf f \<Longrightarrow> \<exists>b. contains f k = Some b"
    and add_contains: "wf f \<Longrightarrow> add k f = Some f' \<Longrightarrow> contains f' k = Some True"
    and add_mono: "wf f \<Longrightarrow> add k f = Some f' \<Longrightarrow> contains f k' = Some True \<Longrightarrow> contains f' k' = Some True"
begin

lemma add_wfE:
  assumes "wf f"
  obtains f' where "add k f = Some f'" "wf f'" "contains f' k = Some True"
  using add_wf [OF assms, of k] add_contains [OF assms] by blast

lemma add_all_keeps:
  "wf f \<Longrightarrow> \<exists>f'. add_all add ks f = Some f' \<and> wf f' \<and>
     (\<forall>k. contains f k = Some True \<longrightarrow> contains f' k = Some True)"
proof (induction ks arbitrary: f)
  case (Cons k ks)
  obtain g where g: "add k f = Some g" "wf g" using add_wf [OF Cons.prems] by blast
  obtain f' where "add_all add ks g = Some f'" "wf f'"
    "\<forall>k. contains g k = Some True \<longrightarrow> contains f' k = Some True" using Cons.IH [OF g(2)] by blast
  with g add_mono [OF Cons.prems g(1)] show ?case by auto
qed simp

lemma add_all_contains:
  "wf f \<Longrightarrow> \<exists>f'. add_all add ks f = Some f' \<and> wf f' \<and> (\<forall>k \<in> set ks. contains f' k = Some True)"
proof (induction ks arbitrary: f)
  case (Cons k ks)
  obtain g where g: "add k f = Some g" "wf g" "contains g k = Some True" using Cons.prems by (rule add_wfE)
  obtain f' where "add_all add ks g = Some f'" "\<forall>k \<in> set ks. contains f' k = Some True"
    using Cons.IH [OF g(2)] by blast
  with g add_all_keeps [OF g(2), of ks] show ?case by auto
qed simp

end

subsection \<open>The bit set\<close>

definition bf_ok :: "BloomFilter \<Rightarrow> bool" where
  "bf_ok bf \<longleftrightarrow> bf_m bf \<noteq> 0 \<and> unat (bf_m bf) \<le> 64 * length (bf_bits bf)"

definition bf_set :: "BloomFilter \<Rightarrow> u64 set" where
  "bf_set bf = {off. unat (off div 64) < length (bf_bits bf) \<and>
     bit (bf_bits bf ! unat (off div 64)) (unat (off mod 64))}"

definition positions :: "BloomFilter \<Rightarrow> string \<Rightarrow> u64 set" where
  "positions bf key = (\<lambda>i. bf_hash key i mod bf_m bf) ` set (bf_seeds bf)"

lemma unat_div_64: "unat ((x :: u64) div 64) = unat x div 64"
  by (simp add: unat_div_distrib)

lemma unat_mod_64: "unat ((x :: u64) mod 64) = unat x mod 64"
  by (simp add: unat_mod_distrib)

lemma bit_mask_iff: "bit (bit_mask off) n \<longleftrightarrow> n = unat (off mod 64)"
  unfolding bit_mask_def unat_mod_64 by (auto simp: push_bit_of_1 bit_exp_iff)

lemma and_bit_mask: "w AND bit_mask off = 0 \<longleftrightarrow> \<not> bit w (unat (off mod 64))"
  by (simp add: bit_mask_def push_bit_of_1 and_exp_eq_0_iff_not_bit)

lemma offset_in:
  assumes "bf_ok bf"
  shows "bf_offset bf key i = Some (bf_hash key i mod bf_m bf)"
    and "unat ((bf_hash key i mod bf_m bf) div 64) < length (bf_bits bf)"
proof -
  have m: "bf_m bf \<noteq> 0" "unat (bf_m bf) \<le> 64 * length (bf_bits bf)" using assms by (auto simp: bf_ok_def)
  show "bf_offset bf key i = Some (bf_hash key i mod bf_m bf)" using m by (simp add: bf_offset_def)
  have "0 < unat (bf_m bf)" using m(1) by (simp add: unat_gt_0)
  then have "unat (bf_hash key i mod bf_m bf) < unat (bf_m bf)" by (simp add: unat_mod_distrib)
  with m(2) show "unat ((bf_hash key i mod bf_m bf) div 64) < length (bf_bits bf)"
    unfolding unat_div_64 by (simp add: div_less_iff_less_mult mult.commute)
qed

lemma same_position:
  "(x :: u64) = y \<longleftrightarrow> unat (x div 64) = unat (y div 64) \<and> unat (x mod 64) = unat (y mod 64)"
proof -
  have "unat x = unat y" if "unat x div 64 = unat y div 64" "unat x mod 64 = unat y mod 64"
    using that by (metis div_mult_mod_eq)
  then show ?thesis unfolding unat_div_64 unat_mod_64 by (auto simp: word_unat_eq_iff)
qed

lemma bf_set_update:
  assumes "unat (off div 64) < length (bf_bits bf)"
  shows "bf_set (bf\<lparr>bf_bits := (bf_bits bf)[unat (off div 64) := bf_bits bf ! unat (off div 64) OR bit_mask off]\<rparr>)
    = insert off (bf_set bf)"
  using assms by (auto simp: bf_set_def nth_list_update bit_or_iff bit_mask_iff same_position)

lemma add_loop_set:
  assumes "bf_ok bf"
  shows "\<exists>bf'. add_loop key is bf = Some bf' \<and> bf_ok bf' \<and> bf_m bf' = bf_m bf \<and> bf_k bf' = bf_k bf \<and>
    bf_set bf' = bf_set bf \<union> (\<lambda>i. bf_hash key i mod bf_m bf) ` set is"
  using assms
proof (induction "is" arbitrary: bf)
  case (Cons i "is")
  let ?off = "bf_hash key i mod bf_m bf"
  let ?bf = "bf\<lparr>bf_bits := (bf_bits bf)[unat (?off div 64) := bf_bits bf ! unat (?off div 64) OR bit_mask ?off]\<rparr>"
  note off = offset_in [OF Cons.prems, of key i]
  have "bf_ok ?bf" using Cons.prems by (simp add: bf_ok_def)
  from Cons.IH [OF this] bf_set_update [OF off(2)] off show ?case
    by (auto simp: bf_word_def Let_def)
qed simp

lemma contains_loop_set:
  assumes "bf_ok bf"
  shows "contains_loop key is bf = Some ((\<lambda>i. bf_hash key i mod bf_m bf) ` set is \<subseteq> bf_set bf)"
proof (induction "is")
  case (Cons i "is")
  note off = offset_in [OF assms, of key i]
  then show ?case using Cons
    by (auto simp: bf_word_def Let_def and_bit_mask bf_set_def)
qed simp

lemma Add_set:
  assumes "bf_ok bf"
  shows "\<exists>bf'. bf_Add key bf = Some bf' \<and> bf_ok bf' \<and> bf_m bf' = bf_m bf \<and> bf_k bf' = bf_k bf \<and>
    bf_set bf' = bf_set bf \<union> positions bf key"
  using add_loop_set [OF assms, of key "bf_seeds bf"] by (simp add: bf_Add_def positions_def)

lemma Contains_set: "bf_ok bf \<Longrightarrow> bf_Contains bf key = Some (positions bf key \<subseteq> bf_set bf)"
  by (simp add: bf_Contains_def positions_def contains_loop_set)

lemma positions_cong: "bf_m bf' = bf_m bf \<Longrightarrow> bf_k bf' = bf_k bf \<Longrightarrow> positions bf' = positions bf"
  by (auto simp: positions_def bf_seeds_def fun_eq_iff)

interpretation bloom: membership_filter bf_ok bf_Add bf_Contains
proof
  fix f k
  assume ok: "bf_ok f"
  then show "\<exists>f'. bf_Add k f = Some f' \<and> bf_ok f'" using Add_set by blast
  show "\<exists>b. bf_Contains f k = Some b" using Contains_set [OF ok] by blast
next
  fix f k f'
  assume "bf_ok f" and "bf_Add k f = Some f'"
  with Add_set [of f k] show "bf_Contains f' k = Some True"
    by (auto simp: Contains_set positions_cong [of f' f])
next
  fix f k f' k'
  assume "bf_ok f" and "bf_Add k f = Some f'" and "bf_Contains f k' = Some True"
  with Add_set [of f k] show "bf_Contains f' k' = Some True"
    by (auto simp: Contains_set positions_cong [of f' f])
qed

lemma add_all_set:
  assumes "bf_ok bf"
  shows "\<exists>bf'. add_all bf_Add ks bf = Some bf' \<and> bf_ok bf' \<and> bf_m bf' = bf_m bf \<and> bf_k bf' = bf_k bf \<and>
    bf_set bf' = bf_set bf \<union> (\<Union>k \<in> set ks. positions bf k)"
  using assms
proof (induction ks arbitrary: bf)
  case (Cons k ks)
  obtain g where g: "bf_Add k bf = Some g" "bf_ok g" "bf_m g = bf_m bf" "bf_k g = bf_k bf"
    "bf_set g = bf_set bf \<union> positions bf k" using Add_set [OF Cons.prems] by blast
  from Cons.IH [OF g(2)] g show ?case by (auto simp: positions_cong [of g bf])
qed simp

lemma bf_set_new: "bf_set (NewBloomFilter calc_m calc_k n p) = {}"
  by (auto simp: NewBloomFilter_def bf_set_def Let_def)

lemma positions_new:
  "positions (NewBloomFilter calc_m calc_k n p) key =
     (\<lambda>i. bf_hash key (of_nat i) mod calc_m n p) ` {..<unat (calc_k (calc_m n p) n)}"
  by (simp add: positions_def bf_seeds_def NewBloomFilter_def Let_def image_image atLeast0LessThan)

lemma covered_iff:
  "f k ` {..<n::nat} \<subseteq> (\<Union>k' \<in> S. f k' ` {..<n}) \<longleftrightarrow> (\<forall>i < n. \<exists>k' \<in> S. \<exists>j < n. f k i = f k' j)"
  by (fastforce simp: image_iff)

lemma NewBloomFilter_ok:
  assumes "calc_m n p \<noteq> 0" and "calc_m n p \<le> - 64"
  shows "bf_ok (NewBloomFilter calc_m calc_k n p)"
proof -
  let ?m = "calc_m n p"
  have "unat ?m \<le> unat (- 64 :: u64)" using assms(2) by (simp add: word_le_nat_alt)
  then have "unat ?m + 63 < 2 ^ LENGTH(64)" by simp
  then have "unat (?m + 63) = unat ?m + 63" by (simp add: unat_word_ariths)
  then have "unat ((?m + 63) div 64) = (unat ?m + 63) div 64" by (simp add: unat_div_64)
  moreover have "unat ?m \<le> 64 * ((unat ?m + 63) div 64)" by linarith
  ultimately show ?thesis using assms(1) by (simp add: NewBloomFilter_def bf_ok_def Let_def)
qed

subsection \<open>Properties\<close>

text \<open>
  C20: a new filter to which any list of keys has been added contains exactly the keys all
  of whose bit positions are positions of added keys. So there are no false negatives, an
  empty filter with at least one hash function rejects every key, and a false positive is
  a covering of positions. The hypothesis is that the computed size is positive and at most
  \<open>2^64 - 64\<close>, where \<open>m+63\<close> does not wrap.
\<close>

theorem bloom_contains_iff_covered:
  assumes "calc_m n p \<noteq> 0" and "calc_m n p \<le> - 64"
  shows "\<exists>bf. add_all bf_Add ks (NewBloomFilter calc_m calc_k n p) = Some bf \<and> bf_ok bf \<and>
    (\<forall>k \<in> set ks. bf_Contains bf k = Some True) \<and>
    (\<forall>k. bf_Contains bf k = Some (\<forall>i < unat (calc_k (calc_m n p) n). \<exists>k' \<in> set ks. \<exists>j < unat (calc_k (calc_m n p) n).
       bf_hash k (of_nat i) mod calc_m n p = bf_hash k' (of_nat j) mod calc_m n p))"
proof -
  let ?new = "NewBloomFilter calc_m calc_k n p"
  have ok: "bf_ok ?new" using assms by (rule NewBloomFilter_ok)
  obtain bf where bf: "add_all bf_Add ks ?new = Some bf" "bf_ok bf" "bf_m bf = bf_m ?new" "bf_k bf = bf_k ?new"
    "bf_set bf = (\<Union>k \<in> set ks. positions ?new k)"
    using add_all_set [OF ok, of ks] by (auto simp: bf_set_new)
  have mem: "\<forall>k \<in> set ks. bf_Contains bf k = Some True" using bloom.add_all_contains [OF ok, of ks] bf(1) by auto
  have "bf_Contains bf k = Some (positions ?new k \<subseteq> (\<Union>k' \<in> set ks. positions ?new k'))" for k
    using bf by (simp add: Contains_set positions_cong [OF bf(3,4)])
  then have "bf_Contains bf k = Some (\<forall>i < unat (calc_k (calc_m n p) n). \<exists>k' \<in> set ks. \<exists>j < unat (calc_k (calc_m n p) n).
       bf_hash k (of_nat i) mod calc_m n p = bf_hash k' (of_nat j) mod calc_m n p)" for k
    by (simp only: positions_new covered_iff [of "\<lambda>k i. bf_hash k (of_nat i) mod calc_m n p"])
  with bf(1,2) mem show ?thesis by blast
qed

theorem bloom_contains_iff_covered_witness:
  "\<exists>bf. add_all bf_Add [''a'', ''b''] (NewBloomFilter (\<lambda>n p. 1000) (\<lambda>m n. 2) 100 ()) = Some bf \<and>
    bf_Contains bf ''a'' = Some True \<and> bf_Contains bf ''zz'' = Some False"
proof -
  let ?h = "\<lambda>k i. bf_hash k (of_nat i) mod 1000"
  have new: "?h ''zz'' 0 \<notin> {?h ''a'' 0, ?h ''a'' 1, ?h ''b'' 0, ?h ''b'' 1}" by code_simp
  have "\<not> (\<forall>i < 2. \<exists>k' \<in> set [''a'', ''b'']. \<exists>j < 2. ?h ''zz'' i = ?h k' j)"
    using new by (auto intro!: exI [of _ "0::nat"] dest!: less_2_cases)
  moreover obtain bf where
    "add_all bf_Add [''a'', ''b''] (NewBloomFilter (\<lambda>n p. 1000) (\<lambda>m n. 2) 100 ()) = Some bf"
    "\<forall>k \<in> set [''a'', ''b'']. bf_Contains bf k = Some True"
    "\<forall>k. bf_Contains bf k = Some (\<forall>i < unat (2::u64). \<exists>k' \<in> set [''a'', ''b'']. \<exists>j < unat (2::u64). ?h k i = ?h k' j)"
    using bloom_contains_iff_covered [of "\<lambda>n p. 1000" 100 "()" "[''a'', ''b'']" "\<lambda>m n. 2"] word_le_nat_alt by fastforce
  ultimately show ?thesis by auto
qed

text \<open>
  Only the low byte of the seed enters the hash (\<open>byte(seed)\<close>), so the filter never has
  more than 256 different hash functions: seeds that agree modulo 256 give the same position.
\<close>

lemma bloom_hash_seed_byte:
  "bf_hash key (of_nat (i + 256 * j)) = bf_hash key (of_nat i)"
proof -
  have "(ucast (of_nat (i + 256 * j) :: u64) :: u8) = ucast (of_nat i :: u64)"
    by (simp add: unsigned_of_nat word_of_nat_eq_iff take_bit_eq_mod mod_mod_cancel del: of_nat_add of_nat_mult)
  then show ?thesis by (simp add: bf_hash_def Let_def)
qed

end
