(* ===== verification/Policy.thy ===== *)
theory Policy
  imports Cache_Layer Bloom
begin

text \<open>
  \<^verbatim>\<open>policy.go\<close>: the policy layer \<open>CachePolicy\<close> over the storage layer: the Bloom
  filter in front of every read, the load from the source on a miss with its double check
  and placeholder, and the jitter on expiry times. One call is modelled as it runs alone:
  \<open>singleflight.Do\<close> runs the function and turns a panic into an error (\<open>ErrPanic\<close>). The
  only panic the function can have on a well-formed cache is the call on the nil store in its
  first statement, before it changes anything, so the state after a panic is the state before.

  The loader is a parameter: a function of the key and of the state \<open>w\<close> of the world outside
  that returns the bytes (or \<open>None\<close>, an error) and the next state. The readings of the clock,
  of the random source and of map iteration are the fields of \<open>reads\<close>.
\<close>

record CachePolicy =
  p_cache :: Cache
  p_bf :: "BloomFilter option"
  p_opts :: CacheOptions

record reads =
  rd_t1 :: int
  rd_t2 :: int
  rd_c1 :: int
  rd_c2 :: int
  rd_until0 :: int
  rd_add :: int
  rd_until :: int
  rd_now :: int
  rd_now2 :: int
  rd_ks :: "string list"
  rd_rand :: "int \<Rightarrow> int"

definition NewCachePolicy ::
  "(u64 \<Rightarrow> float64 \<Rightarrow> u64) \<Rightarrow> (u64 \<Rightarrow> u64 \<Rightarrow> u64) \<Rightarrow> Cache \<Rightarrow> CacheOptions \<Rightarrow> CachePolicy" where
  "NewCachePolicy calc_m calc_k cache opts =
     \<lparr>p_cache = cache,
      p_bf = Some (NewBloomFilter calc_m calc_k (co_ExpectedElements opts) (co_FalsePositiveRate opts)),
      p_opts = opts\<rparr>"

text \<open>\<open>rnd n\<close> is \<open>rand.Int63n(n)\<close>.\<close>

definition addJitter :: "(int \<Rightarrow> int) \<Rightarrow> int \<Rightarrow> int" where
  "addJitter rnd duration =
     (if duration \<le> time_Second then duration
      else let jitterRange = duration div 10;
               jitter = rnd (jitterRange * 2) - jitterRange
           in wrap64 (duration + jitter))"

definition Policy_Set ::
  "reads \<Rightarrow> string \<Rightarrow> ByteView \<Rightarrow> CachePolicy \<Rightarrow> (ByteView event list \<times> CachePolicy) option" where
  "Policy_Set rd key val p = do {
     (ev, c) \<leftarrow>
       (if co_DefaultTTL (p_opts p) > 0 then
          let expiration = addJitter (rd_rand rd) (co_DefaultTTL (p_opts p))
          in Cache_SetWithExpiration (rd_until rd) (rd_now rd) (rd_now2 rd) (rd_ks rd) key val
               (rd_add rd + expiration) (p_cache p)
        else Cache_Set (rd_now rd) (rd_now2 rd) (rd_ks rd) key val (p_cache p));
     Some (ev, p\<lparr>p_cache := c\<rparr>)
   }"

definition Policy_SetWithExpiration ::
  "reads \<Rightarrow> string \<Rightarrow> ByteView \<Rightarrow> int \<Rightarrow> CachePolicy \<Rightarrow> (ByteView event list \<times> CachePolicy) option" where
  "Policy_SetWithExpiration rd key val expirationTime p =
     (let expiration = time_Sub expirationTime (rd_until0 rd) in
      if expiration \<le> 0 then Some ([], p)
      else do {
        (ev, c) \<leftarrow> Cache_SetWithExpiration (rd_until rd) (rd_now rd) (rd_now2 rd) (rd_ks rd) key val
          (rd_add rd + addJitter (rd_rand rd) expiration) (p_cache p);
        Some (ev, p\<lparr>p_cache := c\<rparr>)
      })"

definition Policy_Delete :: "string \<Rightarrow> CachePolicy \<Rightarrow> (bool \<times> ByteView event list \<times> CachePolicy) option" where
  "Policy_Delete key p = do { (r, ev, c) \<leftarrow> Cache_Delete key (p_cache p); Some (r, ev, p\<lparr>p_cache := c\<rparr>) }"

definition Policy_Clear ::
  "(string list \<Rightarrow> string list) \<Rightarrow> CachePolicy \<Rightarrow> (ByteView event list \<times> CachePolicy) option" where
  "Policy_Clear ord p = do { (ev, c) \<leftarrow> Cache_Clear ord (p_cache p); Some (ev, p\<lparr>p_cache := c\<rparr>) }"

definition Policy_Close :: "CachePolicy \<Rightarrow> CachePolicy option" where
  "Policy_Close p = do { c \<leftarrow> Cache_Close (p_cache p); Some (p\<lparr>p_cache := c\<rparr>) }"

definition Policy_Stats :: "CachePolicy \<Rightarrow> CacheStats option" where
  "Policy_Stats p = Cache_Stats (p_cache p)"

text \<open>The function that \<open>loadFromSource\<close> passes to \<open>singleflight\<close>.\<close>

definition bf_add_opt :: "string \<Rightarrow> BloomFilter option \<Rightarrow> BloomFilter option option" where
  "bf_add_opt key b = (case b of None \<Rightarrow> Some None | Some bf \<Rightarrow> map_option Some (bf_Add key bf))"

definition load_fn ::
  "reads \<Rightarrow> (string \<Rightarrow> 'w \<Rightarrow> slice option \<times> 'w) \<Rightarrow> string \<Rightarrow> CachePolicy \<Rightarrow> 'w
    \<Rightarrow> ((cache_error + ByteView) \<times> ByteView event list \<times> CachePolicy \<times> 'w) option" where
  "load_fn rd loader key p w = do {
     st \<leftarrow> ca_store (p_cache p);
     (r, ev, st) \<leftarrow> store_Get (rd_c1 rd) (rd_c2 rd) key st;
     let p = p\<lparr>p_cache := (p_cache p)\<lparr>ca_store := Some st\<rparr>\<rparr>;
     case r of
       Some (Some (ByteView (Some bs))) \<Rightarrow> Some (Inr (ByteView (Some bs)), ev, p, w)
     | _ \<Rightarrow>
         (case loader key w of
            (None, w) \<Rightarrow> do {
              (ev', c) \<leftarrow> Cache_SetWithExpiration (rd_until rd) (rd_now rd) (rd_now2 rd) (rd_ks rd) key
                 (ByteView None) (rd_add rd + time_Minute) (p_cache p);
              Some (Inl ErrLoaderFailed, ev @ ev', p\<lparr>p_cache := c\<rparr>, w)
            }
          | (Some bytes, w) \<Rightarrow> do {
              let data = ByteView bytes;
              (ev', p) \<leftarrow> Policy_Set rd key data p;
              bf \<leftarrow> bf_add_opt key (p_bf p);
              Some (Inr data, ev @ ev', p\<lparr>p_bf := bf\<rparr>, w)
            })
   }"

text \<open>\<open>singleflight.Do\<close> for a call that runs alone.\<close>

definition sf_Do ::
  "('s \<Rightarrow> 'w \<Rightarrow> ((cache_error + 'r) \<times> 'e list \<times> 's \<times> 'w) option) \<Rightarrow> 's \<Rightarrow> 'w
    \<Rightarrow> (cache_error + 'r) \<times> 'e list \<times> 's \<times> 'w" where
  "sf_Do fn s w = (case fn s w of Some r \<Rightarrow> r | None \<Rightarrow> (Inl ErrPanic, [], s, w))"

definition loadFromSource ::
  "reads \<Rightarrow> (string \<Rightarrow> 'w \<Rightarrow> slice option \<times> 'w) \<Rightarrow> string \<Rightarrow> CachePolicy \<Rightarrow> 'w
    \<Rightarrow> (cache_error + ByteView) \<times> ByteView event list \<times> CachePolicy \<times> 'w" where
  "loadFromSource rd loader key p w =
     (case sf_Do (load_fn rd loader key) p w of
        (Inl err, ev, p, w) \<Rightarrow> (Inl err, ev, p\<lparr>p_cache := add_miss (p_cache p)\<rparr>, w)
      | (Inr view, ev, p, w) \<Rightarrow> (Inr view, ev, p\<lparr>p_cache := add_hit (p_cache p)\<rparr>, w))"

definition Policy_Get ::
  "reads \<Rightarrow> (string \<Rightarrow> 'w \<Rightarrow> slice option \<times> 'w) \<Rightarrow> string \<Rightarrow> CachePolicy \<Rightarrow> 'w
    \<Rightarrow> ((cache_error + ByteView) \<times> ByteView event list \<times> CachePolicy \<times> 'w) option" where
  "Policy_Get rd loader key p w = do {
     present \<leftarrow> (case p_bf p of None \<Rightarrow> Some True | Some bf \<Rightarrow> bf_Contains bf key);
     if \<not> present then Some (Inl ErrBloomRejected, [], p, w)
     else do {
       (r, ev, c) \<leftarrow> Cache_Get (rd_t1 rd) (rd_t2 rd) key (p_cache p);
       let p = p\<lparr>p_cache := c\<rparr>;
       case r of
         Inr val \<Rightarrow> Some (Inr val, ev, p, w)
       | Inl err \<Rightarrow> (case loadFromSource rd loader key p w of (r, ev', p, w) \<Rightarrow> Some (r, ev @ ev', p, w))
     }
   }"

subsection \<open>Operations as steps\<close>

datatype policy_op =
    PGet reads string
  | PSet reads string ByteView
  | PSetExp reads string ByteView int
  | PDelete string
  | PClear "string list \<Rightarrow> string list"
  | PClose
  | PStats

datatype policy_out = PRGet "cache_error + ByteView" | PRDone | PRBool bool | PRStats CacheStats

primrec policy_step ::
  "(string \<Rightarrow> 'w \<Rightarrow> slice option \<times> 'w) \<Rightarrow> policy_op \<Rightarrow> CachePolicy \<times> 'w
    \<Rightarrow> (policy_out \<times> CachePolicy \<times> 'w) option" where
  "policy_step loader (PGet rd k) s =
     do { (r, ev, p, w) \<leftarrow> Policy_Get rd loader k (fst s) (snd s); Some (PRGet r, p, w) }"
| "policy_step loader (PSet rd k v) s = do { (ev, p) \<leftarrow> Policy_Set rd k v (fst s); Some (PRDone, p, snd s) }"
| "policy_step loader (PSetExp rd k v e) s =
     do { (ev, p) \<leftarrow> Policy_SetWithExpiration rd k v e (fst s); Some (PRDone, p, snd s) }"
| "policy_step loader (PDelete k) s = do { (r, ev, p) \<leftarrow> Policy_Delete k (fst s); Some (PRBool r, p, snd s) }"
| "policy_step loader (PClear ord) s = do { (ev, p) \<leftarrow> Policy_Clear ord (fst s); Some (PRDone, p, snd s) }"
| "policy_step loader PClose s = do { p \<leftarrow> Policy_Close (fst s); Some (PRDone, p, snd s) }"
| "policy_step loader PStats s = do { st \<leftarrow> Policy_Stats (fst s); Some (PRStats st, s) }"

definition rd0 :: reads where
  "rd0 = \<lparr>rd_t1 = 100, rd_t2 = 100, rd_c1 = 100, rd_c2 = 100, rd_until0 = 100, rd_add = 100, rd_until = 100,
     rd_now = 100, rd_now2 = 100, rd_ks = [], rd_rand = (\<lambda>n. 0)\<rparr>"

subsection \<open>Jitter\<close>

text \<open>
  The jittered expiry stays within 10 percent of the given duration, is positive and at
  most the duration plus a tenth, for every result of the random source, as long as the
  duration is below ten elevenths of the largest \<open>Duration\<close>; up to one second it is
  unchanged. The range passed to the random source is positive, so that call never panics.
\<close>

lemma addJitter_within_tenth:
  assumes "0 < d" and "d \<le> MaxInt64 div 11 * 10" and "\<And>n. 0 < n \<Longrightarrow> 0 \<le> rnd n \<and> rnd n < n"
  shows "(d \<le> time_Second \<longrightarrow> addJitter rnd d = d) \<and>
    (time_Second < d \<longrightarrow> 0 < d div 10 * 2 \<and> d - d div 10 \<le> addJitter rnd d \<and> addJitter rnd d < d + d div 10) \<and>
    0 < addJitter rnd d"
proof (cases "d \<le> time_Second")
  case True
  then show ?thesis using assms(1) by (simp add: addJitter_def)
next
  case False
  then have big: "1000000000 < d" by (simp add: time_Second_def)
  let ?n = "d div 10 * 2"
  have r: "0 \<le> rnd ?n" "rnd ?n < ?n" using assms(3) [of ?n] big by auto
  have "d div 10 * 10 \<le> d" by simp
  moreover have "d \<le> 8384883669867978000" using assms(2) by (simp add: MaxInt64_def)
  ultimately have "in_int64 (d + (rnd ?n - d div 10))" using r big unfolding in_int64_def by simp
  then have "addJitter rnd d = d + (rnd ?n - d div 10)" using False by (simp add: addJitter_def Let_def wrap64_id)
  with r False big show ?thesis by auto
qed

lemma addJitter_within_tenth_witness:
  "0 < addJitter (\<lambda>n. n - 1) 60000000000 \<and> addJitter (\<lambda>n. n - 1) 60000000000 < 66000000000"
  using addJitter_within_tenth [of 60000000000 "\<lambda>n. n - 1"] by (simp add: MaxInt64_def time_Second_def)

text \<open>
  Without that bound the addition overflows: for the largest \<open>Duration\<close> the jittered
  expiry can be negative, and the write is dropped as already expired.
\<close>

lemma addJitter_overflow_drops_write:
  "addJitter (\<lambda>n. n - 1) MaxInt64 < 0 \<and>
    (\<forall>t now now2 ks k v c. \<not> ca_closed c \<longrightarrow>
       Cache_SetWithExpiration t now now2 ks k v (t + addJitter (\<lambda>n. n - 1) MaxInt64) c = Some ([], ensureInitialized c))"
proof -
  have j: "addJitter (\<lambda>n. n - 1) MaxInt64 = - 8301034833169298230" by code_simp
  show ?thesis unfolding j by (simp add: Cache_SetWithExpiration_def Let_def time_Sub_def MaxInt64_def)
qed

lemma addJitter_overflow_drops_write_witness:
  "Cache_SetWithExpiration 5 5 5 [] ''k'' (ByteView (Some [1])) (5 + addJitter (\<lambda>n. n - 1) MaxInt64) (NewCache DefaultCacheOptions)
    = Some ([], ensureInitialized (NewCache DefaultCacheOptions))"
  using addJitter_overflow_drops_write by (simp add: NewCache_def)

subsection \<open>Invariant\<close>

definition policy_ok :: "CachePolicy \<Rightarrow> bool" where
  "policy_ok p \<longleftrightarrow> cache_ok (p_cache p) \<and> (\<forall>bf. p_bf p = Some bf \<longrightarrow> bf_ok bf)"

text \<open>The filter lets the key pass.\<close>

definition passes :: "string \<Rightarrow> CachePolicy \<Rightarrow> bool" where
  "passes key p \<longleftrightarrow> (case p_bf p of None \<Rightarrow> True | Some bf \<Rightarrow> bf_Contains bf key = Some True)"

lemma cache_upd_ok [simp]: "policy_ok p \<Longrightarrow> cache_ok c \<Longrightarrow> policy_ok (p\<lparr>p_cache := c\<rparr>)"
  by (simp add: policy_ok_def)

lemma Policy_Set_ok:
  assumes "policy_ok p"
  shows "\<exists>ev c. Policy_Set rd k v p = Some (ev, p\<lparr>p_cache := c\<rparr>) \<and> cache_ok c"
proof -
  have ok: "cache_ok (p_cache p)" using assms by (simp add: policy_ok_def)
  show ?thesis
    using Cache_Set_ok [OF ok, of "rd_now rd" "rd_now2 rd" "rd_ks rd" k v]
      Cache_SetWithExpiration_ok [OF ok, of "rd_until rd" "rd_now rd" "rd_now2 rd" "rd_ks rd" k v
        "rd_add rd + addJitter (rd_rand rd) (co_DefaultTTL (p_opts p))"]
    by (cases "co_DefaultTTL (p_opts p) > 0") (auto simp: Policy_Set_def Let_def)
qed

lemma Policy_SetExp_ok:
  assumes "policy_ok p"
  shows "\<exists>ev c. Policy_SetWithExpiration rd k v e p = Some (ev, p\<lparr>p_cache := c\<rparr>) \<and> cache_ok c"
proof -
  have ok: "cache_ok (p_cache p)" using assms by (simp add: policy_ok_def)
  show ?thesis
  proof (cases "time_Sub e (rd_until0 rd) \<le> 0")
    case True
    then have "Policy_SetWithExpiration rd k v e p = Some ([], p\<lparr>p_cache := p_cache p\<rparr>)"
      by (simp add: Policy_SetWithExpiration_def Let_def)
    with ok show ?thesis by blast
  next
    case False
    with Cache_SetWithExpiration_ok [OF ok, of "rd_until rd" "rd_now rd" "rd_now2 rd" "rd_ks rd" k v
        "rd_add rd + addJitter (rd_rand rd) (time_Sub e (rd_until0 rd))"]
    show ?thesis by (auto simp: Policy_SetWithExpiration_def Let_def)
  qed
qed

lemma bf_add_opt_ok:
  assumes "policy_ok p"
  shows "\<exists>b. bf_add_opt k (p_bf p) = Some b \<and> (\<forall>bf. b = Some bf \<longrightarrow> bf_ok bf)"
  using assms bloom.add_wf [of _ k] by (cases "p_bf p") (fastforce simp: bf_add_opt_def policy_ok_def)+

lemma load_fn_uninit: "ca_store (p_cache p) = None \<Longrightarrow> load_fn rd loader k p w = None"
  by (simp add: load_fn_def)

lemma load_fn_ok:
  assumes "policy_ok p" and "ca_initialized (p_cache p)"
  shows "\<exists>r ev p' w'. load_fn rd loader k p w = Some (r, ev, p', w') \<and> policy_ok p' \<and>
    ((\<exists>bs. r = Inr (ByteView (Some bs)) \<and> w' = w) \<or>
     (w' = snd (loader k w) \<and> r = (case fst (loader k w) of None \<Rightarrow> Inl ErrLoaderFailed | Some b \<Rightarrow> Inr (ByteView b))))"
proof -
  have cok: "cache_ok (p_cache p)" using assms(1) by (simp add: policy_ok_def)
  obtain st where st: "ca_store (p_cache p) = Some st" "store_ok bv_Len st" using open_store [OF cok assms(2)] by blast
  obtain r ev st' where g: "store_Get (rd_c1 rd) (rd_c2 rd) k st = Some (r, ev, st')" "store_ok bv_Len st'"
    using store.get_totalE [OF st(2)] .
  define p1 where "p1 = p\<lparr>p_cache := (p_cache p)\<lparr>ca_store := Some st'\<rparr>\<rparr>"
  have p1: "policy_ok p1" using assms cok g(2) by (simp add: p1_def store_upd_ok)
  obtain lr w1 where l: "loader k w = (lr, w1)" by fastforce
  obtain ev1 c1 where c1: "Cache_SetWithExpiration (rd_until rd) (rd_now rd) (rd_now2 rd) (rd_ks rd) k (ByteView None)
      (rd_add rd + time_Minute) (p_cache p1) = Some (ev1, c1)" "cache_ok c1"
    using Cache_SetWithExpiration_ok [of "p_cache p1"] p1 unfolding policy_ok_def by blast
  have fetch: "(\<exists>bs. r = Some (Some (ByteView (Some bs)))) \<or>
     load_fn rd loader k p w = (case lr of
        None \<Rightarrow> Some (Inl ErrLoaderFailed, ev @ ev1, p1\<lparr>p_cache := c1\<rparr>, w1)
      | Some b \<Rightarrow> do { (ev', p) \<leftarrow> Policy_Set rd k (ByteView b) p1; bf \<leftarrow> bf_add_opt k (p_bf p);
                     Some (Inr (ByteView b), ev @ ev', p\<lparr>p_bf := bf\<rparr>, w1) })"
    using st(1) g(1) l c1(1)
    by (auto simp: load_fn_def p1_def Let_def split: option.split ByteView.split)
  show ?thesis
  proof (cases "\<exists>bs. r = Some (Some (ByteView (Some bs)))")
    case True
    then obtain bs where "r = Some (Some (ByteView (Some bs)))" by blast
    with st(1) g(1) p1 show ?thesis by (simp add: load_fn_def p1_def Let_def)
  next
    case False
    show ?thesis
    proof (cases lr)
      case None
      with False fetch p1 c1(2) l show ?thesis by simp
    next
      case (Some b)
      obtain ev' c' where s: "Policy_Set rd k (ByteView b) p1 = Some (ev', p1\<lparr>p_cache := c'\<rparr>)" "cache_ok c'"
        using Policy_Set_ok [OF p1] by blast
      obtain bf where "bf_add_opt k (p_bf p1) = Some bf" "\<forall>x. bf = Some x \<longrightarrow> bf_ok x" using bf_add_opt_ok [OF p1] by blast
      with False fetch Some s l show ?thesis by (simp add: policy_ok_def)
    qed
  qed
qed

lemma Cache_Get_init:
  assumes "cache_ok c" and "ca_initialized c"
  shows "\<exists>r ev c'. Cache_Get t1 t2 k c = Some (r, ev, c') \<and> cache_ok c' \<and> ca_initialized c'"
proof -
  obtain st where st: "ca_store c = Some st" "store_ok bv_Len st" "\<not> ca_closed c" using open_store [OF assms] .
  obtain r ev st' where r: "store_Get t1 t2 k st = Some (r, ev, st')" "store_ok bv_Len st'"
    using store.get_totalE [OF st(2)] .
  with assms st show ?thesis
    by (auto simp: Cache_Get_def Let_def add_miss_def add_hit_def cache_ok_def split: option.split)
qed

lemma Policy_Get_init:
  assumes "policy_ok p" and "ca_initialized (p_cache p)" and "passes k p"
  shows "\<exists>r ev p' w'. Policy_Get rd loader k p w = Some (r, ev, p', w') \<and> policy_ok p' \<and>
    ((\<exists>v. r = Inr v \<and> w' = w) \<or>
     (w' = snd (loader k w) \<and> r = (case fst (loader k w) of None \<Rightarrow> Inl ErrLoaderFailed | Some b \<Rightarrow> Inr (ByteView b))))"
proof -
  have cok: "cache_ok (p_cache p)" using assms(1) by (simp add: policy_ok_def)
  obtain r ev c where c: "Cache_Get (rd_t1 rd) (rd_t2 rd) k (p_cache p) = Some (r, ev, c)" "cache_ok c" "ca_initialized c"
    using Cache_Get_init [OF cok assms(2)] by blast
  have pass: "(case p_bf p of None \<Rightarrow> Some True | Some bf \<Rightarrow> bf_Contains bf k) = Some True"
    using assms(3) by (simp add: passes_def split: option.splits)
  let ?p = "p\<lparr>p_cache := c\<rparr>"
  have p: "policy_ok ?p" using assms(1) c(2) by simp
  show ?thesis
  proof (cases r)
    case (Inr v)
    with pass c(1) p show ?thesis by (simp add: Policy_Get_def Let_def)
  next
    case (Inl err)
    from load_fn_ok [OF p, of rd loader k w] c(3) obtain lr ev' p' w' where
      l: "load_fn rd loader k ?p w = Some (lr, ev', p', w')" "policy_ok p'"
      "(\<exists>bs. lr = Inr (ByteView (Some bs)) \<and> w' = w) \<or> (w' = snd (loader k w) \<and>
        lr = (case fst (loader k w) of None \<Rightarrow> Inl ErrLoaderFailed | Some b \<Rightarrow> Inr (ByteView b)))" by auto
    have "\<exists>p''. Policy_Get rd loader k p w = Some (lr, ev @ ev', p'', w') \<and> policy_ok p''"
      using Inl pass c(1) l(1,2)
      by (auto simp: Policy_Get_def loadFromSource_def sf_Do_def policy_ok_def Let_def split: sum.split)
    with l(3) show ?thesis by blast
  qed
qed

lemma Policy_Get_ok:
  assumes "policy_ok p"
  shows "\<exists>r ev p' w'. Policy_Get rd loader k p w = Some (r, ev, p', w') \<and> policy_ok p' \<and> (w' = w \<or> w' = snd (loader k w))"
proof (cases "passes k p \<and> ca_initialized (p_cache p)")
  case True
  with Policy_Get_init [OF assms, of k rd loader w] show ?thesis by blast
next
  case False
  have cok: "cache_ok (p_cache p)" using assms by (simp add: policy_ok_def)
  obtain b where b: "(case p_bf p of None \<Rightarrow> Some True | Some bf \<Rightarrow> bf_Contains bf k) = Some b" "passes k p \<longleftrightarrow> b"
    using assms Contains_set [of _ k] by (cases "p_bf p") (auto simp: policy_ok_def passes_def)
  have init: "ca_store (p_cache p) = None" "\<not> ca_initialized (p_cache p)" if b
    using that False b(2) cok by (auto simp: cache_ok_def)
  show ?thesis
  proof (cases b)
    case True
    show ?thesis using b(1) True init [OF True] assms cok
      by (auto simp: Policy_Get_def Cache_Get_def loadFromSource_def sf_Do_def load_fn_uninit add_miss_def Let_def policy_ok_def cache_ok_def)
  qed (use b(1) assms in \<open>simp add: Policy_Get_def\<close>)
qed



subsection \<open>The filter of a new policy\<close>

definition virgin :: "CachePolicy \<Rightarrow> bool" where
  "virgin p \<longleftrightarrow> policy_ok p \<and> (\<exists>bf. p_bf p = Some bf \<and> bf_set bf = {} \<and> bf_k bf \<noteq> 0)"

lemma empty_filter_rejects:
  assumes "bf_ok bf" and "bf_set bf = {}" and "bf_k bf \<noteq> 0"
  shows "bf_Contains bf key = Some False"
proof -
  have "0 < unat (bf_k bf)" using assms(3) by (simp add: unat_gt_0)
  then have "positions bf key \<noteq> {}" by (simp add: positions_def bf_seeds_def)
  then show ?thesis using Contains_set [OF assms(1)] assms(2) by simp
qed

lemma virgin_Get: "virgin p \<Longrightarrow> Policy_Get rd loader k p w = Some (Inl ErrBloomRejected, [], p, w)"
  using empty_filter_rejects by (auto simp: virgin_def policy_ok_def Policy_Get_def)

lemma virgin_step:
  assumes "virgin p"
  shows "\<exists>out p'. policy_step loader x (p, w) = Some (out, p', w) \<and> virgin p' \<and>
    (\<forall>r. out = PRGet r \<longrightarrow> r = Inl ErrBloomRejected)"
proof -
  have ok: "policy_ok p" and cok: "cache_ok (p_cache p)" using assms by (simp_all add: virgin_def policy_ok_def)
  have upd: "virgin (p\<lparr>p_cache := c\<rparr>)" if "cache_ok c" for c using assms that by (simp add: virgin_def policy_ok_def)
  show ?thesis
  proof (cases x)
    case (PGet rd k)
    with virgin_Get [OF assms, of rd loader k w] assms show ?thesis by simp
  next
    case (PSet rd k v)
    with Policy_Set_ok [OF ok, of rd k v] upd show ?thesis by auto
  next
    case (PSetExp rd k v e)
    with Policy_SetExp_ok [OF ok, of rd k v e] upd show ?thesis by auto
  next
    case (PDelete k)
    with Cache_Delete_ok [OF cok, of k] upd show ?thesis by (auto simp: Policy_Delete_def)
  next
    case (PClear ord)
    with Cache_Clear_ok [OF cok, of ord] upd show ?thesis by (auto simp: Policy_Clear_def)
  next
    case PClose
    with Cache_Close_ok [OF cok] upd show ?thesis by (auto simp: Policy_Close_def)
  next
    case PStats
    with Cache_Stats_ok [OF cok] assms show ?thesis by (auto simp: Policy_Stats_def)
  qed
qed

lemma virgin_run:
  "virgin p \<Longrightarrow> \<exists>outs p'. run_ops (policy_step loader) ops (p, w) = Some (outs, p', w) \<and>
     (\<forall>r. PRGet r \<in> set outs \<longrightarrow> r = Inl ErrBloomRejected)"
proof (induction ops arbitrary: p)
  case (Cons x ops)
  obtain out p1 where "policy_step loader x (p, w) = Some (out, p1, w)" "virgin p1"
    "\<forall>r. out = PRGet r \<longrightarrow> r = Inl ErrBloomRejected" using virgin_step [OF Cons.prems, of loader x w] by blast
  with Cons.IH [OF this(2)] show ?case by auto
qed simp

lemma NewCachePolicy_virgin:
  assumes "opts_ok (store_options opts)"
    and "calc_m (co_ExpectedElements opts) (co_FalsePositiveRate opts) \<noteq> 0"
    and "calc_m (co_ExpectedElements opts) (co_FalsePositiveRate opts) \<le> - 64"
    and "calc_k (calc_m (co_ExpectedElements opts) (co_FalsePositiveRate opts)) (co_ExpectedElements opts) \<noteq> 0"
  shows "virgin (NewCachePolicy calc_m calc_k (NewCache opts) opts)"
proof -
  let ?bf = "NewBloomFilter calc_m calc_k (co_ExpectedElements opts) (co_FalsePositiveRate opts)"
  have "bf_ok ?bf" using assms(2,3) by (rule NewBloomFilter_ok)
  moreover have "bf_set ?bf = {}" by (rule bf_set_new)
  moreover have "bf_k ?bf \<noteq> 0" using assms(4) by (simp add: NewBloomFilter_def Let_def)
  ultimately show ?thesis using NewCache_ok [OF assms(1)] by (simp add: virgin_def policy_ok_def NewCachePolicy_def)
qed

text \<open>
  A new policy rejects every read, for ever. Keys enter the Bloom filter only after a
  load from the source, and a load is only tried for keys the filter contains; \<open>Set\<close> does not
  add its key. So with a filter of positive size and at least one hash function, after every
  sequence of operations each \<open>Get\<close> answers \<open>ErrBloomRejected\<close>, also for keys that were
  set, and the loader is never called.
\<close>

theorem policy_bloom_rejects_every_get:
  assumes "opts_ok (store_options opts)"
    and "calc_m (co_ExpectedElements opts) (co_FalsePositiveRate opts) \<noteq> 0"
    and "calc_m (co_ExpectedElements opts) (co_FalsePositiveRate opts) \<le> - 64"
    and "calc_k (calc_m (co_ExpectedElements opts) (co_FalsePositiveRate opts)) (co_ExpectedElements opts) \<noteq> 0"
  shows "\<exists>outs p'. run_ops (policy_step loader) ops (NewCachePolicy calc_m calc_k (NewCache opts) opts, w) = Some (outs, p', w) \<and>
    (\<forall>r. PRGet r \<in> set outs \<longrightarrow> r = Inl ErrBloomRejected)"
  by (rule virgin_run [OF NewCachePolicy_virgin [where calc_m = calc_m and calc_k = calc_k, OF assms]])

text \<open>The sizes \<open>NewBloomFilter\<close> computes for the default options are 9585059 bits and 7 hashes.\<close>

theorem policy_bloom_rejects_every_get_witness:
  "\<exists>outs p'. run_ops (policy_step (\<lambda>k n. (Some (Some [1]), Suc n)))
      [PSet rd0 ''k'' (ByteView (Some [7])), PGet rd0 ''k'', PGet rd0 ''j'']
      (NewCachePolicy (\<lambda>n p. 9585059) (\<lambda>m n. 7) (NewCache DefaultCacheOptions) DefaultCacheOptions, 0::nat) = Some (outs, p', 0) \<and>
    (\<forall>r. PRGet r \<in> set outs \<longrightarrow> r = Inl ErrBloomRejected)"
  by (rule policy_bloom_rejects_every_get)
    (simp_all add: opts_ok_def store_options_def DefaultCacheOptions_def word_le_nat_alt)

text \<open>
  Without an earlier write a read never loads, whatever the filter says: the store is
  created by writes only, the function passed to \<open>singleflight\<close> calls \<open>Get\<close> on the nil
  store, and the recovered panic is returned as an error. The loader is not called and the
  cache stays uninitialized.
\<close>

lemma policy_get_uninitialized_fails:
  assumes "cache_ok (p_cache p)" and "\<not> ca_initialized (p_cache p)" and "passes k p"
  shows "\<exists>p'. Policy_Get rd loader k p w = Some (Inl ErrPanic, [], p', w) \<and> \<not> ca_initialized (p_cache p')"
proof -
  have "ca_store (p_cache p) = None" using assms(1,2) by (simp add: cache_ok_def)
  moreover have "(case p_bf p of None \<Rightarrow> Some True | Some bf \<Rightarrow> bf_Contains bf k) = Some True"
    using assms(3) by (simp add: passes_def split: option.splits)
  ultimately show ?thesis using assms(2)
    by (simp add: Policy_Get_def Cache_Get_def loadFromSource_def sf_Do_def load_fn_uninit add_miss_def Let_def)
qed

lemma policy_get_uninitialized_fails_witness:
  "\<exists>p'. Policy_Get rd0 (\<lambda>k n. (Some (Some [1]), Suc n)) ''k''
      \<lparr>p_cache = NewCache DefaultCacheOptions, p_bf = None, p_opts = DefaultCacheOptions\<rparr> 0 = Some (Inl ErrPanic, [], p', 0) \<and>
    \<not> ca_initialized (p_cache p')"
  by (rule policy_get_uninitialized_fails)
    (simp_all add: cache_ok_def NewCache_def passes_def opts_ok_def store_options_def DefaultCacheOptions_def)

text \<open>
  The placeholder for missing values does not keep reads from the source. After a failed
  load the nil view is stored for a minute, but both the lookup and the double check treat it
  as absent: the next read within that minute calls the loader again (here the counter of
  loader calls is 2 after two reads).
\<close>

lemma policy_placeholder_does_not_shield:
  "\<exists>outs p'. run_ops (policy_step (\<lambda>k n. (None, Suc n)))
      [PSet rd0 ''a'' (ByteView (Some [1])), PGet rd0 ''k'', PGet (rd0\<lparr>rd_t1 := 200, rd_t2 := 200, rd_c1 := 200, rd_c2 := 200\<rparr>) ''k'']
      (\<lparr>p_cache = NewCache (DefaultCacheOptions\<lparr>co_CacheType := LRU_type\<rparr>), p_bf = None, p_opts = DefaultCacheOptions\<rparr>, 0::nat) =
      Some (outs, p', 2) \<and>
    outs = [PRDone, PRGet (Inl ErrLoaderFailed), PRGet (Inl ErrLoaderFailed)] \<and>
    map_option fst (Option.bind (ca_store (p_cache p')) (store_Get 200 200 ''k'')) = Some (Some (Some (ByteView None)))"
proof -
  let ?run = "run_ops (policy_step (\<lambda>k n. (None, Suc n)))
      [PSet rd0 ''a'' (ByteView (Some [1])), PGet rd0 ''k'', PGet (rd0\<lparr>rd_t1 := 200, rd_t2 := 200, rd_c1 := 200, rd_c2 := 200\<rparr>) ''k'']
      (\<lparr>p_cache = NewCache (DefaultCacheOptions\<lparr>co_CacheType := LRU_type\<rparr>), p_bf = None, p_opts = DefaultCacheOptions\<rparr>, 0::nat)"
  have 1: "\<not> Option.is_none ?run" by code_simp
  have 2: "fst (the ?run) = [PRDone, PRGet (Inl ErrLoaderFailed), PRGet (Inl ErrLoaderFailed)]" by code_simp
  have 3: "snd (snd (the ?run)) = 2" by code_simp
  have 4: "map_option fst (Option.bind (ca_store (p_cache (fst (snd (the ?run))))) (store_Get 200 200 ''k'')) = Some (Some (Some (ByteView None)))"
    by code_simp
  obtain outs p' n where "?run = Some (outs, p', n)" using 1 by (cases ?run) (auto simp del: run_ops.simps)
  with 2 3 4 show ?thesis by (intro exI [of _ outs] exI [of _ p']) (simp del: run_ops.simps)
qed

end
