(* ===== verification/Singleflight.thy ===== *)
theory Singleflight
  imports Prelude
begin

text \<open>
  \<^verbatim>\<open>singleflight/singleflight.go\<close>: concurrent calls of \<open>Do\<close>. Any number of goroutines run
  \<open>Do\<close> on one group; a step of the system is one atomic action of one of them: the \<open>Load\<close>,
  the \<open>Store\<close> of a fresh call, the end of \<open>fn\<close> (its results or a panic, chosen by the
  environment), \<open>wg.Done\<close>, the end of \<open>wg.Wait\<close> with the reading of the result, and the
  \<open>Delete\<close>. The heap of \<open>call\<close> objects is a list, a pointer its index. \<open>sf_log\<close> is a ghost
  field: the runs of \<open>fn\<close> so far with their keys.

  The lemmas show that every call returns (no deadlock, and a bound on the number of steps),
  also when \<open>fn\<close> panics; that what a call returns is the result of a run of \<open>fn\<close> for its own
  key; and that the promise of the comment, one run of \<open>fn\<close> for concurrent calls, does not
  hold, because \<open>Load\<close> and \<open>Store\<close> are two steps.
\<close>

datatype sf_error = ErrFn string | ErrPanicked string

datatype 'v fn_outcome = FnReturn "'v option" "sf_error option" | FnPanic string

record 'v call =
  c_wg :: int
  c_val :: "'v option"
  c_err :: "sf_error option"

text \<open>Where a goroutine is in \<open>Do\<close>.\<close>

datatype 'v pc =
    AtLoad string
  | AtWait string nat
  | AtStore string
  | AtFn string nat
  | AtDone string nat
  | AtDelete string nat
  | Finished string "'v option" "sf_error option"

record 'v sfGroup =
  sf_m :: "(string, nat) gomap"
  sf_calls :: "'v call list"
  sf_threads :: "'v pc list"
  sf_log :: "(string \<times> 'v fn_outcome) list"

definition sf_init :: "string list \<Rightarrow> 'v sfGroup" where
  "sf_init keys = \<lparr>sf_m = [], sf_calls = [], sf_threads = map AtLoad keys, sf_log = []\<rparr>"

text \<open>The deferred function: a panic becomes the error of the call.\<close>

definition set_outcome :: "'v fn_outcome \<Rightarrow> 'v call \<Rightarrow> 'v call" where
  "set_outcome out c =
     (case out of
        FnReturn val err \<Rightarrow> c\<lparr>c_val := val, c_err := err\<rparr>
      | FnPanic r \<Rightarrow> c\<lparr>c_err := Some (ErrPanicked r)\<rparr>)"

definition goto :: "nat \<Rightarrow> 'v pc \<Rightarrow> 'v sfGroup \<Rightarrow> 'v sfGroup" where
  "goto t pc g = g\<lparr>sf_threads := (sf_threads g)[t := pc]\<rparr>"

text \<open>
  The next action of goroutine \<open>t\<close>; \<open>out\<close> is what \<open>fn\<close> does if this is where it ends.
  \<open>None\<close>: the goroutine is blocked in \<open>Wait\<close> or has returned.
\<close>

definition sf_action :: "'v fn_outcome \<Rightarrow> nat \<Rightarrow> 'v sfGroup \<Rightarrow> 'v sfGroup option" where
  "sf_action out t g =
     (case sf_threads g ! t of
        AtLoad key \<Rightarrow>
          (case map_of (sf_m g) key of
             Some c \<Rightarrow> Some (goto t (AtWait key c) g)
           | None \<Rightarrow> Some (goto t (AtStore key) g))
      | AtWait key c \<Rightarrow>
          (if c_wg (sf_calls g ! c) = 0
           then Some (goto t (Finished key (c_val (sf_calls g ! c)) (c_err (sf_calls g ! c))) g)
           else None)
      | AtStore key \<Rightarrow>
          let c = length (sf_calls g) in
          Some (goto t (AtFn key c)
            (g\<lparr>sf_calls := sf_calls g @ [\<lparr>c_wg = 1, c_val = None, c_err = None\<rparr>],
               sf_m := AList.update key c (sf_m g)\<rparr>))
      | AtFn key c \<Rightarrow>
          Some (goto t (AtDone key c)
            (g\<lparr>sf_calls := (sf_calls g)[c := set_outcome out (sf_calls g ! c)], sf_log := sf_log g @ [(key, out)]\<rparr>))
      | AtDone key c \<Rightarrow>
          Some (goto t (AtDelete key c)
            (g\<lparr>sf_calls := (sf_calls g)[c := (sf_calls g ! c)\<lparr>c_wg := c_wg (sf_calls g ! c) - 1\<rparr>]\<rparr>))
      | AtDelete key c \<Rightarrow>
          Some (goto t (Finished key (c_val (sf_calls g ! c)) (c_err (sf_calls g ! c)))
            (g\<lparr>sf_m := AList.delete key (sf_m g)\<rparr>))
      | Finished key val err \<Rightarrow> None)"

definition sf_step :: "nat \<times> 'v fn_outcome \<Rightarrow> 'v sfGroup \<Rightarrow> 'v sfGroup option" where
  "sf_step a g = (if fst a < length (sf_threads g) then sf_action (snd a) (fst a) g else None)"

text \<open>A schedule: which goroutine moves next, with the outcome of \<open>fn\<close>.\<close>

primrec sf_run :: "(nat \<times> 'v fn_outcome) list \<Rightarrow> 'v sfGroup \<Rightarrow> 'v sfGroup option" where
  "sf_run [] g = Some g"
| "sf_run (a # as) g = (case sf_step a g of None \<Rightarrow> None | Some g' \<Rightarrow> sf_run as g')"

fun is_finished :: "'v pc \<Rightarrow> bool" where
  "is_finished (Finished _ _ _) = True"
| "is_finished _ = False"

subsection \<open>The invariant\<close>

fun pc_key :: "'v pc \<Rightarrow> string" where
  "pc_key (AtLoad k) = k"
| "pc_key (AtWait k c) = k"
| "pc_key (AtStore k) = k"
| "pc_key (AtFn k c) = k"
| "pc_key (AtDone k c) = k"
| "pc_key (AtDelete k c) = k"
| "pc_key (Finished k v e) = k"

text \<open>The result of a run of \<open>fn\<close>, as a call returns it.\<close>

fun fn_result :: "'v fn_outcome \<Rightarrow> 'v option \<times> sf_error option" where
  "fn_result (FnReturn v e) = (v, e)"
| "fn_result (FnPanic r) = (None, Some (ErrPanicked r))"

definition logged :: "'v sfGroup \<Rightarrow> string \<Rightarrow> 'v option \<times> sf_error option \<Rightarrow> bool" where
  "logged g k r \<longleftrightarrow> (\<exists>out. (k, out) \<in> set (sf_log g) \<and> fn_result out = r)"

text \<open>
  \<open>owns pc c\<close>: the goroutine created call \<open>c\<close> and has not yet done \<open>wg.Done\<close>.
\<close>

fun owns :: "'v pc \<Rightarrow> nat \<Rightarrow> bool" where
  "owns (AtFn k c) c' = (c = c')"
| "owns (AtDone k c) c' = (c = c')"
| "owns _ _ = False"

text \<open>
  \<open>ow ! c\<close> is the key of call \<open>c\<close> and the goroutine that created it. A call is either pending,
  with its counter at 1 and its creator before \<open>wg.Done\<close>, or complete, with its counter at 0 and
  the result of a run for its key.
\<close>

definition call_ok :: "(string \<times> nat) list \<Rightarrow> 'v sfGroup \<Rightarrow> nat \<Rightarrow> bool" where
  "call_ok ow g c \<longleftrightarrow>
     (c_wg (sf_calls g ! c) = 1 \<and> snd (ow ! c) < length (sf_threads g) \<and> owns (sf_threads g ! snd (ow ! c)) c) \<or>
     (c_wg (sf_calls g ! c) = 0 \<and> logged g (fst (ow ! c)) (c_val (sf_calls g ! c), c_err (sf_calls g ! c)))"

definition thread_ok :: "(string \<times> nat) list \<Rightarrow> 'v sfGroup \<Rightarrow> nat \<Rightarrow> bool" where
  "thread_ok ow g t \<longleftrightarrow>
     (case sf_threads g ! t of
        AtLoad k \<Rightarrow> True
      | AtStore k \<Rightarrow> True
      | AtWait k c \<Rightarrow> c < length (sf_calls g) \<and> fst (ow ! c) = k
      | AtFn k c \<Rightarrow> c < length (sf_calls g) \<and> ow ! c = (k, t) \<and> sf_calls g ! c = \<lparr>c_wg = 1, c_val = None, c_err = None\<rparr>
      | AtDone k c \<Rightarrow> c < length (sf_calls g) \<and> ow ! c = (k, t) \<and> c_wg (sf_calls g ! c) = 1 \<and>
          logged g k (c_val (sf_calls g ! c), c_err (sf_calls g ! c))
      | AtDelete k c \<Rightarrow> c < length (sf_calls g) \<and> ow ! c = (k, t) \<and> c_wg (sf_calls g ! c) = 0
      | Finished k v e \<Rightarrow> logged g k (v, e))"

definition sf_inv :: "string list \<Rightarrow> (string \<times> nat) list \<Rightarrow> 'v sfGroup \<Rightarrow> bool" where
  "sf_inv keys ow g \<longleftrightarrow> length ow = length (sf_calls g) \<and> map pc_key (sf_threads g) = keys \<and>
     (\<forall>t < length (sf_threads g). thread_ok ow g t) \<and>
     (\<forall>c < length (sf_calls g). call_ok ow g c) \<and>
     (\<forall>k c. map_of (sf_m g) k = Some c \<longrightarrow> c < length (sf_calls g) \<and> fst (ow ! c) = k)"

lemma goto_simps [simp]:
  "sf_threads (goto t pc g) = (sf_threads g)[t := pc]" "sf_calls (goto t pc g) = sf_calls g"
  "sf_m (goto t pc g) = sf_m g" "sf_log (goto t pc g) = sf_log g"
  by (simp_all add: goto_def)

lemma logged_mono: "logged g k r \<Longrightarrow> set (sf_log g) \<subseteq> set (sf_log g') \<Longrightarrow> logged g' k r"
  by (auto simp: logged_def)

text \<open>A step of goroutine \<open>t\<close> does not disturb the others, nor the calls that are complete or not its own.\<close>

lemma thread_frame:
  assumes "thread_ok ow g t'" and "t' \<noteq> t" and "sf_threads g' ! t' = sf_threads g ! t'"
    and "length (sf_calls g) \<le> length (sf_calls g')"
    and "\<And>c. c < length (sf_calls g) \<Longrightarrow> ow' ! c = ow ! c \<and> (snd (ow ! c) \<noteq> t \<longrightarrow> sf_calls g' ! c = sf_calls g ! c)"
    and "set (sf_log g) \<subseteq> set (sf_log g')"
  shows "thread_ok ow' g' t'"
proof (cases "sf_threads g ! t'")
  case (AtWait k c)
  then show ?thesis using assms(1,3,4) assms(5) [of c] by (auto simp: thread_ok_def)
next
  case (AtFn k c)
  then show ?thesis using assms(1-4) assms(5) [of c] by (auto simp: thread_ok_def)
next
  case (AtDone k c)
  then show ?thesis using assms(1-4) assms(5) [of c] logged_mono [OF _ assms(6)] by (auto simp: thread_ok_def)
next
  case (AtDelete k c)
  then show ?thesis using assms(1-4) assms(5) [of c] by (auto simp: thread_ok_def)
next
  case (Finished k v e)
  then show ?thesis using assms(1,3) logged_mono [OF _ assms(6)] by (auto simp: thread_ok_def)
qed (use assms(3) in \<open>simp_all add: thread_ok_def\<close>)

lemma call_frame:
  assumes "call_ok ow g c" and "c < length (sf_calls g)" and "sf_calls g' ! c = sf_calls g ! c" and "ow' ! c = ow ! c"
    and "snd (ow ! c) \<noteq> t \<or> c_wg (sf_calls g ! c) = 0"
    and "sf_threads g' = (sf_threads g)[t := pc]" and "set (sf_log g) \<subseteq> set (sf_log g')"
  shows "call_ok ow' g' c"
  using assms logged_mono [OF _ assms(7)] by (auto simp: call_ok_def)

text \<open>The calls a goroutine created are complete, apart from the one it is working on.\<close>

lemma own_complete:
  assumes "sf_inv keys ow g" and "c < length (sf_calls g)" and "snd (ow ! c) = t" and "\<not> owns (sf_threads g ! t) c"
  shows "c_wg (sf_calls g ! c) = 0"
  using assms by (auto simp: sf_inv_def call_ok_def)

lemma inv_keep:
  assumes "sf_inv keys ow g" and "t < length (sf_threads g)" and "pc_key pc = pc_key (sf_threads g ! t)"
    and "sf_threads g' = (sf_threads g)[t := pc]" and "length ow' = length (sf_calls g')"
    and "length (sf_calls g) \<le> length (sf_calls g')"
    and "\<And>c. c < length (sf_calls g) \<Longrightarrow> ow' ! c = ow ! c \<and> (\<not> owns (sf_threads g ! t) c \<longrightarrow> sf_calls g' ! c = sf_calls g ! c)"
    and "\<And>c. c < length (sf_calls g) \<Longrightarrow> owns (sf_threads g ! t) c \<Longrightarrow> snd (ow ! c) = t"
    and "set (sf_log g) \<subseteq> set (sf_log g')"
    and "thread_ok ow' g' t"
    and "\<And>c. c < length (sf_calls g') \<Longrightarrow> length (sf_calls g) \<le> c \<or> owns (sf_threads g ! t) c \<Longrightarrow> call_ok ow' g' c"
    and "\<And>k c. map_of (sf_m g') k = Some c \<Longrightarrow> c < length (sf_calls g') \<and> fst (ow' ! c) = k"
  shows "sf_inv keys ow' g'"
proof -
  have "thread_ok ow' g' t'" if "t' < length (sf_threads g)" for t'
  proof (cases "t' = t")
    case False
    have "thread_ok ow g t'" using assms(1) that by (simp add: sf_inv_def)
    then show ?thesis
      by (rule thread_frame [OF _ False _ assms(6) _ assms(9)]) (use False assms(4,7,8) in auto)
  qed (use assms(10) in simp)
  moreover have "call_ok ow' g' c" if c: "c < length (sf_calls g')" for c
  proof (cases "length (sf_calls g) \<le> c \<or> owns (sf_threads g ! t) c")
    case False
    then have lt: "c < length (sf_calls g)" by simp
    have ok: "call_ok ow g c" using assms(1) lt by (simp add: sf_inv_def)
    have "snd (ow ! c) \<noteq> t \<or> c_wg (sf_calls g ! c) = 0" using own_complete [OF assms(1) lt] False by blast
    from call_frame [OF ok lt _ _ this assms(4,9)] show ?thesis using assms(7) [OF lt] False by simp
  qed (use assms(11) c in blast)
  moreover have "map pc_key (sf_threads g') = keys"
    using assms(1-3) by (simp add: assms(4) map_update sf_inv_def) (metis list_update_id nth_map)
  ultimately show ?thesis using assms(4,5,12) by (simp add: sf_inv_def)
qed

lemma sf_invD:
  assumes "sf_inv keys ow g"
  shows "length ow = length (sf_calls g)" and "t < length (sf_threads g) \<Longrightarrow> thread_ok ow g t"
    and "c < length (sf_calls g) \<Longrightarrow> call_ok ow g c"
    and "map_of (sf_m g) k = Some c \<Longrightarrow> c < length (sf_calls g) \<and> fst (ow ! c) = k"
    and "map pc_key (sf_threads g) = keys"
  using assms by (simp_all add: sf_inv_def)

lemma sf_init_inv: "sf_inv keys [] (sf_init keys)"
  by (simp add: sf_inv_def sf_init_def thread_ok_def comp_def)

lemma sf_store_inv:
  assumes inv: "sf_inv keys ow g" and t: "t < length (sf_threads g)" and pc: "sf_threads g ! t = AtStore k"
    and act: "sf_action out t g = Some g'"
  shows "sf_inv keys (ow @ [(k, t)]) g'"
proof -
  note len = sf_invD(1) [OF inv]
  have g': "g' = goto t (AtFn k (length (sf_calls g)))
      (g\<lparr>sf_calls := sf_calls g @ [\<lparr>c_wg = 1, c_val = None, c_err = None\<rparr>],
         sf_m := AList.update k (length (sf_calls g)) (sf_m g)\<rparr>)"
    using act pc by (simp add: sf_action_def Let_def)
  show ?thesis
  proof (rule inv_keep [OF inv t])
    show "call_ok (ow @ [(k, t)]) g' c"
      if "c < length (sf_calls g')" "length (sf_calls g) \<le> c \<or> owns (sf_threads g ! t) c" for c
    proof -
      have "c = length (sf_calls g)" using that pc by (auto simp: g')
      then show ?thesis using t by (simp add: g' call_ok_def nth_append len)
    qed
    show "c < length (sf_calls g') \<and> fst ((ow @ [(k, t)]) ! c) = k'" if "map_of (sf_m g') k' = Some c" for k' c
      using that sf_invD(4) [OF inv, of k' c] len by (auto simp: g' update_conv nth_append split: if_splits)
  qed (use t pc len in \<open>auto simp: g' nth_append thread_ok_def\<close>)
qed

text \<open>The other actions, one program point at a time.\<close>

lemma sf_load_inv:
  assumes inv: "sf_inv keys ow g" and t: "t < length (sf_threads g)" and pc: "sf_threads g ! t = AtLoad k"
    and act: "sf_action out t g = Some g'"
  shows "sf_inv keys ow g'"
proof (cases "map_of (sf_m g) k")
  case None
  then have g': "g' = goto t (AtStore k) g" using act pc by (simp add: sf_action_def)
  show ?thesis
    by (rule inv_keep [OF inv t, where pc = "AtStore k"]) (use t pc sf_invD(1,4) [OF inv] in \<open>auto simp: g' thread_ok_def\<close>)
next
  case (Some c)
  then have g': "g' = goto t (AtWait k c) g" using act pc by (simp add: sf_action_def)
  show ?thesis
    by (rule inv_keep [OF inv t, where pc = "AtWait k c"])
      (use t pc sf_invD(1,4) [OF inv] sf_invD(4) [OF inv Some] in \<open>auto simp: g' thread_ok_def\<close>)
qed

lemma sf_wait_inv:
  assumes inv: "sf_inv keys ow g" and t: "t < length (sf_threads g)" and pc: "sf_threads g ! t = AtWait k c"
    and act: "sf_action out t g = Some g'"
  shows "sf_inv keys ow g'"
proof -
  have wg: "c_wg (sf_calls g ! c) = 0" and g': "g' = goto t (Finished k (c_val (sf_calls g ! c)) (c_err (sf_calls g ! c))) g"
    using act pc by (simp_all add: sf_action_def split: if_splits)
  have "c < length (sf_calls g)" "fst (ow ! c) = k" using sf_invD(2) [OF inv t, unfolded thread_ok_def] pc by simp_all
  then have l: "logged g' k (c_val (sf_calls g ! c), c_err (sf_calls g ! c))"
    using sf_invD(3) [OF inv, of c] wg by (auto simp: call_ok_def g' logged_def)
  show ?thesis
    by (rule inv_keep [OF inv t, where pc = "Finished k (c_val (sf_calls g ! c)) (c_err (sf_calls g ! c))"])
      (use t pc l sf_invD(1,4) [OF inv] in \<open>auto simp: thread_ok_def, auto simp: g'\<close>)
qed

lemma sf_fn_inv:
  assumes inv: "sf_inv keys ow g" and t: "t < length (sf_threads g)" and pc: "sf_threads g ! t = AtFn k c"
    and act: "sf_action out t g = Some g'"
  shows "sf_inv keys ow g'"
proof -
  have g': "g' = goto t (AtDone k c)
      (g\<lparr>sf_calls := (sf_calls g)[c := set_outcome out (sf_calls g ! c)], sf_log := sf_log g @ [(k, out)]\<rparr>)"
    using act pc by (simp add: sf_action_def)
  have c: "c < length (sf_calls g)" "ow ! c = (k, t)" "sf_calls g ! c = \<lparr>c_wg = 1, c_val = None, c_err = None\<rparr>"
    using sf_invD(2) [OF inv t, unfolded thread_ok_def] pc by simp_all
  have "thread_ok ow g' t" using t c by (cases out) (auto simp: g' thread_ok_def logged_def set_outcome_def)
  moreover have "call_ok ow g' c" using t c by (cases out) (simp_all add: g' call_ok_def set_outcome_def)
  ultimately show ?thesis
    by (intro inv_keep [OF inv t, where pc = "AtDone k c"]) (use t pc c sf_invD(1,4) [OF inv] in \<open>auto, auto simp: g'\<close>)
qed

lemma sf_done_inv:
  assumes inv: "sf_inv keys ow g" and t: "t < length (sf_threads g)" and pc: "sf_threads g ! t = AtDone k c"
    and act: "sf_action out t g = Some g'"
  shows "sf_inv keys ow g'"
proof -
  have g': "g' = goto t (AtDelete k c)
      (g\<lparr>sf_calls := (sf_calls g)[c := (sf_calls g ! c)\<lparr>c_wg := c_wg (sf_calls g ! c) - 1\<rparr>]\<rparr>)"
    using act pc by (simp add: sf_action_def)
  have c: "c < length (sf_calls g)" "ow ! c = (k, t)" "c_wg (sf_calls g ! c) = 1"
    "logged g k (c_val (sf_calls g ! c), c_err (sf_calls g ! c))"
    using sf_invD(2) [OF inv t, unfolded thread_ok_def] pc by simp_all
  have "thread_ok ow g' t" using t c by (simp add: g' thread_ok_def)
  moreover have "call_ok ow g' c" using t c by (simp add: g' call_ok_def logged_def)
  ultimately show ?thesis
    by (intro inv_keep [OF inv t, where pc = "AtDelete k c"]) (use t pc c sf_invD(1,4) [OF inv] in \<open>auto, auto simp: g'\<close>)
qed

lemma sf_delete_inv:
  assumes inv: "sf_inv keys ow g" and t: "t < length (sf_threads g)" and pc: "sf_threads g ! t = AtDelete k c"
    and act: "sf_action out t g = Some g'"
  shows "sf_inv keys ow g'"
proof -
  have g': "g' = goto t (Finished k (c_val (sf_calls g ! c)) (c_err (sf_calls g ! c))) (g\<lparr>sf_m := AList.delete k (sf_m g)\<rparr>)"
    using act pc by (simp add: sf_action_def)
  have c: "c < length (sf_calls g)" "ow ! c = (k, t)" "c_wg (sf_calls g ! c) = 0"
    using sf_invD(2) [OF inv t, unfolded thread_ok_def] pc by simp_all
  have l: "logged g' k (c_val (sf_calls g ! c), c_err (sf_calls g ! c))"
    using sf_invD(3) [OF inv c(1)] c by (auto simp: call_ok_def g' logged_def)
  show ?thesis
    by (rule inv_keep [OF inv t, where pc = "Finished k (c_val (sf_calls g ! c)) (c_err (sf_calls g ! c))"])
      (use t pc l sf_invD(1,4) [OF inv] in \<open>auto simp: thread_ok_def, auto simp: g' delete_conv split: if_splits\<close>)
qed

lemma sf_own_inv:
  assumes inv: "sf_inv keys ow g" and t: "t < length (sf_threads g)"
    and act: "sf_action out t g = Some g'" and pc: "\<And>k. sf_threads g ! t \<noteq> AtStore k"
  shows "sf_inv keys ow g'"
proof (cases "sf_threads g ! t")
  case (AtLoad k)
  then show ?thesis by (rule sf_load_inv [OF inv t _ act])
next
  case (AtWait k c)
  then show ?thesis by (rule sf_wait_inv [OF inv t _ act])
next
  case (AtFn k c)
  then show ?thesis by (rule sf_fn_inv [OF inv t _ act])
next
  case (AtDone k c)
  then show ?thesis by (rule sf_done_inv [OF inv t _ act])
next
  case (AtDelete k c)
  then show ?thesis by (rule sf_delete_inv [OF inv t _ act])
qed (use pc act in \<open>simp_all add: sf_action_def\<close>)

lemma sf_step_inv:
  assumes "sf_inv keys ow g" and "sf_step a g = Some g'"
  shows "\<exists>ow'. sf_inv keys ow' g'"
proof -
  have a: "fst a < length (sf_threads g)" "sf_action (snd a) (fst a) g = Some g'"
    using assms(2) by (simp_all add: sf_step_def split: if_splits)
  show ?thesis
  proof (cases "\<exists>k. sf_threads g ! fst a = AtStore k")
    case True
    then obtain k where "sf_threads g ! fst a = AtStore k" ..
    from sf_store_inv [OF assms(1) a(1) this a(2)] show ?thesis ..
  next
    case False
    with sf_own_inv [OF assms(1) a] show ?thesis by blast
  qed
qed

lemma sf_run_inv: "sf_inv keys ow g \<Longrightarrow> sf_run as g = Some g' \<Longrightarrow> \<exists>ow'. sf_inv keys ow' g'"
proof (induction as arbitrary: ow g)
  case (Cons a as)
  then obtain g1 where g1: "sf_step a g = Some g1" "sf_run as g1 = Some g'" by (auto split: option.splits)
  from sf_step_inv [OF Cons.prems(1) g1(1)] Cons.IH g1(2) show ?case by blast
qed auto

subsection \<open>Progress\<close>

fun pc_work :: "'v pc \<Rightarrow> nat" where
  "pc_work (AtLoad _) = 5"
| "pc_work (AtStore _) = 4"
| "pc_work (AtFn _ _) = 3"
| "pc_work (AtDone _ _) = 2"
| "pc_work (AtDelete _ _) = 1"
| "pc_work (AtWait _ _) = 1"
| "pc_work (Finished _ _ _) = 0"

definition sf_work :: "'v sfGroup \<Rightarrow> nat" where
  "sf_work g = sum_list (map pc_work (sf_threads g))"

lemma sum_list_decrease:
  fixes f :: "'a \<Rightarrow> nat"
  shows "t < length xs \<Longrightarrow> f x < f (xs ! t) \<Longrightarrow> sum_list (map f (xs[t := x])) < sum_list (map f xs)"
proof (induction xs arbitrary: t)
  case (Cons y ys)
  then show ?case by (cases t) auto
qed simp

lemma sf_action_works:
  "sf_action out t g = Some g' \<Longrightarrow> \<exists>pc. sf_threads g' = (sf_threads g)[t := pc] \<and> pc_work pc < pc_work (sf_threads g ! t)"
  by (auto simp: sf_action_def Let_def split: pc.splits option.splits if_splits)

lemma sf_step_works: "sf_step a g = Some g' \<Longrightarrow> sf_work g' < sf_work g"
  using sf_action_works [of "snd a" "fst a" g g'] sum_list_decrease
  by (fastforce simp: sf_step_def sf_work_def split: if_splits)

lemma sf_run_works: "sf_run as g = Some g' \<Longrightarrow> length as + sf_work g' \<le> sf_work g"
proof (induction as arbitrary: g)
  case (Cons a as)
  then obtain g1 where g1: "sf_step a g = Some g1" "sf_run as g1 = Some g'" by (auto split: option.splits)
  from sf_step_works [OF g1(1)] Cons.IH [OF g1(2)] show ?case by simp
qed simp

lemma owner_enabled: "owns (sf_threads g ! t) c \<Longrightarrow> sf_action out t g \<noteq> None"
  by (cases "sf_threads g ! t") (simp_all add: sf_action_def)

lemma sf_enabled:
  assumes inv: "sf_inv keys ow g" and "pc \<in> set (sf_threads g)" and "\<not> is_finished pc"
  shows "\<exists>t < length (sf_threads g). \<forall>out. sf_action out t g \<noteq> None"
proof -
  obtain t where t: "t < length (sf_threads g)" "sf_threads g ! t = pc" using assms(2) by (auto simp: in_set_conv_nth)
  show ?thesis
  proof (cases "\<exists>k c. pc = AtWait k c \<and> c_wg (sf_calls g ! c) \<noteq> 0")
    case True
    then obtain k c where c: "sf_threads g ! t = AtWait k c" "c_wg (sf_calls g ! c) \<noteq> 0" using t by blast
    then have "call_ok ow g c" using sf_invD(2) [OF inv t(1)] sf_invD(3) [OF inv] by (simp add: thread_ok_def)
    then have "snd (ow ! c) < length (sf_threads g)" "owns (sf_threads g ! snd (ow ! c)) c" using c by (simp_all add: call_ok_def)
    with owner_enabled show ?thesis by blast
  next
    case False
    then have "sf_action out t g \<noteq> None" for out
      using t assms(3) by (cases pc) (auto simp: sf_action_def Let_def split: option.split)
    with t(1) show ?thesis by blast
  qed
qed

lemma sf_complete:
  assumes "sf_inv keys ow g"
  shows "\<exists>as g'. sf_run as g = Some g' \<and> (\<forall>pc \<in> set (sf_threads g'). is_finished pc)"
  using assms
proof (induction "sf_work g" arbitrary: g ow rule: less_induct)
  case less
  show ?case
  proof (cases "\<forall>pc \<in> set (sf_threads g). is_finished pc")
    case True
    then show ?thesis by (intro exI [of _ "[]"]) simp
  next
    case False
    then obtain t where t: "t < length (sf_threads g)" "sf_action (FnPanic []) t g \<noteq> None"
      using sf_enabled [OF less.prems] by blast
    then obtain g1 where g1: "sf_step (t, FnPanic []) g = Some g1" by (auto simp: sf_step_def)
    obtain ow1 where "sf_inv keys ow1 g1" using sf_step_inv [OF less.prems g1] ..
    from less.hyps [OF sf_step_works [OF g1] this] obtain as g' where
      "sf_run as g1 = Some g'" "\<forall>pc \<in> set (sf_threads g'). is_finished pc" by blast
    with g1 show ?thesis by (intro exI [of _ "(t, FnPanic []) # as"]) simp
  qed
qed

subsection \<open>Coalescing\<close>

text \<open>
  A schedule in which nothing comes between the \<open>Load\<close> that misses and the \<open>Store\<close> of the same
  goroutine.
\<close>

fun at_store :: "'v pc \<Rightarrow> bool" where
  "at_store (AtStore _) = True"
| "at_store _ = False"

primrec no_gap :: "(nat \<times> 'v fn_outcome) list \<Rightarrow> 'v sfGroup \<Rightarrow> bool" where
  "no_gap [] g = (\<forall>pc \<in> set (sf_threads g). \<not> at_store pc)"
| "no_gap (a # as) g =
     ((\<forall>t < length (sf_threads g). at_store (sf_threads g ! t) \<longrightarrow> t = fst a) \<and>
      (case sf_step a g of None \<Rightarrow> True | Some g' \<Rightarrow> no_gap as g'))"

text \<open>The goroutine is between its \<open>Store\<close> and its \<open>Delete\<close>.\<close>

fun in_flight :: "'v pc \<Rightarrow> nat option" where
  "in_flight (AtFn _ c) = Some c"
| "in_flight (AtDone _ c) = Some c"
| "in_flight (AtDelete _ c) = Some c"
| "in_flight _ = None"

text \<open>Every call in flight is the one the map holds, and a goroutine about to store found no call.\<close>

definition sf_mapped :: "'v sfGroup \<Rightarrow> bool" where
  "sf_mapped g \<longleftrightarrow>
     (\<forall>t < length (sf_threads g). \<forall>c. in_flight (sf_threads g ! t) = Some c \<longrightarrow>
        map_of (sf_m g) (pc_key (sf_threads g ! t)) = Some c) \<and>
     (\<forall>t < length (sf_threads g). at_store (sf_threads g ! t) \<longrightarrow> map_of (sf_m g) (pc_key (sf_threads g ! t)) = None)"

lemma in_flight_owner:
  assumes "sf_inv keys ow g" and "t < length (sf_threads g)" and "in_flight (sf_threads g ! t) = Some c"
  shows "ow ! c = (pc_key (sf_threads g ! t), t)"
  using sf_invD(2) [OF assms(1,2)] assms(3) by (cases "sf_threads g ! t") (simp_all add: thread_ok_def)

lemma in_flight_unique:
  assumes "sf_inv keys ow g" and "sf_mapped g" and "t < length (sf_threads g)" "t' < length (sf_threads g)"
    and "in_flight (sf_threads g ! t) \<noteq> None" "in_flight (sf_threads g ! t') \<noteq> None"
    and "pc_key (sf_threads g ! t) = pc_key (sf_threads g ! t')"
  shows "t = t'"
proof -
  obtain c c' where c: "in_flight (sf_threads g ! t) = Some c" "in_flight (sf_threads g ! t') = Some c'"
    using assms(5,6) by blast
  then have "c = c'" using assms(2-4,7) unfolding sf_mapped_def by (metis option.inject)
  then show ?thesis using in_flight_owner [OF assms(1,3) c(1)] in_flight_owner [OF assms(1,4) c(2)] by simp
qed

text \<open>
  The goroutine between a missing \<open>Load\<close> and its \<open>Store\<close> is the one that moves, so after its move no goroutine is there.
\<close>

lemma no_store_left:
  assumes "t < length (sf_threads g)" and "sf_threads g' = (sf_threads g)[t := pc]" and "\<not> at_store pc"
    and "\<And>t'. t' < length (sf_threads g) \<Longrightarrow> at_store (sf_threads g ! t') \<Longrightarrow> t' = t"
    and "t' < length (sf_threads g')"
  shows "\<not> at_store (sf_threads g' ! t')"
proof (cases "t' = t")
  case True
  with assms(1,3) show ?thesis by (simp add: assms(2))
next
  case False
  with assms(4) [of t'] assms(5) show ?thesis by (auto simp: assms(2))
qed

lemma sf_mapped_store:
  assumes m: "sf_mapped g" and t: "t < length (sf_threads g)" and pc: "sf_threads g ! t = AtStore k"
    and act: "sf_action out t g = Some g'"
    and only: "\<And>t'. t' < length (sf_threads g) \<Longrightarrow> at_store (sf_threads g ! t') \<Longrightarrow> t' = t"
  shows "sf_mapped g'"
proof -
  have none: "map_of (sf_m g) k = None" using m t pc by (auto simp: sf_mapped_def)
  have th: "sf_threads g' = (sf_threads g)[t := AtFn k (length (sf_calls g))]" using act pc by (auto simp: sf_action_def Let_def)
  have "map_of (sf_m g') (pc_key (sf_threads g' ! t')) = Some c"
    if "t' < length (sf_threads g')" "in_flight (sf_threads g' ! t') = Some c" for t' c
    using that act pc m none t by (cases "t' = t") (auto simp: sf_action_def Let_def sf_mapped_def update_conv)
  moreover have "\<not> at_store (sf_threads g' ! t')" if "t' < length (sf_threads g')" for t'
    by (rule no_store_left [OF t th _ only that]) simp_all
  ultimately show ?thesis unfolding sf_mapped_def by blast
qed

lemma sf_mapped_delete:
  assumes inv: "sf_inv keys ow g" and m: "sf_mapped g" and t: "t < length (sf_threads g)" and pc: "sf_threads g ! t = AtDelete k c"
    and act: "sf_action out t g = Some g'"
    and only: "\<And>t'. t' < length (sf_threads g) \<Longrightarrow> at_store (sf_threads g ! t') \<Longrightarrow> t' = t"
  shows "sf_mapped g'"
proof -
  obtain v e where th: "sf_threads g' = (sf_threads g)[t := Finished k v e]" and sm: "sf_m g' = AList.delete k (sf_m g)"
    using act pc by (auto simp: sf_action_def)
  have "map_of (sf_m g') (pc_key (sf_threads g' ! t')) = Some c'"
    if t': "t' < length (sf_threads g')" "in_flight (sf_threads g' ! t') = Some c'" for t' c'
  proof -
    have ne: "t' \<noteq> t" and l: "t' < length (sf_threads g)" and fl: "in_flight (sf_threads g ! t') = Some c'"
      and same: "sf_threads g' ! t' = sf_threads g ! t'"
      using t' t unfolding th by (auto simp: nth_list_update split: if_splits)
    have "pc_key (sf_threads g ! t') \<noteq> k" using in_flight_unique [OF inv m l t] fl ne pc by auto
    moreover have "map_of (sf_m g) (pc_key (sf_threads g ! t')) = Some c'" using m l fl by (simp add: sf_mapped_def)
    ultimately show ?thesis unfolding same sm by (simp add: delete_conv)
  qed
  moreover have "\<not> at_store (sf_threads g' ! t')" if "t' < length (sf_threads g')" for t'
    by (rule no_store_left [OF t th _ only that]) simp_all
  ultimately show ?thesis unfolding sf_mapped_def by blast
qed

lemma sf_mapped_step:
  assumes inv: "sf_inv keys ow g" and m: "sf_mapped g" and t: "t < length (sf_threads g)"
    and act: "sf_action out t g = Some g'"
    and only: "\<And>t'. t' < length (sf_threads g) \<Longrightarrow> at_store (sf_threads g ! t') \<Longrightarrow> t' = t"
  shows "sf_mapped g'"
proof (cases "sf_threads g ! t")
  case (AtLoad k)
  then show ?thesis using act m t
    by (auto simp: sf_action_def sf_mapped_def nth_list_update split: option.splits)
next
  case (AtStore k)
  then show ?thesis by (rule sf_mapped_store [OF m t _ act only])
next
  case (AtWait k c)
  then show ?thesis using act m t by (auto simp: sf_action_def sf_mapped_def nth_list_update split: if_splits)
next
  case (AtFn k c)
  have "map_of (sf_m g) k = Some c" using m t AtFn by (force simp: sf_mapped_def)
  then show ?thesis using act m t AtFn by (auto simp: sf_action_def sf_mapped_def nth_list_update)
next
  case (AtDone k c)
  have "map_of (sf_m g) k = Some c" using m t AtDone by (force simp: sf_mapped_def)
  then show ?thesis using act m t AtDone by (auto simp: sf_action_def sf_mapped_def nth_list_update)
next
  case (AtDelete k c)
  then show ?thesis by (rule sf_mapped_delete [OF inv m t _ act only])
qed (use act in \<open>simp add: sf_action_def\<close>)

lemma sf_mapped_run:
  assumes "sf_inv keys ow g" and "sf_mapped g" and "sf_run as g = Some g'" and "no_gap as g"
  shows "\<exists>ow'. sf_inv keys ow' g' \<and> sf_mapped g'"
  using assms
proof (induction as arbitrary: ow g)
  case (Cons a as)
  then obtain g1 where g1: "sf_step a g = Some g1" "sf_run as g1 = Some g'" by (auto split: option.splits)
  obtain ow1 where ow1: "sf_inv keys ow1 g1" using sf_step_inv [OF Cons.prems(1) g1(1)] ..
  have "sf_mapped g1"
    using Cons.prems(1,2,4) g1(1) by (intro sf_mapped_step [of keys ow g "fst a" "snd a" g1]) (auto simp: sf_step_def split: if_splits)
  with Cons.IH [OF ow1 _ g1(2)] Cons.prems(4) g1(1) show ?case by simp
qed auto

subsection \<open>Properties\<close>

text \<open>
  C7: every call returns. Whatever the schedule and whether \<open>fn\<close> returns or panics, \<open>n\<close>
  concurrent calls of \<open>Do\<close> take at most \<open>5 n\<close> steps in all; as long as a call has not returned
  some goroutine can move, and every state can be continued to one in which all have returned.
\<close>

theorem singleflight_all_return:
  assumes "sf_run sched (sf_init keys) = Some g"
  shows "length sched \<le> 5 * length keys \<and>
    ((\<exists>pc \<in> set (sf_threads g). \<not> is_finished pc) \<longrightarrow> (\<exists>t. \<forall>out. sf_step (t, out) g \<noteq> None)) \<and>
    (\<exists>sched' g'. sf_run sched' g = Some g' \<and> (\<forall>pc \<in> set (sf_threads g'). is_finished pc))"
proof -
  obtain ow where ow: "sf_inv keys ow g" using sf_run_inv [OF sf_init_inv assms] ..
  have "sf_work (sf_init keys :: 'a sfGroup) = 5 * length keys"
    by (induction keys) (simp_all add: sf_work_def sf_init_def)
  then have "length sched \<le> 5 * length keys" using sf_run_works [OF assms] by simp
  moreover have "\<exists>t. \<forall>out. sf_step (t, out) g \<noteq> None" if "pc \<in> set (sf_threads g)" "\<not> is_finished pc" for pc
    using sf_enabled [OF ow that] by (auto simp: sf_step_def)
  ultimately show ?thesis using sf_complete [OF ow] by blast
qed

text \<open>
  C28: what a call returns. A call that has returned, whether it ran \<open>fn\<close> itself or waited for
  another, returns the result of a run of \<open>fn\<close> for its own key (a panic as an error).
\<close>

theorem singleflight_result_of_run:
  assumes "sf_run sched (sf_init keys) = Some g" and "t < length keys" and "sf_threads g ! t = Finished k v e"
  shows "k = keys ! t \<and> (\<exists>out. (k, out) \<in> set (sf_log g) \<and> fn_result out = (v, e))"
proof -
  obtain ow where ow: "sf_inv keys ow g" using sf_run_inv [OF sf_init_inv assms(1)] ..
  have t: "t < length (sf_threads g)" using sf_invD(5) [OF ow] assms(2) by auto
  have "thread_ok ow g t" using sf_invD(2) [OF ow t] .
  moreover have "keys ! t = pc_key (sf_threads g ! t)" using sf_invD(5) [OF ow] t by auto
  ultimately show ?thesis using assms(3) by (simp add: thread_ok_def logged_def)
qed

text \<open>
  Coalescing without the race. In a run in which no other goroutine moves between a \<open>Load\<close>
  that misses and the \<open>Store\<close> that follows it, no two goroutines are running \<open>fn\<close> (or finishing
  its call) for the same key at the same time.
\<close>

theorem singleflight_coalesces_without_gap:
  assumes "sf_run sched (sf_init keys) = Some g" and "no_gap sched (sf_init keys)"
    and "t < length keys" "t' < length keys" and "keys ! t = keys ! t'"
    and "in_flight (sf_threads g ! t) \<noteq> None" "in_flight (sf_threads g ! t') \<noteq> None"
  shows "t = t'"
proof -
  have "sf_mapped (sf_init keys)" by (simp add: sf_mapped_def sf_init_def)
  then obtain ow where ow: "sf_inv keys ow g" "sf_mapped g"
    using sf_mapped_run [OF sf_init_inv _ assms(1,2)] by blast
  have k: "keys = map pc_key (sf_threads g)" using sf_invD(5) [OF ow(1)] by simp
  show ?thesis by (rule in_flight_unique [OF ow]) (use assms(3-7) k in auto)
qed

definition demo_sched :: "(nat \<times> nat fn_outcome) list" where
  "demo_sched = [(0, FnPanic []), (0, FnPanic []), (1, FnPanic []), (0, FnReturn (Some 7) None), (0, FnPanic []), (1, FnPanic [])]"

lemma demo_sched_run:
  "\<exists>g. sf_run demo_sched (sf_init [''k'', ''k'']) = Some g \<and>
     sf_threads g ! 1 = Finished ''k'' (Some 7) None \<and> in_flight (sf_threads g ! 0) \<noteq> None"
  by (simp add: demo_sched_def sf_init_def sf_step_def sf_action_def goto_def set_outcome_def Let_def)

theorem singleflight_all_return_witness:
  "\<exists>g sched' g'. sf_run demo_sched (sf_init [''k'', ''k'']) = Some g \<and> length demo_sched \<le> 10 \<and> sf_run sched' g = Some g' \<and>
     list_all is_finished (sf_threads g')"
proof -
  obtain g where g: "sf_run demo_sched (sf_init [''k'', ''k'']) = Some g" using demo_sched_run by blast
  from singleflight_all_return [OF g] g show ?thesis by (auto simp: list_all_iff)
qed

theorem singleflight_result_of_run_witness:
  "\<exists>g out. sf_run demo_sched (sf_init [''k'', ''k'']) = Some g \<and> sf_threads g ! 1 = Finished ''k'' (Some 7) None \<and>
     (''k'', out) \<in> set (sf_log g) \<and> fn_result out = (Some 7, None)"
proof -
  obtain g where g: "sf_run demo_sched (sf_init [''k'', ''k'']) = Some g" "sf_threads g ! 1 = Finished ''k'' (Some 7) None"
    using demo_sched_run by blast
  from singleflight_result_of_run [OF g(1) _ g(2)] g show ?thesis by auto
qed

theorem singleflight_coalesces_without_gap_witness:
  "\<exists>g. sf_run demo_sched (sf_init [''k'', ''k'']) = Some g \<and> in_flight (sf_threads g ! 0) \<noteq> None \<and>
     in_flight (sf_threads g ! 1) = None"
proof -
  obtain g where g: "sf_run demo_sched (sf_init [''k'', ''k'']) = Some g" "in_flight (sf_threads g ! 0) \<noteq> None"
    using demo_sched_run by blast
  have "no_gap demo_sched (sf_init [''k'', ''k''])"
    by (simp add: demo_sched_def sf_init_def sf_step_def sf_action_def goto_def set_outcome_def Let_def less_Suc_eq)
  from singleflight_coalesces_without_gap [OF g(1) this, of 0 1] g show ?thesis
    by (cases "in_flight (sf_threads g ! 1)") auto
qed

text \<open>
  The promise that concurrent calls for one key run \<open>fn\<close> once does not hold. \<open>Load\<close> and
  \<open>Store\<close> are two operations on the map: when a second goroutine loads before the first has
  stored, both run \<open>fn\<close> at the same time; and the first to finish deletes the entry of the other,
  so that a third goroutine starts a third run while the second is still in progress.
\<close>

theorem singleflight_runs_twice:
  fixes o1 o2 :: "'v fn_outcome"
  shows "\<exists>g g'. sf_run [(0, o1), (1, o1), (0, o1), (1, o1)] (sf_init [''k'', ''k'', ''k'']) = Some g \<and>
      sf_threads g ! 0 = AtFn ''k'' 0 \<and> sf_threads g ! 1 = AtFn ''k'' 1 \<and>
      sf_run [(0, o1), (0, o1), (0, o1), (2, o1), (2, o2), (2, o2)] g = Some g' \<and>
      sf_log g' = [(''k'', o1), (''k'', o2)] \<and> sf_threads g' ! 1 = AtFn ''k'' 1"
  by (simp add: sf_init_def sf_step_def sf_action_def goto_def set_outcome_def Let_def numeral_2_eq_2)

end
