(* ===== verification/Transitions.thy ===== *)
theory Transitions
  imports Prelude
begin

text \<open>
  Concurrent parts of the program are transition systems: a set of start states and a step
  relation in which one goroutine, message or event makes one atomic step. This theory holds the
  reachable states and three contracts with their consequences: a system with an invariant; one
  that extends it by a measure that every step lowers and by a step for every state that has not
  ended, so that its runs are bounded and every state can be completed; and one whose state is
  also changed by others, who keep the invariant and do not raise the measure.
\<close>

inductive reach :: "('s \<Rightarrow> bool) \<Rightarrow> ('s \<Rightarrow> 's \<Rightarrow> bool) \<Rightarrow> 's \<Rightarrow> bool" for start step where
  reach_start: "start s \<Longrightarrow> reach start step s"
| reach_step: "reach start step s \<Longrightarrow> step s s' \<Longrightarrow> reach start step s'"

lemma reach_steps: "rtranclp step s s' \<Longrightarrow> reach start step s \<Longrightarrow> reach start step s'"
  by (induction rule: rtranclp_induct) (auto intro: reach.reach_step)

locale invariant_system =
  fixes start :: "'s \<Rightarrow> bool"
    and step :: "'s \<Rightarrow> 's \<Rightarrow> bool"
    and ok :: "'s \<Rightarrow> bool"
  assumes ok_start: "start s \<Longrightarrow> ok s"
    and ok_step: "ok s \<Longrightarrow> step s s' \<Longrightarrow> ok s'"
begin

lemma reach_ok: "reach start step s \<Longrightarrow> ok s"
  by (induction rule: reach.induct) (auto intro: ok_start ok_step)

lemma steps_ok: "rtranclp step s s' \<Longrightarrow> ok s \<Longrightarrow> ok s'"
  by (induction rule: rtranclp_induct) (auto intro: ok_step)

end

locale ending_system = invariant_system +
  fixes mu :: "'s \<Rightarrow> nat"
    and ended :: "'s \<Rightarrow> bool"
  assumes mu_step: "ok s \<Longrightarrow> step s s' \<Longrightarrow> mu s' < mu s"
    and progress: "ok s \<Longrightarrow> \<not> ended s \<Longrightarrow> \<exists>s'. step s s'"
begin

lemma steps_bounded: "(step ^^ n) s s' \<Longrightarrow> ok s \<Longrightarrow> n + mu s' \<le> mu s"
proof (induction n arbitrary: s)
  case (Suc n)
  obtain s1 where s1: "step s s1" "(step ^^ n) s1 s'" using relpowp_Suc_D2 [OF Suc.prems(1)] by blast
  from Suc.IH [OF s1(2) ok_step [OF Suc.prems(2) s1(1)]] mu_step [OF Suc.prems(2) s1(1)] show ?case by simp
qed simp

lemma can_end: "ok s \<Longrightarrow> \<exists>s'. rtranclp step s s' \<and> ended s'"
proof (induction "mu s" arbitrary: s rule: less_induct)
  case less
  show ?case
  proof (cases "ended s")
    case False
    with progress [OF less.prems] obtain s1 where s1: "step s s1" by blast
    from less.hyps [OF mu_step [OF less.prems s1] ok_step [OF less.prems s1]]
    show ?thesis using converse_rtranclp_into_rtranclp [of step, OF s1] by blast
  qed blast
qed

end

text \<open>A run with \<open>n\<close> steps of the system and any number of steps of others.\<close>

inductive mixed_run :: "('s \<Rightarrow> 's \<Rightarrow> bool) \<Rightarrow> ('s \<Rightarrow> 's \<Rightarrow> bool) \<Rightarrow> nat \<Rightarrow> 's \<Rightarrow> 's \<Rightarrow> bool" for step other where
  mixed_none: "mixed_run step other 0 s s"
| mixed_own: "mixed_run step other n s s' \<Longrightarrow> step s' s'' \<Longrightarrow> mixed_run step other (Suc n) s s''"
| mixed_other: "mixed_run step other n s s' \<Longrightarrow> other s' s'' \<Longrightarrow> mixed_run step other n s s''"

lemma mixed_steps: "rtranclp step s' s'' \<Longrightarrow> mixed_run step other n s s' \<Longrightarrow> \<exists>m. mixed_run step other m s s''"
  by (induction rule: rtranclp_induct) (auto intro: mixed_run.mixed_own)

locale disturbed_system = ending_system +
  fixes other :: "'s \<Rightarrow> 's \<Rightarrow> bool"
  assumes ok_other: "ok s \<Longrightarrow> other s s' \<Longrightarrow> ok s'"
    and mu_other: "ok s \<Longrightarrow> other s s' \<Longrightarrow> mu s' \<le> mu s"
begin

lemma mixed_run_bounded: "mixed_run step other n s s' \<Longrightarrow> ok s \<Longrightarrow> ok s' \<and> n + mu s' \<le> mu s"
proof (induction rule: mixed_run.induct)
  case (mixed_own n s s' s'')
  then show ?case using ok_step [of s' s''] mu_step [of s' s''] by fastforce
next
  case (mixed_other n s s' s'')
  then show ?case using ok_other [of s' s''] mu_other [of s' s''] by fastforce
qed simp

end

end
