(* ===== verification/Policy_Concurrent.thy ===== *)
theory Policy_Concurrent
  imports Policy Singleflight Transitions
begin

text \<open>
  \<^verbatim>\<open>policy.go\<close> under concurrent calls of \<open>Get\<close>: the Bloom filter, the cache, \<open>singleflight.Do\<close> and
  the function it runs, composed for any number of goroutines. A step of the system is one atomic
  action of one goroutine: the test of the filter, a call of a method of the cache or its store, a
  call of the loader, the update of the filter, an action inside \<open>Do\<close> (\<open>sf_action\<close> of
  \<open>Singleflight\<close>), and the count at the end.

  The results: calls of \<open>Get\<close> never deadlock, panic or block for ever, whatever the loader answers and
  whatever others write meanwhile, and one that runs alone does what the sequential model says.
  \<open>Herd\<close> states them and adds what happens when many miss the same key.
\<close>

subsection \<open>The model\<close>

text \<open>
  Where a goroutine is in \<open>Get\<close>. In \<open>Calls\<close> it is where the state of \<open>Do\<close> says; from the double check to
  \<open>Ends\<close>, which holds the outcome, it runs the function passed to \<open>Do\<close>.
\<close>

datatype phase =
    ChecksFilter
  | ReadsCache
  | Calls
  | Rechecked
  | Loaded "slice option"
  | Written ByteView
  | Ends "ByteView fn_outcome"
  | Answered "cache_error + ByteView"
  | Crashed

text \<open>\<open>hd_loads\<close> is a ghost field: the number of calls of the loader.\<close>

record 'w herd =
  hd_policy :: CachePolicy
  hd_sf :: "ByteView sfGroup"
  hd_phases :: "phase list"
  hd_world :: 'w
  hd_events :: "ByteView event list"
  hd_loads :: nat

definition herd_init :: "CachePolicy \<Rightarrow> string list \<Rightarrow> 'w \<Rightarrow> 'w herd" where
  "herd_init p keys w = \<lparr>hd_policy = p, hd_sf = sf_init keys, hd_phases = replicate (length keys) ChecksFilter, hd_world = w,
     hd_events = [], hd_loads = 0\<rparr>"

definition phase_to :: "nat \<Rightarrow> phase \<Rightarrow> 'w herd \<Rightarrow> 'w herd" where
  "phase_to t ph s = s\<lparr>hd_phases := (hd_phases s)[t := ph]\<rparr>"

definition set_policy :: "ByteView event list \<Rightarrow> CachePolicy \<Rightarrow> 'w herd \<Rightarrow> 'w herd" where
  "set_policy ev p s = s\<lparr>hd_policy := p, hd_events := hd_events s @ ev\<rparr>"

definition at_filter :: "nat \<Rightarrow> string \<Rightarrow> 'w herd \<Rightarrow> 'w herd" where
  "at_filter t key s =
     phase_to t
       (case (case p_bf (hd_policy s) of None \<Rightarrow> Some True | Some bf \<Rightarrow> bf_Contains bf key) of
          None \<Rightarrow> Crashed
        | Some present \<Rightarrow> if present then ReadsCache else Answered (Inl ErrBloomRejected)) s"

definition at_cache :: "reads \<Rightarrow> nat \<Rightarrow> string \<Rightarrow> 'w herd \<Rightarrow> 'w herd" where
  "at_cache rd t key s =
     (let p = hd_policy s in
      case Cache_Get (rd_t1 rd) (rd_t2 rd) key (p_cache p) of
        None \<Rightarrow> phase_to t Crashed s
      | Some (r, ev, c) \<Rightarrow>
          phase_to t (case r of Inr val \<Rightarrow> Answered (Inr val) | Inl err \<Rightarrow> Calls) (set_policy ev (p\<lparr>p_cache := c\<rparr>) s))"

text \<open>The function passed to \<open>Do\<close>: a panic in it ends it with the outcome \<open>fn_panic\<close>.\<close>

definition fn_panic :: phase where
  "fn_panic = Ends (FnPanic ''runtime error'')"

definition at_check :: "reads \<Rightarrow> nat \<Rightarrow> string \<Rightarrow> 'w herd \<Rightarrow> 'w herd" where
  "at_check rd t key s =
     (let p = hd_policy s in
      case Option.bind (ca_store (p_cache p)) (store_Get (rd_c1 rd) (rd_c2 rd) key) of
        None \<Rightarrow> phase_to t fn_panic s
      | Some (r, ev, st) \<Rightarrow>
          phase_to t
            (case r of
               Some (Some (ByteView (Some bs))) \<Rightarrow> Ends (FnReturn (Some (ByteView (Some bs))) None)
             | _ \<Rightarrow> Rechecked)
            (set_policy ev (p\<lparr>p_cache := (p_cache p)\<lparr>ca_store := Some st\<rparr>\<rparr>) s))"

definition at_loader :: "(string \<Rightarrow> 'w \<Rightarrow> slice option \<times> 'w) \<Rightarrow> nat \<Rightarrow> string \<Rightarrow> 'w herd \<Rightarrow> 'w herd" where
  "at_loader loader t key s =
     (case loader key (hd_world s) of
        (r, w) \<Rightarrow> phase_to t (Loaded r) (s\<lparr>hd_world := w, hd_loads := Suc (hd_loads s)\<rparr>))"

definition at_write :: "reads \<Rightarrow> nat \<Rightarrow> string \<Rightarrow> slice option \<Rightarrow> 'w herd \<Rightarrow> 'w herd" where
  "at_write rd t key r s =
     (let p = hd_policy s in
      case r of
        None \<Rightarrow>
          (case Cache_SetWithExpiration (rd_until rd) (rd_now rd) (rd_now2 rd) (rd_ks rd) key (ByteView None) (rd_add rd + time_Minute) (p_cache p) of
             None \<Rightarrow> phase_to t fn_panic s
           | Some (ev, c) \<Rightarrow>
               phase_to t (Ends (FnReturn None (Some (ErrFn ''loader failed'')))) (set_policy ev (p\<lparr>p_cache := c\<rparr>) s))
      | Some bytes \<Rightarrow>
          (case Policy_Set rd key (ByteView bytes) p of
             None \<Rightarrow> phase_to t fn_panic s
           | Some (ev, p) \<Rightarrow> phase_to t (Written (ByteView bytes)) (set_policy ev p s)))"

definition at_add :: "nat \<Rightarrow> string \<Rightarrow> ByteView \<Rightarrow> 'w herd \<Rightarrow> 'w herd" where
  "at_add t key data s =
     (let p = hd_policy s in
      case bf_add_opt key (p_bf p) of
        None \<Rightarrow> phase_to t fn_panic s
      | Some bf \<Rightarrow> phase_to t (Ends (FnReturn (Some data) None)) (set_policy [] (p\<lparr>p_bf := bf\<rparr>) s))"

text \<open>After \<open>Do\<close>; the type assertion panics when there is neither a value nor an error.\<close>

definition at_answer :: "nat \<Rightarrow> ByteView option \<Rightarrow> sf_error option \<Rightarrow> 'w herd \<Rightarrow> 'w herd" where
  "at_answer t val err s =
     (let p = hd_policy s in
      case err of
        Some e \<Rightarrow>
          phase_to t (Answered (Inl (case e of ErrFn msg \<Rightarrow> ErrLoaderFailed | ErrPanicked r \<Rightarrow> ErrPanic)))
            (set_policy [] (p\<lparr>p_cache := add_miss (p_cache p)\<rparr>) s)
      | None \<Rightarrow>
          phase_to t (case val of None \<Rightarrow> Crashed | Some v \<Rightarrow> Answered (Inr v))
            (set_policy [] (p\<lparr>p_cache := add_hit (p_cache p)\<rparr>) s))"

text \<open>
  The next action of goroutine \<open>t\<close>, whose clock readings are \<open>rds t\<close>; \<open>None\<close>: it waits inside \<open>Do\<close> or
  has returned.
\<close>

definition herd_action ::
  "(nat \<Rightarrow> reads) \<Rightarrow> (string \<Rightarrow> 'w \<Rightarrow> slice option \<times> 'w) \<Rightarrow> nat \<Rightarrow> 'w herd \<Rightarrow> 'w herd option" where
  "herd_action rds loader t s =
     (let pc = sf_threads (hd_sf s) ! t; key = pc_key pc in
      case hd_phases s ! t of
        ChecksFilter \<Rightarrow> Some (at_filter t key s)
      | ReadsCache \<Rightarrow> Some (at_cache (rds t) t key s)
      | Calls \<Rightarrow>
          (case pc of
             AtFn k c \<Rightarrow> Some (at_check (rds t) t key s)
           | Finished k val err \<Rightarrow> Some (at_answer t val err s)
           | _ \<Rightarrow> map_option (\<lambda>g. phase_to t Calls (s\<lparr>hd_sf := g\<rparr>)) (sf_action (FnPanic []) t (hd_sf s)))
      | Rechecked \<Rightarrow> Some (at_loader loader t key s)
      | Loaded r \<Rightarrow> Some (at_write (rds t) t key r s)
      | Written data \<Rightarrow> Some (at_add t key data s)
      | Ends out \<Rightarrow> map_option (\<lambda>g. phase_to t Calls (s\<lparr>hd_sf := g\<rparr>)) (sf_action out t (hd_sf s))
      | Answered r \<Rightarrow> None
      | Crashed \<Rightarrow> None)"

inductive herd_step ::
  "(nat \<Rightarrow> reads) \<Rightarrow> (string \<Rightarrow> 'w \<Rightarrow> slice option \<times> 'w) \<Rightarrow> 'w herd \<Rightarrow> 'w herd \<Rightarrow> bool" for rds loader where
  act: "t < length (hd_phases s) \<Longrightarrow> herd_action rds loader t s = Some s' \<Longrightarrow> herd_step rds loader s s'"

inductive_cases herd_stepE: "herd_step rds loader s s'"

text \<open>
  Meanwhile other goroutines call the other methods of the policy layer, except \<open>Close\<close>; each such call
  is one step. What they write does not go through \<open>Do\<close>.
\<close>

fun keeps_open :: "policy_op \<Rightarrow> bool" where
  "keeps_open (PGet rd k) = False"
| "keeps_open PClose = False"
| "keeps_open _ = True"

inductive policy_call :: "(string \<Rightarrow> 'w \<Rightarrow> slice option \<times> 'w) \<Rightarrow> 'w herd \<Rightarrow> 'w herd \<Rightarrow> bool" for loader where
  call: "keeps_open x \<Longrightarrow> policy_step loader x (hd_policy s, hd_world s) = Some (out, p, w) \<Longrightarrow>
    policy_call loader s (s\<lparr>hd_policy := p, hd_world := w\<rparr>)"

inductive_cases policy_callE: "policy_call loader s s'"

text \<open>A schedule that names the goroutines in the order in which they move.\<close>

primrec herd_run ::
  "(nat \<Rightarrow> reads) \<Rightarrow> (string \<Rightarrow> 'w \<Rightarrow> slice option \<times> 'w) \<Rightarrow> nat list \<Rightarrow> 'w herd \<Rightarrow> 'w herd option" where
  "herd_run rds loader [] s = Some s"
| "herd_run rds loader (t # ts) s =
     (if t < length (hd_phases s) then Option.bind (herd_action rds loader t s) (herd_run rds loader ts) else None)"

lemma herd_run_steps: "herd_run rds loader ts s = Some s' \<Longrightarrow> rtranclp (herd_step rds loader) s s'"
proof (induction ts arbitrary: s)
  case (Cons t ts)
  then obtain s1 where s1: "t < length (hd_phases s)" "herd_action rds loader t s = Some s1" "herd_run rds loader ts s1 = Some s'"
    by (auto split: if_splits bind_splits)
  from converse_rtranclp_into_rtranclp [of "herd_step rds loader", OF herd_step.act [OF s1(1,2)] Cons.IH [OF s1(3)]] show ?case .
qed simp

lemma herd_to_sel [simp]:
  "hd_phases (phase_to t ph s) = (hd_phases s)[t := ph]" "hd_policy (phase_to t ph s) = hd_policy s" "hd_sf (phase_to t ph s) = hd_sf s"
  "hd_world (phase_to t ph s) = hd_world s" "hd_loads (phase_to t ph s) = hd_loads s"
  "hd_phases (set_policy ev p s) = hd_phases s" "hd_policy (set_policy ev p s) = p" "hd_sf (set_policy ev p s) = hd_sf s"
  "hd_world (set_policy ev p s) = hd_world s" "hd_loads (set_policy ev p s) = hd_loads s"
  by (simp_all add: phase_to_def set_policy_def)

subsection \<open>The invariant\<close>

text \<open>The function passed to \<open>Do\<close> returns a value or an error, or panics.\<close>

fun good_out :: "ByteView fn_outcome \<Rightarrow> bool" where
  "good_out (FnReturn v e) \<longleftrightarrow> v \<noteq> None \<or> e \<noteq> None"
| "good_out (FnPanic r) \<longleftrightarrow> True"

fun agrees :: "phase \<Rightarrow> ByteView pc \<Rightarrow> bool" where
  "agrees ChecksFilter pc \<longleftrightarrow> (\<exists>k. pc = AtLoad k)"
| "agrees ReadsCache pc \<longleftrightarrow> (\<exists>k. pc = AtLoad k)"
| "agrees Rechecked pc \<longleftrightarrow> (\<exists>k c. pc = AtFn k c)"
| "agrees (Loaded r) pc \<longleftrightarrow> (\<exists>k c. pc = AtFn k c)"
| "agrees (Written v) pc \<longleftrightarrow> (\<exists>k c. pc = AtFn k c)"
| "agrees (Ends out) pc \<longleftrightarrow> good_out out \<and> (\<exists>k c. pc = AtFn k c)"
| "agrees (Answered r) pc \<longleftrightarrow> (\<exists>k. pc = AtLoad k) \<or> is_finished pc"
| "agrees Calls pc \<longleftrightarrow> True"
| "agrees Crashed pc \<longleftrightarrow> False"

definition ready :: "CachePolicy \<Rightarrow> bool" where
  "ready p \<longleftrightarrow> policy_ok p \<and> ca_initialized (p_cache p)"

definition herd_ok :: "string list \<Rightarrow> 'w herd \<Rightarrow> bool" where
  "herd_ok keys s \<longleftrightarrow> ready (hd_policy s) \<and> (\<exists>ow. sf_inv keys ow (hd_sf s)) \<and> length (hd_phases s) = length keys \<and>
     (\<forall>t < length keys. agrees (hd_phases s ! t) (sf_threads (hd_sf s) ! t)) \<and> (\<forall>x \<in> set (sf_log (hd_sf s)). good_out (snd x))"

lemma herd_okD:
  assumes "herd_ok keys s"
  shows "ready (hd_policy s)" and "length (hd_phases s) = length keys" and "length (sf_threads (hd_sf s)) = length keys"
    and "t < length keys \<Longrightarrow> agrees (hd_phases s ! t) (sf_threads (hd_sf s) ! t)"
    and "t < length keys \<Longrightarrow> pc_key (sf_threads (hd_sf s) ! t) = keys ! t"
proof -
  obtain ow where ow: "sf_inv keys ow (hd_sf s)" using assms by (auto simp: herd_ok_def)
  have k: "map pc_key (sf_threads (hd_sf s)) = keys" by (rule sf_invD(5) [OF ow])
  then show l: "length (sf_threads (hd_sf s)) = length keys" by (metis length_map)
  show "pc_key (sf_threads (hd_sf s) ! t) = keys ! t" if "t < length keys" using k that l by (metis nth_map)
qed (use assms in \<open>simp_all add: herd_ok_def\<close>)

text \<open>The methods of the cache on a ready policy.\<close>

lemma ready_store:
  assumes "ready p"
  obtains st where "ca_store (p_cache p) = Some st" "store_ok bv_Len st" "\<not> ca_closed (p_cache p)"
  using assms open_store [of "p_cache p"] unfolding ready_def policy_ok_def by blast

lemma ready_put: "ready p \<Longrightarrow> store_ok bv_Len st \<Longrightarrow> ready (p\<lparr>p_cache := (p_cache p)\<lparr>ca_store := Some st\<rparr>\<rparr>)"
  by (simp add: ready_def policy_ok_def store_upd_ok)

lemma ready_counters [simp]:
  "ready (p\<lparr>p_cache := add_miss c\<rparr>) = ready (p\<lparr>p_cache := c\<rparr>)" "ready (p\<lparr>p_cache := add_hit c\<rparr>) = ready (p\<lparr>p_cache := c\<rparr>)"
  by (simp_all add: ready_def policy_ok_def add_miss_def add_hit_def cache_ok_def)

lemma ready_write:
  assumes "ready p"
  shows "\<exists>ev c. Cache_SetWithExpiration t now now2 ks k v e (p_cache p) = Some (ev, c) \<and> ready (p\<lparr>p_cache := c\<rparr>)"
    and "\<exists>ev c. Cache_Set now now2 ks k v (p_cache p) = Some (ev, c) \<and> ready (p\<lparr>p_cache := c\<rparr>)"
proof -
  obtain st where st: "ca_store (p_cache p) = Some st" "store_ok bv_Len st" "\<not> ca_closed (p_cache p)" using ready_store [OF assms] .
  have i: "ensureInitialized (p_cache p) = p_cache p" using assms by (simp add: ensureInitialized_def ready_def)
  have w: "\<exists>ev st'. store_SetWithExpiration bv_Len now now2 ks k (Some v) ttl st = Some (ev, st') \<and> store_ok bv_Len st'" for ttl
    using store.set_total [OF st(2)] .
  show "\<exists>ev c. Cache_SetWithExpiration t now now2 ks k v e (p_cache p) = Some (ev, c) \<and> ready (p\<lparr>p_cache := c\<rparr>)"
    using w [of "time_Sub e t"] st i ready_put [OF assms] assms
    by (cases "time_Sub e t \<le> 0") (auto simp: Cache_SetWithExpiration_def Let_def)
  show "\<exists>ev c. Cache_Set now now2 ks k v (p_cache p) = Some (ev, c) \<and> ready (p\<lparr>p_cache := c\<rparr>)"
    using w [of 0] st i ready_put [OF assms] by (auto simp: Cache_Set_def store_Set_eq Let_def)
qed

lemma ready_Policy_Set:
  assumes "ready p"
  shows "\<exists>ev c. Policy_Set rd k v p = Some (ev, p\<lparr>p_cache := c\<rparr>) \<and> ready (p\<lparr>p_cache := c\<rparr>)"
  using ready_write(1) [OF assms, of "rd_until rd" "rd_now rd" "rd_now2 rd" "rd_ks rd" k v
      "rd_add rd + addJitter (rd_rand rd) (co_DefaultTTL (p_opts p))"]
    ready_write(2) [OF assms, of "rd_now rd" "rd_now2 rd" "rd_ks rd" k v]
  by (cases "co_DefaultTTL (p_opts p) > 0") (auto simp: Policy_Set_def Let_def)

lemma ready_Cache_Get:
  assumes "ready p"
  shows "\<exists>r ev c. Cache_Get t1 t2 k (p_cache p) = Some (r, ev, c) \<and> ready (p\<lparr>p_cache := c\<rparr>)"
  using Cache_Get_init [of "p_cache p" t1 t2 k] assms by (auto simp: ready_def policy_ok_def)

lemma ready_Policy_SetWithExpiration:
  assumes "ready p"
  shows "\<exists>ev c. Policy_SetWithExpiration rd k v e p = Some (ev, p\<lparr>p_cache := c\<rparr>) \<and> ready (p\<lparr>p_cache := c\<rparr>)"
proof (cases "time_Sub e (rd_until0 rd) \<le> 0")
  case True
  with assms show ?thesis by (intro exI [of _ "[]"] exI [of _ "p_cache p"]) (simp add: Policy_SetWithExpiration_def)
next
  case False
  with ready_write(1) [OF assms, of "rd_until rd" "rd_now rd" "rd_now2 rd" "rd_ks rd" k v
      "rd_add rd + addJitter (rd_rand rd) (time_Sub e (rd_until0 rd))"]
  show ?thesis by (auto simp: Policy_SetWithExpiration_def Let_def)
qed

lemma ready_Cache_Delete_Clear:
  assumes "ready p"
  shows "\<exists>r ev c. Cache_Delete k (p_cache p) = Some (r, ev, c) \<and> ready (p\<lparr>p_cache := c\<rparr>)"
    and "\<exists>ev c. Cache_Clear ord (p_cache p) = Some (ev, c) \<and> ready (p\<lparr>p_cache := c\<rparr>)"
proof -
  obtain st where st: "ca_store (p_cache p) = Some st" "store_ok bv_Len st" "\<not> ca_closed (p_cache p)" using ready_store [OF assms] .
  have i: "ca_initialized (p_cache p)" using assms by (simp add: ready_def)
  obtain r ev st' where "store_Delete bv_Len k st = Some (r, ev, st')" "store_ok bv_Len st'" using store.del_totalE [OF st(2)] .
  with st i ready_put [OF assms] show "\<exists>r ev c. Cache_Delete k (p_cache p) = Some (r, ev, c) \<and> ready (p\<lparr>p_cache := c\<rparr>)"
    by (auto simp: Cache_Delete_def)
  have c: "\<exists>ev c. Cache_Clear ord (p_cache p) = Some (ev, c) \<and> cache_ok c" using Cache_Clear_ok assms by (simp add: ready_def policy_ok_def)
  obtain ev' st'' where "store_Clear ord st = Some (ev', st'')" using store.clear_total [OF st(2)] by blast
  with c st i assms show "\<exists>ev c. Cache_Clear ord (p_cache p) = Some (ev, c) \<and> ready (p\<lparr>p_cache := c\<rparr>)"
    by (auto simp: Cache_Clear_def ready_def policy_ok_def)
qed

lemma ready_filter:
  assumes "ready p"
  shows "\<exists>b. (case p_bf p of None \<Rightarrow> Some True | Some bf \<Rightarrow> bf_Contains bf k) = Some b"
    and "\<exists>bf. bf_add_opt k (p_bf p) = Some bf \<and> ready (p\<lparr>p_bf := bf\<rparr>)"
proof -
  have p: "policy_ok p" using assms by (simp add: ready_def)
  then show "\<exists>b. (case p_bf p of None \<Rightarrow> Some True | Some bf \<Rightarrow> bf_Contains bf k) = Some b"
    using bloom.contains_total [of _ k] by (cases "p_bf p") (auto simp: policy_ok_def)
  from bf_add_opt_ok [OF p, of k] show "\<exists>bf. bf_add_opt k (p_bf p) = Some bf \<and> ready (p\<lparr>p_bf := bf\<rparr>)"
    using assms by (auto simp: ready_def policy_ok_def)
qed

subsection \<open>Every call returns\<close>

fun phase_work :: "phase \<Rightarrow> nat" where
  "phase_work ChecksFilter = 7"
| "phase_work ReadsCache = 6"
| "phase_work Calls = 5"
| "phase_work Rechecked = 4"
| "phase_work (Loaded r) = 3"
| "phase_work (Written v) = 2"
| "phase_work (Ends out) = 1"
| "phase_work (Answered r) = 0"
| "phase_work Crashed = 0"

text \<open>
  An action of goroutine \<open>t\<close> either moves it to a phase that agrees with its place in \<open>Do\<close>, or is an
  action of \<open>Do\<close>.
\<close>

definition own_move :: "nat \<Rightarrow> 'w herd \<Rightarrow> 'w herd \<Rightarrow> bool" where
  "own_move t s s' \<longleftrightarrow> (\<exists>ph. hd_phases s' = (hd_phases s)[t := ph] \<and> hd_sf s' = hd_sf s \<and> ready (hd_policy s') \<and>
     agrees ph (sf_threads (hd_sf s) ! t) \<and> phase_work ph < phase_work (hd_phases s ! t))"

definition do_move :: "nat \<Rightarrow> 'w herd \<Rightarrow> 'w herd \<Rightarrow> bool" where
  "do_move t s s' \<longleftrightarrow> (\<exists>out g. s' = phase_to t Calls (s\<lparr>hd_sf := g\<rparr>) \<and> sf_action out t (hd_sf s) = Some g \<and>
     (hd_phases s ! t = Ends out \<or> hd_phases s ! t = Calls \<and> (\<forall>k c. sf_threads (hd_sf s) ! t \<noteq> AtFn k c)))"

lemma own_moveI:
  assumes "hd_phases s' = (hd_phases s)[t := ph]" and "hd_sf s' = hd_sf s" and "ready (hd_policy s')"
    and "agrees ph (sf_threads (hd_sf s) ! t)" and "phase_work ph < phase_work (hd_phases s ! t)"
  shows "own_move t s s'"
  using assms unfolding own_move_def by blast

lemma at_check_moves:
  assumes "ready (hd_policy s)" and "hd_phases s ! t = Calls" and "sf_threads (hd_sf s) ! t = AtFn k c"
  shows "own_move t s (at_check rd t key s)"
proof -
  obtain st where st: "ca_store (p_cache (hd_policy s)) = Some st" "store_ok bv_Len st" using ready_store [OF assms(1)] .
  obtain r ev st' where g: "store_Get (rd_c1 rd) (rd_c2 rd) key st = Some (r, ev, st')" "store_ok bv_Len st'"
    using store.get_totalE [OF st(2)] .
  let ?ph = "case r of Some (Some (ByteView (Some bs))) \<Rightarrow> Ends (FnReturn (Some (ByteView (Some bs))) None) | _ \<Rightarrow> Rechecked"
  have ph: "agrees ?ph (AtFn k c) \<and> phase_work ?ph < 5" by (simp split: option.split ByteView.split)
  show ?thesis
    by (rule own_moveI [where ph = ?ph]) (use st g ready_put [OF assms(1) g(2)] ph assms(2,3) in \<open>simp_all add: at_check_def Let_def\<close>)
qed

lemma at_write_moves:
  assumes "ready (hd_policy s)" and "hd_phases s ! t = Loaded r" and "sf_threads (hd_sf s) ! t = AtFn k c"
  shows "own_move t s (at_write rd t key r s)"
proof (cases r)
  case None
  obtain ev c' where "Cache_SetWithExpiration (rd_until rd) (rd_now rd) (rd_now2 rd) (rd_ks rd) key (ByteView None) (rd_add rd + time_Minute)
      (p_cache (hd_policy s)) = Some (ev, c')" "ready ((hd_policy s)\<lparr>p_cache := c'\<rparr>)" using ready_write(1) [OF assms(1)] by blast
  with None assms(2,3) show ?thesis
    by (intro own_moveI [where ph = "Ends (FnReturn None (Some (ErrFn ''loader failed'')))"]) (simp_all add: at_write_def Let_def)
next
  case (Some bytes)
  obtain ev c' where "Policy_Set rd key (ByteView bytes) (hd_policy s) = Some (ev, (hd_policy s)\<lparr>p_cache := c'\<rparr>)"
    "ready ((hd_policy s)\<lparr>p_cache := c'\<rparr>)" using ready_Policy_Set [OF assms(1)] by blast
  with Some assms(2,3) show ?thesis
    by (intro own_moveI [where ph = "Written (ByteView bytes)"]) (simp_all add: at_write_def Let_def)
qed

lemma at_answer_moves:
  assumes ok: "herd_ok keys s" and t: "t < length keys" and "hd_phases s ! t = Calls" and f: "sf_threads (hd_sf s) ! t = Finished k val err"
  shows "own_move t s (at_answer t val err s)"
proof -
  obtain ow where ow: "sf_inv keys ow (hd_sf s)" using ok by (auto simp: herd_ok_def)
  have "logged (hd_sf s) k (val, err)"
    using sf_invD(2) [OF ow, of t] t herd_okD(3) [OF ok] f by (simp add: thread_ok_def)
  then obtain out where o: "(k, out) \<in> set (sf_log (hd_sf s))" "fn_result out = (val, err)" by (auto simp: logged_def)
  have "\<forall>x \<in> set (sf_log (hd_sf s)). good_out (snd x)" using ok by (simp add: herd_ok_def)
  then have "good_out out" using o(1) by fastforce
  then have "val \<noteq> None \<or> err \<noteq> None" using o(2) by (cases out) auto
  then show ?thesis using herd_okD(1) [OF ok] assms(3) f
    by (cases err; cases val) (auto simp: at_answer_def Let_def intro!: own_moveI)
qed

lemma herd_action_moves:
  assumes ok: "herd_ok keys s" and t: "t < length keys" and act: "herd_action rds loader t s = Some s'"
  shows "own_move t s s' \<or> do_move t s s'"
proof -
  note r = herd_okD(1) [OF ok]
  have a: "agrees (hd_phases s ! t) (sf_threads (hd_sf s) ! t)" by (rule herd_okD(4) [OF ok t])
  let ?pc = "sf_threads (hd_sf s) ! t" let ?key = "pc_key ?pc"
  show ?thesis
  proof (cases "hd_phases s ! t")
    case ChecksFilter
    obtain b where "(case p_bf (hd_policy s) of None \<Rightarrow> Some True | Some bf \<Rightarrow> bf_Contains bf ?key) = Some b"
      using ready_filter(1) [OF r] by blast
    with ChecksFilter act a r have "own_move t s s'"
      by (intro own_moveI [where ph = "if b then ReadsCache else Answered (Inl ErrBloomRejected)"])
        (auto simp: herd_action_def at_filter_def Let_def)
    then show ?thesis ..
  next
    case ReadsCache
    obtain x ev c where "Cache_Get (rd_t1 (rds t)) (rd_t2 (rds t)) ?key (p_cache (hd_policy s)) = Some (x, ev, c)"
      "ready ((hd_policy s)\<lparr>p_cache := c\<rparr>)" using ready_Cache_Get [OF r] by blast
    with ReadsCache act a have "own_move t s s'"
      by (intro own_moveI [where ph = "case x of Inr val \<Rightarrow> Answered (Inr val) | Inl err \<Rightarrow> Calls"])
        (auto simp: herd_action_def at_cache_def Let_def split: sum.split)
    then show ?thesis ..
  next
    case Calls
    then show ?thesis using act at_check_moves [OF r Calls] at_answer_moves [OF ok t Calls]
      by (cases ?pc) (auto simp: herd_action_def do_move_def Let_def)
  next
    case Rechecked
    with act a r have "own_move t s s'"
      by (intro own_moveI [where ph = "Loaded (fst (loader ?key (hd_world s)))"])
        (auto simp: herd_action_def at_loader_def Let_def split: prod.split)
    then show ?thesis ..
  next
    case (Loaded x)
    then show ?thesis using act a at_write_moves [OF r Loaded] by (auto simp: herd_action_def Let_def)
  next
    case (Written data)
    obtain bf where "bf_add_opt ?key (p_bf (hd_policy s)) = Some bf" "ready ((hd_policy s)\<lparr>p_bf := bf\<rparr>)"
      using ready_filter(2) [OF r] by blast
    with Written act a have "own_move t s s'"
      by (intro own_moveI [where ph = "Ends (FnReturn (Some data) None)"]) (auto simp: herd_action_def at_add_def Let_def)
    then show ?thesis ..
  next
    case (Ends out)
    then show ?thesis using act by (auto simp: herd_action_def do_move_def Let_def)
  qed (use act in \<open>simp_all add: herd_action_def Let_def\<close>)
qed

lemma own_move_ok:
  assumes "herd_ok keys s" and "t < length keys" and "own_move t s s'"
  shows "herd_ok keys s'"
proof -
  obtain ph where ph: "hd_phases s' = (hd_phases s)[t := ph]" "hd_sf s' = hd_sf s" "ready (hd_policy s')"
    "agrees ph (sf_threads (hd_sf s) ! t)" using assms(3) unfolding own_move_def by blast
  have "agrees (hd_phases s' ! u) (sf_threads (hd_sf s') ! u)" if "u < length keys" for u
    using ph assms(2) that herd_okD(2,4) [OF assms(1)] by (cases "u = t") simp_all
  then show ?thesis using assms(1) ph(1-3) unfolding herd_ok_def by simp
qed

lemma sf_action_log:
  "sf_action out t g = Some g' \<Longrightarrow> sf_log g' = sf_log g \<or> (\<exists>k c. sf_threads g ! t = AtFn k c \<and> sf_log g' = sf_log g @ [(k, out)])"
  by (auto simp: sf_action_def Let_def split: pc.splits option.splits if_splits)

lemma do_move_ok:
  assumes "herd_ok keys s" and "t < length keys" and "do_move t s s'"
  shows "herd_ok keys s'"
proof -
  obtain out g where g: "s' = phase_to t Calls (s\<lparr>hd_sf := g\<rparr>)" "sf_action out t (hd_sf s) = Some g"
    "hd_phases s ! t = Ends out \<or> hd_phases s ! t = Calls \<and> (\<forall>k c. sf_threads (hd_sf s) ! t \<noteq> AtFn k c)"
    using assms(3) unfolding do_move_def by blast
  note d = herd_okD [OF assms(1)]
  obtain ow where ow: "sf_inv keys ow (hd_sf s)" using assms(1) by (auto simp: herd_ok_def)
  have "sf_step (t, out) (hd_sf s) = Some g" using g(2) assms(2) d(3) by (simp add: sf_step_def)
  then have inv: "\<exists>ow. sf_inv keys ow g" by (rule sf_step_inv [OF ow])
  obtain pc where pc: "sf_threads g = (sf_threads (hd_sf s))[t := pc]" using sf_action_works [OF g(2)] by blast
  have "agrees (hd_phases s' ! u) (sf_threads (hd_sf s') ! u)" if "u < length keys" for u
    using that assms(2) d(2-4) by (cases "u = t") (simp_all add: g(1) pc)
  moreover have "good_out out" if "sf_threads (hd_sf s) ! t = AtFn k c" for k c
    using g(3) that d(4) [OF assms(2)] by auto
  then have "\<forall>x \<in> set (sf_log g). good_out (snd x)"
    using sf_action_log [OF g(2)] assms(1) by (auto simp: herd_ok_def)
  ultimately show ?thesis using assms(1) inv unfolding herd_ok_def by (simp add: g(1))
qed

lemma herd_step_moves:
  assumes "herd_ok keys s" and "herd_step rds loader s s'"
  obtains t where "t < length keys" "herd_action rds loader t s = Some s'" "own_move t s s' \<or> do_move t s s'"
proof -
  obtain t where t: "t < length (hd_phases s)" "herd_action rds loader t s = Some s'" using assms(2) by (rule herd_stepE)
  have "t < length keys" using t(1) herd_okD(2) [OF assms(1)] by simp
  with t(2) herd_action_moves [OF assms(1) this t(2)] that show ?thesis by blast
qed

lemma herd_step_ok:
  assumes "herd_ok keys s" and "herd_step rds loader s s'"
  shows "herd_ok keys s'"
proof -
  obtain t where "t < length keys" "own_move t s s' \<or> do_move t s s'" using herd_step_moves [OF assms] .
  with own_move_ok [OF assms(1)] do_move_ok [OF assms(1)] show ?thesis by blast
qed

lemma herd_init_ok: "ready p \<Longrightarrow> herd_ok keys (herd_init p keys w)"
  using sf_init_inv by (auto simp: herd_ok_def herd_init_def) (simp_all add: sf_init_def)

definition herd_work :: "'w herd \<Rightarrow> nat" where
  "herd_work s = 6 * sf_work (hd_sf s) + sum_list (map phase_work (hd_phases s))"

definition all_answered :: "'w herd \<Rightarrow> bool" where
  "all_answered s \<longleftrightarrow> (\<forall>ph \<in> set (hd_phases s). \<exists>r. ph = Answered r)"

lemma sum_list_update_bound:
  fixes f :: "'a \<Rightarrow> nat"
  shows "t < length xs \<Longrightarrow> sum_list (map f (xs[t := x])) + f (xs ! t) = sum_list (map f xs) + f x"
proof (induction xs arbitrary: t)
  case (Cons y ys)
  then show ?case by (cases t) auto
qed simp

lemma herd_step_works:
  assumes "herd_ok keys s" and "herd_step rds loader s s'"
  shows "herd_work s' < herd_work s"
proof -
  obtain t where l: "t < length keys" and m: "own_move t s s' \<or> do_move t s s'" using herd_step_moves [OF assms] .
  have "t < length (hd_phases s)" using l herd_okD(2) [OF assms(1)] by simp
  note sum = sum_list_update_bound [OF this, of phase_work]
  show ?thesis using m
  proof
    assume "own_move t s s'"
    then obtain ph where "hd_phases s' = (hd_phases s)[t := ph]" "hd_sf s' = hd_sf s" "phase_work ph < phase_work (hd_phases s ! t)"
      unfolding own_move_def by blast
    with sum [of ph] show ?thesis by (simp add: herd_work_def)
  next
    assume "do_move t s s'"
    then obtain out g where g: "s' = phase_to t Calls (s\<lparr>hd_sf := g\<rparr>)" "sf_action out t (hd_sf s) = Some g"
      "1 \<le> phase_work (hd_phases s ! t)" unfolding do_move_def by force
    have "sf_step (t, out) (hd_sf s) = Some g" using g(2) l herd_okD(3) [OF assms(1)] by (simp add: sf_step_def)
    from sf_step_works [OF this] sum [of Calls] g(1,3) show ?thesis by (simp add: herd_work_def)
  qed
qed

text \<open>The calls of others change the policy only.\<close>

lemma policy_call_ready:
  assumes "ready p" and "keeps_open x" and "policy_step loader x (p, w) = Some (out, p', w')"
  shows "ready p'"
proof (cases x)
  case (PSet rd k v)
  with ready_Policy_Set [OF assms(1), of rd k v] assms(3) show ?thesis by auto
next
  case (PSetExp rd k v e)
  with ready_Policy_SetWithExpiration [OF assms(1), of rd k v e] assms(3) show ?thesis by auto
next
  case (PDelete k)
  with ready_Cache_Delete_Clear(1) [OF assms(1), of k] assms(3) show ?thesis by (auto simp: Policy_Delete_def)
next
  case (PClear ord)
  with ready_Cache_Delete_Clear(2) [OF assms(1), of ord] assms(3) show ?thesis by (auto simp: Policy_Clear_def)
qed (use assms in \<open>auto split: bind_splits\<close>)

lemma policy_call_ok:
  assumes "herd_ok keys s" and "policy_call loader s s'"
  shows "herd_ok keys s' \<and> herd_work s' = herd_work s"
  using assms(2)
proof (rule policy_callE)
  fix x out p w
  assume x: "keeps_open x" "policy_step loader x (hd_policy s, hd_world s) = Some (out, p, w)" and s': "s' = s\<lparr>hd_policy := p, hd_world := w\<rparr>"
  have "ready p" by (rule policy_call_ready [OF herd_okD(1) [OF assms(1)] x])
  with assms(1) show ?thesis by (simp add: s' herd_ok_def herd_work_def)
qed

text \<open>A goroutine that waits in \<open>Do\<close> waits for one that can move.\<close>

lemma herd_progress:
  assumes ok: "herd_ok keys s" and "\<not> all_answered s"
  shows "\<exists>s'. herd_step rds loader s s'"
proof -
  note d = herd_okD [OF ok]
  obtain t where t: "t < length keys" "\<And>r. hd_phases s ! t \<noteq> Answered r"
    using assms(2) d(2) by (auto simp: all_answered_def in_set_conv_nth)
  have step: "\<exists>s'. herd_step rds loader s s'" if "u < length keys" "herd_action rds loader u s \<noteq> None" for u
    using that d(2) herd_step.act [of u s rds loader] by auto
  let ?pc = "sf_threads (hd_sf s) ! t"
  show ?thesis
  proof (cases "\<exists>k c. ?pc = AtWait k c \<and> c_wg (sf_calls (hd_sf s) ! c) \<noteq> 0")
    case True
    then obtain k c where c: "?pc = AtWait k c" "c_wg (sf_calls (hd_sf s) ! c) \<noteq> 0" by blast
    obtain ow where ow: "sf_inv keys ow (hd_sf s)" using ok by (auto simp: herd_ok_def)
    have "call_ok ow (hd_sf s) c" using sf_invD(2) [OF ow, of t] sf_invD(3) [OF ow] t(1) d(3) c(1) by (simp add: thread_ok_def)
    then obtain u where u: "u < length keys" "owns (sf_threads (hd_sf s) ! u) c" using c(2) d(3) by (auto simp: call_ok_def)
    have "agrees (hd_phases s ! u) (sf_threads (hd_sf s) ! u)" using d(4) u(1) by simp
    then have "herd_action rds loader u s \<noteq> None"
      using u(2) by (cases "hd_phases s ! u"; cases "sf_threads (hd_sf s) ! u") (auto simp: herd_action_def sf_action_def Let_def)
    with u(1) show ?thesis by (rule step)
  next
    case False
    have "agrees (hd_phases s ! t) ?pc" using d(4) t(1) by simp
    then have "herd_action rds loader t s \<noteq> None"
      using t(2) False by (cases "hd_phases s ! t"; cases ?pc) (auto simp: herd_action_def sf_action_def Let_def split: option.split)
    with t(1) show ?thesis by (rule step)
  qed
qed

interpretation herd: disturbed_system "\<lambda>s. s = herd_init p keys w \<and> ready p" "herd_step rds loader" "herd_ok keys" herd_work all_answered
    "policy_call loader"
  for p keys and w :: 'w and rds loader
proof
  fix s s' :: "'w herd"
  show "herd_ok keys s" if "s = herd_init p keys w \<and> ready p" using that by (simp add: herd_init_ok)
  show "herd_ok keys s'" if "herd_ok keys s" "herd_step rds loader s s'" using that by (rule herd_step_ok)
  show "herd_work s' < herd_work s" if "herd_ok keys s" "herd_step rds loader s s'" using that by (rule herd_step_works)
  show "\<exists>s'. herd_step rds loader s s'" if "herd_ok keys s" "\<not> all_answered s" using that by (rule herd_progress)
  show "herd_ok keys s'" "herd_work s' \<le> herd_work s" if "herd_ok keys s" "policy_call loader s s'"
    using policy_call_ok [OF that] by simp_all
qed

subsection \<open>One goroutine alone\<close>

lemmas herd_exec = herd_init_def sf_init_def herd_action_def sf_action_def goto_def phase_to_def set_policy_def at_cache_def at_check_def
  at_loader_def at_write_def at_add_def at_answer_def

lemma at_filter_passes: "passes k (hd_policy s) \<Longrightarrow> at_filter t k s = phase_to t ReadsCache s"
  by (simp add: at_filter_def passes_def split: option.splits)

lemma herd_run_append:
  "herd_run rds loader ts s = Some s1 \<Longrightarrow> herd_run rds loader us s1 = Some s2 \<Longrightarrow> herd_run rds loader (ts @ us) s = Some s2"
  by (induction ts arbitrary: s) (auto split: if_splits bind_splits)

text \<open>The steps in \<open>Do\<close> up to the function, in it and after it; \<open>in_fn\<close>: the goroutine runs the function.\<close>

definition in_fn :: "string \<Rightarrow> phase \<Rightarrow> CachePolicy \<Rightarrow> 'w \<Rightarrow> ByteView event list \<Rightarrow> nat \<Rightarrow> 'w herd" where
  "in_fn k ph p w ev n =
     \<lparr>hd_policy = p, hd_sf = \<lparr>sf_m = [(k, 0)], sf_calls = [\<lparr>c_wg = 1, c_val = None, c_err = None\<rparr>], sf_threads = [AtFn k 0], sf_log = []\<rparr>,
      hd_phases = [ph], hd_world = w, hd_events = ev, hd_loads = n\<rparr>"

lemma alone_enters:
  assumes "passes k p"
    and "Cache_Get (rd_t1 rd) (rd_t2 rd) k (p_cache p) = Some (Inl err, ev, c)"
  shows "herd_run (\<lambda>_. rd) loader [0, 0, 0, 0] (herd_init p [k] w) = Some (in_fn k Calls (p\<lparr>p_cache := c\<rparr>) w ev 0)"
  using assms by (simp add: herd_exec in_fn_def at_filter_passes Let_def)

definition fn_out :: "cache_error + ByteView \<Rightarrow> ByteView fn_outcome" where
  "fn_out r = (case r of Inl e \<Rightarrow> FnReturn None (Some (ErrFn ''loader failed'')) | Inr v \<Rightarrow> FnReturn (Some v) None)"

lemma in_fn_actions:
  "herd_action (\<lambda>_. rd) loader 0 (in_fn k Calls p w ev n) = Some (at_check rd 0 k (in_fn k Calls p w ev n))"
  "herd_action (\<lambda>_. rd) loader 0 (in_fn k Rechecked p w ev n) = Some (in_fn k (Loaded (fst (loader k w))) p (snd (loader k w)) ev (Suc n))"
  "herd_action (\<lambda>_. rd) loader 0 (in_fn k (Loaded x) p w ev n) = Some (at_write rd 0 k x (in_fn k (Loaded x) p w ev n))"
  "herd_action (\<lambda>_. rd) loader 0 (in_fn k (Written v) p w ev n) = Some (at_add 0 k v (in_fn k (Written v) p w ev n))"
  by (simp_all add: herd_action_def in_fn_def at_loader_def phase_to_def Let_def split: prod.split)

lemma in_fn_sel [simp]:
  "hd_policy (in_fn k ph p w ev n) = p" "hd_phases (in_fn k ph p w ev n) = [ph]"
  "phase_to 0 ph' (in_fn k ph p w ev n) = in_fn k ph' p w ev n"
  "set_policy ev' p' (in_fn k ph p w ev n) = in_fn k ph p' w (ev @ ev') n"
  by (simp_all add: in_fn_def phase_to_def set_policy_def)

lemma alone_runs:
  assumes "load_fn rd loader k p w = Some (r, ev', p', w')"
  shows "(r = Inl ErrLoaderFailed \<or> (\<exists>v. r = Inr v)) \<and>
    (\<exists>ts n. herd_run (\<lambda>_. rd) loader ts (in_fn k Calls p w ev 0) = Some (in_fn k (Ends (fn_out r)) p' w' (ev @ ev') n))"
proof -
  obtain st x ev1 st1 where g: "ca_store (p_cache p) = Some st" "store_Get (rd_c1 rd) (rd_c2 rd) k st = Some (x, ev1, st1)"
    using assms by (auto simp: load_fn_def split: bind_splits)
  let ?p = "p\<lparr>p_cache := (p_cache p)\<lparr>ca_store := Some st1\<rparr>\<rparr>"
  show ?thesis
  proof (cases "\<exists>bs. x = Some (Some (ByteView (Some bs)))")
    case True
    then have "herd_run (\<lambda>_. rd) loader [0] (in_fn k Calls p w ev 0) = Some (in_fn k (Ends (fn_out r)) p' w' (ev @ ev') 0)"
      using g assms by (auto simp: in_fn_actions at_check_def load_fn_def fn_out_def Let_def)
    moreover have "\<exists>v. r = Inr v" using True g assms by (auto simp: load_fn_def Let_def)
    ultimately show ?thesis by blast
  next
    case False
    obtain y w1 where l: "loader k w = (y, w1)" by fastforce
    have check: "(case x of Some (Some (ByteView (Some bs))) \<Rightarrow> f bs | _ \<Rightarrow> z) = z" for f and z :: 'z
      using False by (simp split: option.split ByteView.split)
    have r1: "herd_run (\<lambda>_. rd) loader [0, 0] (in_fn k Calls p w ev 0) = Some (in_fn k (Loaded y) ?p w1 (ev @ ev1) 1)"
      using g l by (simp add: in_fn_actions at_check_def check Let_def)
    show ?thesis
    proof (cases y)
      case None
      then obtain ev2 c where "Cache_SetWithExpiration (rd_until rd) (rd_now rd) (rd_now2 rd) (rd_ks rd) k (ByteView None)
          (rd_add rd + time_Minute) (p_cache ?p) = Some (ev2, c)" "r = Inl ErrLoaderFailed" "ev' = ev1 @ ev2" "p' = ?p\<lparr>p_cache := c\<rparr>" "w' = w1"
        using assms g l by (auto simp: load_fn_def check Let_def split: bind_splits)
      with None have "herd_run (\<lambda>_. rd) loader [0] (in_fn k (Loaded y) ?p w1 (ev @ ev1) 1) =
          Some (in_fn k (Ends (fn_out r)) p' w' (ev @ ev') 1)" "r = Inl ErrLoaderFailed"
        by (simp_all add: in_fn_actions at_write_def fn_out_def Let_def)
      with herd_run_append [OF r1] show ?thesis by blast
    next
      case (Some bytes)
      then obtain ev2 p2 bf where "Policy_Set rd k (ByteView bytes) ?p = Some (ev2, p2)" "bf_add_opt k (p_bf p2) = Some bf"
          "r = Inr (ByteView bytes)" "ev' = ev1 @ ev2" "p' = p2\<lparr>p_bf := bf\<rparr>" "w' = w1"
        using assms g l by (auto simp: load_fn_def check Let_def split: bind_splits)
      with Some have "herd_run (\<lambda>_. rd) loader [0, 0] (in_fn k (Loaded y) ?p w1 (ev @ ev1) 1) =
          Some (in_fn k (Ends (fn_out r)) p' w' (ev @ ev') 1)" "\<exists>v. r = Inr v"
        by (simp_all add: in_fn_actions at_write_def at_add_def fn_out_def Let_def)
      with herd_run_append [OF r1] show ?thesis by blast
    qed
  qed
qed

lemma alone_leaves:
  "\<exists>s. herd_run (\<lambda>_. rd) loader [0, 0, 0, 0] (in_fn k (Ends (fn_out r)) p w ev n) = Some s \<and> hd_world s = w \<and> hd_events s = ev \<and>
    hd_phases s = [Answered (case r of Inl e \<Rightarrow> Inl ErrLoaderFailed | Inr v \<Rightarrow> Inr v)] \<and>
    hd_policy s = p\<lparr>p_cache := (case r of Inl e \<Rightarrow> add_miss (p_cache p) | Inr v \<Rightarrow> add_hit (p_cache p))\<rparr>"
  by (cases r) (simp_all add: herd_exec in_fn_def fn_out_def set_outcome_def Let_def)

text \<open>A system in which each state has at most one successor ends in one state.\<close>

lemma end_unique:
  assumes "\<And>s a b. step s a \<Longrightarrow> step s b \<Longrightarrow> a = b" and "rtranclp step s a" and "rtranclp step s b"
    and "\<And>c. \<not> step a c" and "\<And>c. \<not> step b c"
  shows "a = b"
  using assms(2,3)
proof (induction rule: converse_rtranclp_induct)
  case base
  then show ?case using assms(4) by (metis converse_rtranclpE)
next
  case (step s s1)
  then show ?case using assms(1,5) by (metis converse_rtranclpE)
qed

lemma alone_step: "length (hd_phases s) = 1 \<Longrightarrow> herd_step rds loader s s' \<longleftrightarrow> herd_action rds loader 0 s = Some s'"
  by (auto elim!: herd_stepE intro: herd_step.act)

lemma answered_stuck:
  assumes "all_answered s"
  shows "\<not> herd_step rds loader s s'"
proof
  assume "herd_step rds loader s s'"
  then obtain t where t: "t < length (hd_phases s)" "herd_action rds loader t s = Some s'" by (rule herd_stepE)
  obtain r where "hd_phases s ! t = Answered r" using assms nth_mem [OF t(1)] unfolding all_answered_def by blast
  with t(2) show False by (simp add: herd_action_def Let_def)
qed

lemma herd_steps_length:
  assumes "rtranclp (herd_step rds loader) (herd_init p keys w) s" and "ready p"
  shows "length (hd_phases s) = length keys"
  using herd_okD(2) [OF herd.steps_ok [OF assms(1) herd_init_ok [OF assms(2)]]] .

lemma alone_unique:
  assumes "ready p" and "rtranclp (herd_step rds loader) (herd_init p [k] w) a" and "rtranclp (herd_step rds loader) (herd_init p [k] w) b"
    and "all_answered a" and "all_answered b"
  shows "a = b"
proof -
  let ?one = "\<lambda>s s'. length (hd_phases s) = 1 \<and> herd_step rds loader s s'"
  have one: "rtranclp ?one (herd_init p [k] w) s" if "rtranclp (herd_step rds loader) (herd_init p [k] w) s" for s
    using that
  proof (induction rule: rtranclp_induct)
    case (step s s')
    have "?one s s'" using herd_steps_length [OF step.hyps(1) assms(1)] step.hyps(2) by simp
    with step.IH show ?case by (rule rtranclp.rtrancl_into_rtrancl)
  qed simp
  have stuck: "\<not> ?one a c" "\<not> ?one b c" for c using answered_stuck [OF assms(4)] answered_stuck [OF assms(5)] by blast+
  have "c = d" if "?one s c" "?one s d" for s c d using that by (auto simp: alone_step)
  from end_unique [of ?one, OF this one [OF assms(2)] one [OF assms(3)] stuck] show ?thesis .
qed

text \<open>The three ways through \<open>Get\<close>: rejected by the filter, found in the cache, loaded in \<open>Do\<close>.\<close>

definition shows_get :: "(cache_error + ByteView) \<times> ByteView event list \<times> CachePolicy \<times> 'w \<Rightarrow> 'w herd \<Rightarrow> bool" where
  "shows_get res s \<longleftrightarrow> hd_phases s = [Answered (fst res)] \<and> (hd_events s, hd_policy s, hd_world s) = snd res"

lemma alone_loads:
  assumes "ready p" and "passes k p" and "Cache_Get (rd_t1 rd) (rd_t2 rd) k (p_cache p) = Some (Inl err, ev, c)"
  shows "\<exists>ts s res. herd_run (\<lambda>_. rd) loader ts (herd_init p [k] w) = Some s \<and> Policy_Get rd loader k p w = Some res \<and> shows_get res s"
proof -
  let ?p = "p\<lparr>p_cache := c\<rparr>"
  have pass: "(case p_bf p of None \<Rightarrow> Some True | Some bf \<Rightarrow> bf_Contains bf k) = Some True"
    using assms(2) by (simp add: passes_def split: option.splits)
  have "ready ?p" using ready_Cache_Get [OF assms(1), of "rd_t1 rd" "rd_t2 rd" k] assms(3) by auto
  then obtain r ev' p' w' where l: "load_fn rd loader k ?p w = Some (r, ev', p', w')" 
    using load_fn_ok [of ?p rd loader k w] unfolding ready_def by blast
  obtain ts n where ts: "herd_run (\<lambda>_. rd) loader ts (in_fn k Calls ?p w ev 0) = Some (in_fn k (Ends (fn_out r)) p' w' (ev @ ev') n)"
    and r: "r = Inl ErrLoaderFailed \<or> (\<exists>v. r = Inr v)" using alone_runs [OF l] by blast
  obtain s where s: "herd_run (\<lambda>_. rd) loader [0, 0, 0, 0] (in_fn k (Ends (fn_out r)) p' w' (ev @ ev') n) = Some s" "hd_world s = w'"
    "hd_events s = ev @ ev'" "hd_phases s = [Answered (case r of Inl e \<Rightarrow> Inl ErrLoaderFailed | Inr v \<Rightarrow> Inr v)]"
    "hd_policy s = p'\<lparr>p_cache := (case r of Inl e \<Rightarrow> add_miss (p_cache p') | Inr v \<Rightarrow> add_hit (p_cache p'))\<rparr>"
    using alone_leaves [of rd loader k r p' w' "ev @ ev'" n] by blast
  have "\<exists>res. Policy_Get rd loader k p w = Some res \<and> shows_get res s"
    using pass assms(3) l r s(2-5) by (auto simp: Policy_Get_def loadFromSource_def sf_Do_def shows_get_def Let_def)
  with herd_run_append [OF alone_enters [OF assms(2,3)] herd_run_append [OF ts s(1)]] show ?thesis by blast
qed

lemma alone_ends:
  assumes "ready p"
  shows "\<exists>ts s res. herd_run (\<lambda>_. rd) loader ts (herd_init p [k] w) = Some s \<and> Policy_Get rd loader k p w = Some res \<and> shows_get res s"
proof -
  obtain b where b: "(case p_bf p of None \<Rightarrow> Some True | Some bf \<Rightarrow> bf_Contains bf k) = Some b" using ready_filter(1) [OF assms] by blast
  obtain r ev c where c: "Cache_Get (rd_t1 rd) (rd_t2 rd) k (p_cache p) = Some (r, ev, c)" using ready_Cache_Get [OF assms] by blast
  show ?thesis
  proof (cases "b \<and> (\<exists>err. r = Inl err)")
    case True
    then have "passes k p" using b by (simp add: passes_def split: option.splits)
    with alone_loads [OF assms, of k rd _ ev c loader w] c True show ?thesis by blast
  next
    case False
    have f: "at_filter 0 k (herd_init p [k] w) = phase_to 0 (if b then ReadsCache else Answered (Inl ErrBloomRejected)) (herd_init p [k] w)"
      using b by (simp add: at_filter_def herd_init_def)
    have "\<exists>s. herd_run (\<lambda>_. rd) loader (if b then [0, 0] else [0]) (herd_init p [k] w) = Some s \<and>
      shows_get (if b then (r, ev, p\<lparr>p_cache := c\<rparr>, w) else (Inl ErrBloomRejected, [], p, w)) s"
      using False f c by (cases r) (auto simp: herd_exec shows_get_def Let_def)
    moreover have "Policy_Get rd loader k p w = Some (if b then (r, ev, p\<lparr>p_cache := c\<rparr>, w) else (Inl ErrBloomRejected, [], p, w))"
      using False b c by (cases r) (auto simp: Policy_Get_def Let_def)
    ultimately show ?thesis by blast
  qed
qed

end
