(* ===== verification/Herd.thy ===== *)
theory Herd
  imports Policy_Concurrent
begin

text \<open>
  A herd of goroutines that read one key which is not cached (\<^verbatim>\<open>policy.go\<close>: the comment calls it
  the protection against a breakdown). When nothing comes between the missing \<open>Load\<close> and the \<open>Store\<close> in
  \<open>Do\<close>, so that concurrent calls coalesce, the loader is called once, and the value it yields is what
  every goroutine returns: those that wait in \<open>Do\<close>, those that come later and find it in the cache,
  and those that missed the cache before and find it in the double check.
\<close>

subsection \<open>A key in the two-level store\<close>

definition lacks :: "string \<Rightarrow> 'v Store \<Rightarrow> bool" where
  "lacks k st \<longleftrightarrow> (\<exists>s a. st = StoreLRU2 s \<and> store_repr s a \<and> spec_ok a \<and>
     find_live k (fst (on_levels a k)) = None \<and> find_live k (snd (on_levels a k)) = None)"

definition serves :: "string \<Rightarrow> 'v \<Rightarrow> int \<Rightarrow> 'v Store \<Rightarrow> bool" where
  "serves k v e st \<longleftrightarrow> (\<exists>s a. st = StoreLRU2 s \<and> store_repr s a \<and> spec_ok a \<and> holds k (Some v) e (on_levels a k))"

lemma lacks_Get:
  assumes "lacks k st"
  shows "\<exists>ev st'. store_Get t1 t2 k st = Some (None, ev, st') \<and> lacks k st'"
proof -
  obtain s a where a: "st = StoreLRU2 s" "store_repr s a" "spec_ok a"
    "find_live k (fst (on_levels a k)) = None" "find_live k (snd (on_levels a k)) = None"
    using assms unfolding lacks_def by blast
  let ?a = "snd (lru2_spec (SGet t1 t2 k) a)"
  obtain cbs s' where g: "lru2_Get t1 t2 k s = Some (None, cbs, s')" "store_repr s' ?a"
    using Get_sim [OF a(2), of t1 t2 k] a(4,5) by (auto simp: lookup2_def)
  have "on_levels ?a k = (fst (on_levels a k), snd (spec_get k (snd (on_levels a k))))"
    using a(3) Get_miss [OF a(4,5)] by (simp add: Let_def)
  with a g lru2_spec_ok [OF a(3), of "SGet t1 t2 k"] show ?thesis unfolding lacks_def by auto
qed

lemma serves_Get:
  assumes "serves k v e st" and "0 < e" and "\<not> expired t1 e" and "\<not> expired t2 e"
  shows "\<exists>ev st'. store_Get t1 t2 k st = Some (Some (Some v), ev, st') \<and> serves k v e st'"
proof -
  obtain s a where a: "st = StoreLRU2 s" "store_repr s a" "spec_ok a" "holds k (Some v) e (on_levels a k)"
    using assms(1) unfolding serves_def by blast
  let ?a = "snd (lru2_spec (SGet t1 t2 k) a)"
  obtain cbs s' where g: "lru2_Get t1 t2 k s = Some (Some (Some v), cbs, s')" "store_repr s' ?a"
    using Get_sim [OF a(2), of t1 t2 k] holds_lookup [OF a(4) assms(2-4)] by auto
  have "holds k (Some v) e (on_levels ?a k)" using holds_Get [OF a(4) assms(3)] a(3) by (simp add: Let_def)
  with a g lru2_spec_ok [OF a(3), of "SGet t1 t2 k"] show ?thesis unfolding serves_def by auto
qed

lemma lacks_Set:
  assumes "lacks k st"
  shows "\<exists>ev st'. store_SetWithExpiration vlen now now2 ks k (Some v) ttl st = Some (ev, st') \<and> serves k v (expire_at now ttl) st'"
proof -
  obtain s a where a: "st = StoreLRU2 s" "store_repr s a" "spec_ok a" using assms unfolding lacks_def by blast
  let ?a = "snd (lru2_spec (SSet now k (Some v) ttl) a)"
  obtain cbs s' where g: "lru2_SetWithExpiration now k (Some v) ttl s = Some (cbs, s')" "store_repr s' ?a"
    using Set_sim [OF a(2)] by blast
  have "holds k (Some v) (expire_at now ttl) (on_levels ?a k)" using a(3) by (simp add: Let_def holds_Set)
  with a g lru2_spec_ok [OF a(3), of "SSet now k (Some v) ttl"] show ?thesis unfolding serves_def by auto
qed

subsection \<open>A key in the policy\<close>

definition policy_lacks :: "string \<Rightarrow> CachePolicy \<Rightarrow> bool" where
  "policy_lacks k p \<longleftrightarrow> (\<exists>st. ca_store (p_cache p) = Some st \<and> lacks k st)"

definition policy_serves :: "string \<Rightarrow> ByteView \<Rightarrow> int \<Rightarrow> CachePolicy \<Rightarrow> bool" where
  "policy_serves k v e p \<longleftrightarrow> (\<exists>st. ca_store (p_cache p) = Some st \<and> serves k v e st)"

lemma policy_key_sel [simp]:
  "policy_lacks k (p\<lparr>p_cache := c\<lparr>ca_store := Some st\<rparr>\<rparr>) = lacks k st"
  "policy_serves k v e (p\<lparr>p_cache := c\<lparr>ca_store := Some st\<rparr>\<rparr>) = serves k v e st"
  "policy_lacks k (p\<lparr>p_cache := add_miss c\<rparr>) = policy_lacks k (p\<lparr>p_cache := c\<rparr>)"
  "policy_lacks k (p\<lparr>p_cache := add_hit c\<rparr>) = policy_lacks k (p\<lparr>p_cache := c\<rparr>)"
  "policy_serves k v e (p\<lparr>p_cache := add_miss c\<rparr>) = policy_serves k v e (p\<lparr>p_cache := c\<rparr>)"
  "policy_serves k v e (p\<lparr>p_cache := add_hit c\<rparr>) = policy_serves k v e (p\<lparr>p_cache := c\<rparr>)"
  "policy_serves k v e (p\<lparr>p_bf := b\<rparr>) = policy_serves k v e p"
  by (simp_all add: policy_lacks_def policy_serves_def add_miss_def add_hit_def)

lemma ready_open: "ready p \<Longrightarrow> ca_initialized (p_cache p) \<and> \<not> ca_closed (p_cache p)"
  by (auto simp: ready_def policy_ok_def cache_ok_def)

lemma lacks_Cache_Get:
  assumes "ready p" and "policy_lacks k p"
  shows "\<exists>err ev c. Cache_Get t1 t2 k (p_cache p) = Some (Inl err, ev, c) \<and> policy_lacks k (p\<lparr>p_cache := c\<rparr>)"
proof -
  obtain st where st: "ca_store (p_cache p) = Some st" "lacks k st" using assms(2) unfolding policy_lacks_def by blast
  from lacks_Get [OF st(2), of t1 t2] st(1) ready_open [OF assms(1)] show ?thesis by (auto simp: Cache_Get_def Let_def)
qed

lemma serves_Cache_Get:
  assumes "ready p" and "policy_serves k v e p" and "bv_b v \<noteq> None" and "0 < e" and "\<not> expired t1 e" and "\<not> expired t2 e"
  shows "\<exists>ev c. Cache_Get t1 t2 k (p_cache p) = Some (Inr v, ev, c) \<and> policy_serves k v e (p\<lparr>p_cache := c\<rparr>)"
proof -
  obtain st where st: "ca_store (p_cache p) = Some st" "serves k v e st" using assms(2) unfolding policy_serves_def by blast
  from serves_Get [OF st(2) assms(4-6)] st(1) ready_open [OF assms(1)] assms(3) show ?thesis by (auto simp: Cache_Get_def Let_def)
qed

text \<open>The duration with which a load writes its value, and its expiry time.\<close>

definition load_ttl :: "reads \<Rightarrow> CacheOptions \<Rightarrow> int" where
  "load_ttl rd opts =
     (if co_DefaultTTL opts > 0 then time_Sub (rd_add rd + addJitter (rd_rand rd) (co_DefaultTTL opts)) (rd_until rd) else 0)"

definition load_expiry :: "reads \<Rightarrow> CacheOptions \<Rightarrow> int" where
  "load_expiry rd opts = expire_at (rd_now rd) (load_ttl rd opts)"

lemma lacks_Policy_Set:
  assumes "ready p" and "policy_lacks k p" and "co_DefaultTTL (p_opts p) > 0 \<Longrightarrow> 0 < load_ttl rd (p_opts p)"
  shows "\<exists>ev c. Policy_Set rd k v p = Some (ev, p\<lparr>p_cache := c\<rparr>) \<and> policy_serves k v (load_expiry rd (p_opts p)) (p\<lparr>p_cache := c\<rparr>)"
proof -
  obtain st where st: "ca_store (p_cache p) = Some st" "lacks k st" using assms(2) unfolding policy_lacks_def by blast
  have i: "ensureInitialized (p_cache p) = p_cache p" "\<not> ca_closed (p_cache p)"
    using ready_open [OF assms(1)] by (simp_all add: ensureInitialized_def)
  obtain ev st' where w: "store_SetWithExpiration bv_Len (rd_now rd) (rd_now2 rd) (rd_ks rd) k (Some v) (load_ttl rd (p_opts p)) st =
      Some (ev, st')" "serves k v (load_expiry rd (p_opts p)) st'"
    using lacks_Set [OF st(2)] unfolding load_expiry_def by blast
  show ?thesis
  proof (cases "co_DefaultTTL (p_opts p) > 0")
    case True
    with assms(3) w st(1) i show ?thesis by (auto simp: Policy_Set_def Cache_SetWithExpiration_def load_ttl_def Let_def)
  next
    case False
    with w st(1) i show ?thesis by (auto simp: Policy_Set_def Cache_Set_def store_Set_eq load_ttl_def Let_def)
  qed
qed

subsection \<open>The herd\<close>

text \<open>Steps in which no other goroutine moves while one is between its missing \<open>Load\<close> and its \<open>Store\<close>.\<close>

inductive gapless_step ::
  "(nat \<Rightarrow> reads) \<Rightarrow> (string \<Rightarrow> 'w \<Rightarrow> slice option \<times> 'w) \<Rightarrow> 'w herd \<Rightarrow> 'w herd \<Rightarrow> bool" for rds loader where
  act: "t < length (hd_phases s) \<Longrightarrow> herd_action rds loader t s = Some s' \<Longrightarrow>
    (\<forall>u < length (hd_phases s). at_store (sf_threads (hd_sf s) ! u) \<longrightarrow> u = t) \<Longrightarrow> gapless_step rds loader s s'"

inductive_cases gapless_stepE: "gapless_step rds loader s s'"

text \<open>The clock readings: what one goroutine loads is fresh when any of them reads it.\<close>

definition timely :: "(nat \<Rightarrow> reads) \<Rightarrow> CacheOptions \<Rightarrow> nat \<Rightarrow> bool" where
  "timely rds opts n \<longleftrightarrow> (\<forall>t < n. (co_DefaultTTL opts > 0 \<longrightarrow> 0 < load_ttl (rds t) opts) \<and> 0 < load_expiry (rds t) opts \<and>
     (\<forall>u < n. \<forall>now \<in> {rd_t1 (rds u), rd_t2 (rds u), rd_c1 (rds u), rd_c2 (rds u)}. \<not> expired now (load_expiry (rds t) opts)))"

fun early :: "phase \<Rightarrow> bool" where
  "early ChecksFilter = True"
| "early ReadsCache = True"
| "early Calls = True"
| "early _ = False"

fun late :: "ByteView \<Rightarrow> phase \<Rightarrow> bool" where
  "late v (Written u) \<longleftrightarrow> u = v"
| "late v (Ends out) \<longleftrightarrow> out = FnReturn (Some v) None"
| "late v (Answered r) \<longleftrightarrow> r = Inr v"
| "late v ph \<longleftrightarrow> early ph"

lemma early_late: "early ph \<Longrightarrow> late v ph"
  by (cases ph) simp_all

text \<open>Nothing is loaded; the loader has answered and its value is not yet written; it is in the cache.\<close>

definition quiet :: "string \<Rightarrow> 'w \<Rightarrow> 'w herd \<Rightarrow> bool" where
  "quiet k w s \<longleftrightarrow> hd_loads s = 0 \<and> hd_world s = w \<and> policy_lacks k (hd_policy s) \<and> sf_log (hd_sf s) = [] \<and>
     (\<forall>t < length (hd_phases s). early (hd_phases s ! t) \<or> hd_phases s ! t = Rechecked)"

definition loading :: "string \<Rightarrow> 'w \<Rightarrow> ByteView \<Rightarrow> 'w herd \<Rightarrow> bool" where
  "loading k w v s \<longleftrightarrow> hd_loads s = 1 \<and> hd_world s = w \<and> policy_lacks k (hd_policy s) \<and> sf_log (hd_sf s) = [] \<and>
     (\<exists>t < length (hd_phases s). hd_phases s ! t = Loaded (Some (bv_b v)) \<and>
        (\<forall>u < length (hd_phases s). u \<noteq> t \<longrightarrow> early (hd_phases s ! u)))"

definition served :: "string \<Rightarrow> 'w \<Rightarrow> ByteView \<Rightarrow> int set \<Rightarrow> 'w herd \<Rightarrow> bool" where
  "served k w v E s \<longleftrightarrow> hd_loads s = 1 \<and> hd_world s = w \<and> (\<exists>e \<in> E. policy_serves k v e (hd_policy s)) \<and>
     (\<forall>x \<in> set (sf_log (hd_sf s)). x = (k, FnReturn (Some v) None)) \<and> (\<forall>t < length (hd_phases s). late v (hd_phases s ! t))"

text \<open>What the actions keep of the filter and the options.\<close>

lemma passes_sel [simp]: "passes k (p\<lparr>p_cache := c\<rparr>) = passes k p"
  by (simp add: passes_def)

lemma passes_add: "policy_ok p \<Longrightarrow> bf_add_opt j (p_bf p) = Some bf \<Longrightarrow> passes k p \<Longrightarrow> passes k (p\<lparr>p_bf := bf\<rparr>)"
  using bloom.add_mono [of _ j] by (cases "p_bf p") (auto simp: passes_def bf_add_opt_def policy_ok_def)

lemma Policy_Set_sel: "Policy_Set rd k v p = Some (ev, p') \<Longrightarrow> \<exists>c. p' = p\<lparr>p_cache := c\<rparr>"
  by (auto simp: Policy_Set_def split: bind_splits)

lemma herd_action_policy:
  assumes "policy_ok (hd_policy s)" and "herd_action rds loader t s = Some s'"
  shows "p_opts (hd_policy s') = p_opts (hd_policy s) \<and> (passes k (hd_policy s) \<longrightarrow> passes k (hd_policy s'))"
proof (cases "hd_phases s ! t")
  case Calls
  with assms(2) show ?thesis
    by (cases "sf_threads (hd_sf s) ! t")
      (auto simp: herd_action_def at_check_def at_answer_def Let_def split: option.splits)
next
  case (Loaded r)
  with assms(2) show ?thesis by (auto simp: herd_action_def at_write_def Let_def dest: Policy_Set_sel split: option.splits)
next
  case (Written data)
  with assms show ?thesis using passes_add [OF assms(1)] by (auto simp: herd_action_def at_add_def Let_def split: option.splits)
qed (use assms(2) in \<open>auto simp: herd_action_def at_filter_def at_cache_def at_loader_def Let_def split: option.splits prod.splits\<close>)

subsection \<open>The stages\<close>

lemma nth_update_if: "t < length xs \<Longrightarrow> P x \<Longrightarrow> P (xs ! t) \<Longrightarrow> P (xs[u := x] ! t)"
  by (cases "u = t") simp_all

lemma quiet_move:
  assumes "quiet k w s" and "hd_phases s' = (hd_phases s)[t := ph]" and "early ph \<or> ph = Rechecked" and "hd_loads s' = hd_loads s"
    and "hd_world s' = hd_world s" and "policy_lacks k (hd_policy s')" and "sf_log (hd_sf s') = sf_log (hd_sf s)"
  shows "quiet k w s'"
  using assms nth_update_if [of _ "hd_phases s" "\<lambda>x. early x \<or> x = Rechecked" ph t] by (simp add: quiet_def)

lemma loading_move:
  assumes "loading k w v s" and "hd_phases s' = (hd_phases s)[t := ph]" and "early (hd_phases s ! t)" and "early ph"
    and "hd_loads s' = hd_loads s" and "hd_world s' = hd_world s" and "policy_lacks k (hd_policy s')" and "sf_log (hd_sf s') = sf_log (hd_sf s)"
  shows "loading k w v s'"
proof -
  obtain u where u: "u < length (hd_phases s)" "hd_phases s ! u = Loaded (Some (bv_b v))"
    "\<forall>x < length (hd_phases s). x \<noteq> u \<longrightarrow> early (hd_phases s ! x)" using assms(1) unfolding loading_def by blast
  have "t \<noteq> u" using u(2) assms(3) by auto
  then have "(hd_phases s)[t := ph] ! u = Loaded (Some (bv_b v))" using u(2) by simp
  moreover have "early ((hd_phases s)[t := ph] ! x)" if "x < length (hd_phases s)" "x \<noteq> u" for x
    using nth_update_if [of x "hd_phases s" early ph t] that u(3) assms(4) by blast
  ultimately show ?thesis using u(1) assms(1,2,5-8) unfolding loading_def by (simp, blast)
qed

lemma served_move:
  assumes "served k w v E s" and "hd_phases s' = (hd_phases s)[t := ph]" and "late v ph" and "hd_loads s' = hd_loads s"
    and "hd_world s' = hd_world s" and "e \<in> E" and "policy_serves k v e (hd_policy s')"
    and "set (sf_log (hd_sf s')) \<subseteq> insert (k, FnReturn (Some v) None) (set (sf_log (hd_sf s)))"
  shows "served k w v E s'"
proof -
  have "\<forall>x \<in> set (sf_log (hd_sf s')). x = (k, FnReturn (Some v) None)" using assms(1,8) unfolding served_def by blast
  moreover have "late v ((hd_phases s)[t := ph] ! x)" if "x < length (hd_phases s)" for x
    using nth_update_if [of x "hd_phases s" "late v" ph t] that assms(1,3) unfolding served_def by blast
  ultimately show ?thesis using assms(1,2,4-7) unfolding served_def by auto
qed

text \<open>The two places of \<open>Do\<close> that need the outcomes: a goroutine that returns has one in the log.\<close>

lemma finished_logged:
  assumes "herd_ok keys s" and "t < length keys" and "sf_threads (hd_sf s) ! t = Finished j val err"
  shows "\<exists>out. (j, out) \<in> set (sf_log (hd_sf s)) \<and> fn_result out = (val, err)"
proof -
  obtain ow where ow: "sf_inv keys ow (hd_sf s)" using assms(1) by (auto simp: herd_ok_def)
  show ?thesis using sf_invD(2) [OF ow, of t] assms(2,3) herd_okD(3) [OF assms(1)] by (simp add: thread_ok_def logged_def)
qed

lemma calls_do:
  assumes "herd_action rds loader t s = Some s'" and "hd_phases s ! t = Calls" and "\<And>j c. sf_threads (hd_sf s) ! t \<noteq> AtFn j c"
    and "\<And>j val err. sf_threads (hd_sf s) ! t \<noteq> Finished j val err"
  obtains g where "s' = phase_to t Calls (s\<lparr>hd_sf := g\<rparr>)" "sf_log g = sf_log (hd_sf s)"
proof -
  have "herd_action rds loader t s = map_option (\<lambda>g. phase_to t Calls (s\<lparr>hd_sf := g\<rparr>)) (sf_action (FnPanic []) t (hd_sf s))"
    using assms(2) assms(3,4) by (cases "sf_threads (hd_sf s) ! t") (auto simp: herd_action_def Let_def)
  then obtain g where g: "s' = phase_to t Calls (s\<lparr>hd_sf := g\<rparr>)" "sf_action (FnPanic []) t (hd_sf s) = Some g"
    using assms(1) by (cases "sf_action (FnPanic []) t (hd_sf s)") auto
  with sf_action_log [OF g(2)] assms(3) that show ?thesis by blast
qed

text \<open>The actions of a reader whose key the filter lets pass and the store does not hold.\<close>

lemma filter_action:
  assumes "herd_action rds loader t s = Some s'" and "passes k (hd_policy s)" and "pc_key (sf_threads (hd_sf s) ! t) = k"
    and "hd_phases s ! t = ChecksFilter"
  shows "s' = phase_to t ReadsCache s"
  using assms by (simp add: herd_action_def at_filter_passes Let_def)

lemma miss_action:
  assumes "herd_action rds loader t s = Some s'" and "ready (hd_policy s)" and "policy_lacks k (hd_policy s)"
    and "pc_key (sf_threads (hd_sf s) ! t) = k" and "hd_phases s ! t = ReadsCache"
  obtains ev c where "s' = phase_to t Calls (set_policy ev ((hd_policy s)\<lparr>p_cache := c\<rparr>) s)" "policy_lacks k ((hd_policy s)\<lparr>p_cache := c\<rparr>)"
proof -
  obtain err ev c where c: "Cache_Get (rd_t1 (rds t)) (rd_t2 (rds t)) k (p_cache (hd_policy s)) = Some (Inl err, ev, c)"
    "policy_lacks k ((hd_policy s)\<lparr>p_cache := c\<rparr>)" using lacks_Cache_Get [OF assms(2,3)] by blast
  with assms(1,4,5) have "s' = phase_to t Calls (set_policy ev ((hd_policy s)\<lparr>p_cache := c\<rparr>) s)"
    by (simp add: herd_action_def at_cache_def Let_def)
  from that [OF this c(2)] show ?thesis .
qed

lemma recheck_action:
  assumes "herd_action rds loader t s = Some s'" and "policy_lacks k (hd_policy s)" and "pc_key (sf_threads (hd_sf s) ! t) = k"
    and "hd_phases s ! t = Calls" and "sf_threads (hd_sf s) ! t = AtFn j c"
  shows "\<exists>ev p. s' = phase_to t Rechecked (set_policy ev p s) \<and> policy_lacks k p"
proof -
  obtain st where st: "ca_store (p_cache (hd_policy s)) = Some st" "lacks k st" using assms(2) unfolding policy_lacks_def by blast
  obtain ev st' where g: "store_Get (rd_c1 (rds t)) (rd_c2 (rds t)) k st = Some (None, ev, st')" "lacks k st'" using lacks_Get [OF st(2)] by blast
  let ?p = "(hd_policy s)\<lparr>p_cache := (p_cache (hd_policy s))\<lparr>ca_store := Some st'\<rparr>\<rparr>"
  have "s' = phase_to t Rechecked (set_policy ev ?p s)" using assms(1,3-5) st(1) g(1) by (simp add: herd_action_def at_check_def Let_def)
  moreover have "policy_lacks k ?p" using g(2) by simp
  ultimately show ?thesis by blast
qed

lemma one_in_fn:
  assumes "herd_ok keys s" and "sf_mapped (hd_sf s)" and "t < length keys" and "u < length keys" and "keys ! t = keys ! u"
    and "sf_threads (hd_sf s) ! t = AtFn j c" and "sf_threads (hd_sf s) ! u = AtFn j' c'"
  shows "t = u"
proof -
  obtain ow where ow: "sf_inv keys ow (hd_sf s)" using assms(1) by (auto simp: herd_ok_def)
  note d = herd_okD(3,5) [OF assms(1)]
  have "pc_key (sf_threads (hd_sf s) ! t) = pc_key (sf_threads (hd_sf s) ! u)" using d(2) assms(3-5) by metis
  then show ?thesis by (rule in_flight_unique [OF ow assms(2), rotated 4]) (use assms(3,4,6,7) d(1) in simp_all)
qed

text \<open>
  One action in each stage. \<open>n\<close> goroutines read the key \<open>k\<close>, which the filter lets pass; the loader turns
  the world \<open>w\<close> into \<open>w'\<close> and yields the bytes of \<open>v\<close>.
\<close>

lemma quiet_step:
  assumes ok: "herd_ok (replicate n k) s" and m: "sf_mapped (hd_sf s)" and pass: "passes k (hd_policy s)" and t: "t < n"
    and act: "herd_action rds loader t s = Some s'" and q: "quiet k w s" and l: "loader k w = (Some (bv_b v), w')"
  shows "quiet k w s' \<or> loading k w' v s'"
proof -
  note d = herd_okD [OF ok, simplified]
  have q': "hd_loads s = 0" "hd_world s = w" "policy_lacks k (hd_policy s)" "sf_log (hd_sf s) = []"
    "\<And>u. u < n \<Longrightarrow> early (hd_phases s ! u) \<or> hd_phases s ! u = Rechecked" using q d(2) by (simp_all add: quiet_def)
  have key: "pc_key (sf_threads (hd_sf s) ! t) = k" using d(5) t by simp
  show ?thesis
  proof (cases "hd_phases s ! t")
    case ChecksFilter
    then have "s' = phase_to t ReadsCache s" by (rule filter_action [OF act pass key])
    with q'(3) show ?thesis by (intro disjI1 quiet_move [OF q, where ph = ReadsCache]) simp_all
  next
    case ReadsCache
    obtain ev c where "s' = phase_to t Calls (set_policy ev ((hd_policy s)\<lparr>p_cache := c\<rparr>) s)" "policy_lacks k ((hd_policy s)\<lparr>p_cache := c\<rparr>)"
      using miss_action [OF act d(1) q'(3) key ReadsCache] .
    then show ?thesis by (intro disjI1 quiet_move [OF q, where ph = Calls]) simp_all
  next
    case Calls
    show ?thesis
    proof (cases "\<exists>j c. sf_threads (hd_sf s) ! t = AtFn j c")
      case True
      then obtain ev p where "s' = phase_to t Rechecked (set_policy ev p s)" "policy_lacks k p"
        using recheck_action [OF act q'(3) key Calls] by blast
      then have "quiet k w s'" by (intro quiet_move [OF q, where ph = Rechecked]) simp_all
      then show ?thesis ..
    next
      case False
      have "sf_threads (hd_sf s) ! t \<noteq> Finished j val err" for j val err
        using finished_logged [OF ok, of t j val err] t q'(4) by auto
      then obtain g where "s' = phase_to t Calls (s\<lparr>hd_sf := g\<rparr>)" "sf_log g = sf_log (hd_sf s)"
        using calls_do [OF act Calls] False by blast
      with q'(3) show ?thesis by (intro disjI1 quiet_move [OF q, where ph = Calls]) simp_all
    qed
  next
    case Rechecked
    have s': "s' = phase_to t (Loaded (Some (bv_b v))) (s\<lparr>hd_world := w', hd_loads := 1\<rparr>)"
      using Rechecked act key l q'(1,2) by (simp add: herd_action_def at_loader_def Let_def)
    have "early (hd_phases s ! u)" if u: "u < n" "u \<noteq> t" for u
    proof (rule ccontr)
      assume "\<not> early (hd_phases s ! u)"
      then have "hd_phases s ! u = Rechecked" using q'(5) [OF u(1)] by blast
      with Rechecked d(4) u(1) t have "\<exists>j c. sf_threads (hd_sf s) ! u = AtFn j c" "\<exists>j c. sf_threads (hd_sf s) ! t = AtFn j c"
        by (metis agrees.simps(3))+
      then show False using one_in_fn [OF ok m, of t u] u t by auto
    qed
    with t q'(3,4) d(2) show ?thesis by (auto simp: s' loading_def intro!: exI [of _ t])
  qed (use q'(5) [OF t] in simp_all)
qed

lemma loading_step:
  assumes ok: "herd_ok (replicate n k) s" and m: "sf_mapped (hd_sf s)" and pass: "passes k (hd_policy s)" and t: "t < n"
    and act: "herd_action rds loader t s = Some s'" and q: "loading k w' v s"
    and ttl: "co_DefaultTTL (p_opts (hd_policy s)) > 0 \<longrightarrow> 0 < load_ttl (rds t) (p_opts (hd_policy s))"
    and e: "load_expiry (rds t) (p_opts (hd_policy s)) \<in> E" and v: "v = ByteView (bv_b v)"
  shows "loading k w' v s' \<or> served k w' v E s'"
proof -
  note d = herd_okD [OF ok, simplified]
  have q': "hd_loads s = 1" "hd_world s = w'" "policy_lacks k (hd_policy s)" "sf_log (hd_sf s) = []" using q by (simp_all add: loading_def)
  obtain t0 where t0: "t0 < n" "hd_phases s ! t0 = Loaded (Some (bv_b v))" "\<And>u. u < n \<Longrightarrow> u \<noteq> t0 \<Longrightarrow> early (hd_phases s ! u)"
    using q d(2) unfolding loading_def by auto
  have fn: "\<exists>j c. sf_threads (hd_sf s) ! t0 = AtFn j c" using d(4) [of t0] t0(1,2) by simp
  have key: "pc_key (sf_threads (hd_sf s) ! t) = k" using d(5) t by simp
  show ?thesis
  proof (cases "t = t0")
    case True
    obtain ev c where w: "Policy_Set (rds t) k v (hd_policy s) = Some (ev, (hd_policy s)\<lparr>p_cache := c\<rparr>)"
      "policy_serves k v (load_expiry (rds t) (p_opts (hd_policy s))) ((hd_policy s)\<lparr>p_cache := c\<rparr>)"
      using lacks_Policy_Set [OF d(1) q'(3), of "rds t" v] ttl by blast
    have s': "s' = phase_to t (Written v) (set_policy ev ((hd_policy s)\<lparr>p_cache := c\<rparr>) s)"
      using True t0(2) act key w(1) v by (simp add: herd_action_def at_write_def Let_def)
    have "late v ((hd_phases s)[t := Written v] ! u)" if "u < n" for u
      using that True t0(3) [of u] d(2) early_late by (cases "u = t") simp_all
    then have "served k w' v E s'" using q' w(2) e d(2) by (auto simp: s' served_def)
    then show ?thesis ..
  next
    case False
    have ea: "early (hd_phases s ! t)" by (rule t0(3) [OF t False])
    have "loading k w' v s'"
    proof (cases "hd_phases s ! t")
      case ChecksFilter
      then have "s' = phase_to t ReadsCache s" by (rule filter_action [OF act pass key])
      with q'(3) show ?thesis by (intro loading_move [OF q _ ea, where ph = ReadsCache]) simp_all
    next
      case ReadsCache
      obtain ev c where "s' = phase_to t Calls (set_policy ev ((hd_policy s)\<lparr>p_cache := c\<rparr>) s)" "policy_lacks k ((hd_policy s)\<lparr>p_cache := c\<rparr>)"
        using miss_action [OF act d(1) q'(3) key ReadsCache] .
      then show ?thesis by (intro loading_move [OF q _ ea, where ph = Calls]) simp_all
    next
      case Calls
      have "sf_threads (hd_sf s) ! t \<noteq> AtFn j c" for j c
        using fn one_in_fn [OF ok m, of t t0] t t0(1) False by auto
      moreover have "sf_threads (hd_sf s) ! t \<noteq> Finished j val err" for j val err
        using finished_logged [OF ok, of t j val err] t q'(4) by auto
      ultimately obtain g where "s' = phase_to t Calls (s\<lparr>hd_sf := g\<rparr>)" "sf_log g = sf_log (hd_sf s)"
        using calls_do [OF act Calls] by blast
      with q'(3) show ?thesis by (intro loading_move [OF q _ ea, where ph = Calls]) simp_all
    qed (use ea in simp_all)
    then show ?thesis ..
  qed
qed

lemma served_calls:
  assumes ok: "herd_ok (replicate n k) s" and t: "t < n" and act: "herd_action rds loader t s = Some s'" and Calls: "hd_phases s ! t = Calls"
    and q: "served k w' v E s" and e: "e \<in> E" "policy_serves k v e (hd_policy s)" and v: "bv_b v = Some bs"
    and fresh: "0 < e" "\<not> expired (rd_c1 (rds t)) e" "\<not> expired (rd_c2 (rds t)) e"
  shows "served k w' v E s'"
proof -
  have key: "pc_key (sf_threads (hd_sf s) ! t) = k" using herd_okD(5) [OF ok] t by simp
  have log: "\<And>x. x \<in> set (sf_log (hd_sf s)) \<Longrightarrow> x = (k, FnReturn (Some v) None)" using q unfolding served_def by auto
  note move = served_move [OF q _ _ _ _ e(1), of s' t]
  show ?thesis
  proof (cases "\<exists>j c. sf_threads (hd_sf s) ! t = AtFn j c")
    case True
    obtain st where st: "ca_store (p_cache (hd_policy s)) = Some st" "serves k v e st" using e(2) unfolding policy_serves_def by blast
    obtain ev st' where "store_Get (rd_c1 (rds t)) (rd_c2 (rds t)) k st = Some (Some (Some v), ev, st')" "serves k v e st'"
      using serves_Get [OF st(2) fresh] by blast
    moreover have "v = ByteView (Some bs)" using v by (cases v) simp
    ultimately show ?thesis using True Calls act key st(1)
      by (intro move [of "Ends (FnReturn (Some v) None)"]) (auto simp: herd_action_def at_check_def Let_def)
  next
    case False
    show ?thesis
    proof (cases "\<exists>j val err. sf_threads (hd_sf s) ! t = Finished j val err")
      case True
      then obtain j val err where f: "sf_threads (hd_sf s) ! t = Finished j val err" by blast
      then have "val = Some v" "err = None" using finished_logged [OF ok _ f] t log by force+
      with f Calls act e(2) show ?thesis
        by (intro move [of "Answered (Inr v)"]) (auto simp: herd_action_def at_answer_def Let_def)
    next
      case False2: False
      obtain g where "s' = phase_to t Calls (s\<lparr>hd_sf := g\<rparr>)" "sf_log g = sf_log (hd_sf s)"
        using calls_do [OF act Calls] False False2 by blast
      with e(2) show ?thesis by (intro move [of Calls]) auto
    qed
  qed
qed

lemma served_step:
  assumes ok: "herd_ok (replicate n k) s" and pass: "passes k (hd_policy s)" and t: "t < n"
    and act: "herd_action rds loader t s = Some s'" and q: "served k w' v E s" and v: "bv_b v = Some bs"
    and E: "\<forall>e \<in> E. 0 < e \<and> (\<forall>now \<in> {rd_t1 (rds t), rd_t2 (rds t), rd_c1 (rds t), rd_c2 (rds t)}. \<not> expired now e)"
  shows "served k w' v E s'"
proof -
  note d = herd_okD [OF ok, simplified]
  have key: "pc_key (sf_threads (hd_sf s) ! t) = k" using d(5) t by simp
  obtain e where e: "e \<in> E" "policy_serves k v e (hd_policy s)" using q unfolding served_def by blast
  have q': "late v (hd_phases s ! t)" "\<And>x. x \<in> set (sf_log (hd_sf s)) \<Longrightarrow> x = (k, FnReturn (Some v) None)"
    using q t d(2) unfolding served_def by auto
  have fresh: "0 < e" "\<not> expired (rd_t1 (rds t)) e" "\<not> expired (rd_t2 (rds t)) e" "\<not> expired (rd_c1 (rds t)) e" "\<not> expired (rd_c2 (rds t)) e"
    using E e(1) by auto
  note move = served_move [OF q _ _ _ _ e(1), of s' t]
  show ?thesis
  proof (cases "hd_phases s ! t")
    case ChecksFilter
    then have "s' = phase_to t ReadsCache s" by (rule filter_action [OF act pass key])
    with e(2) show ?thesis by (intro move [of ReadsCache]) auto
  next
    case ReadsCache
    obtain ev c where "Cache_Get (rd_t1 (rds t)) (rd_t2 (rds t)) k (p_cache (hd_policy s)) = Some (Inr v, ev, c)"
      "policy_serves k v e ((hd_policy s)\<lparr>p_cache := c\<rparr>)" using serves_Cache_Get [OF d(1) e(2) _ fresh(1-3)] v by auto
    with ReadsCache act key show ?thesis by (intro move [of "Answered (Inr v)"]) (auto simp: herd_action_def at_cache_def Let_def)
  next
    case Calls
    from served_calls [OF ok t act this q e v fresh(1,4,5)] show ?thesis .
  next
    case (Written u)
    obtain bf where "bf_add_opt k (p_bf (hd_policy s)) = Some bf" using ready_filter(2) [OF d(1)] by blast
    with Written act key e(2) q'(1) show ?thesis
      by (intro move [of "Ends (FnReturn (Some v) None)"]) (auto simp: herd_action_def at_add_def Let_def)
  next
    case (Ends out)
    then have out: "out = FnReturn (Some v) None" using q'(1) by simp
    obtain g where g: "s' = phase_to t Calls (s\<lparr>hd_sf := g\<rparr>)" "sf_action out t (hd_sf s) = Some g"
      using Ends act by (auto simp: herd_action_def Let_def)
    from sf_action_log [OF g(2)] key out have "set (sf_log g) \<subseteq> insert (k, FnReturn (Some v) None) (set (sf_log (hd_sf s)))" by auto
    with g(1) e(2) show ?thesis by (intro move [of Calls]) auto
  next
    case (Answered r)
    with act show ?thesis by (simp add: herd_action_def Let_def)
  qed (use q'(1) in simp_all)
qed

subsection \<open>The system\<close>

definition one_storer :: "'w herd \<Rightarrow> bool" where
  "one_storer s \<longleftrightarrow> (\<forall>t < length (hd_phases s). \<forall>u < length (hd_phases s).
     at_store (sf_threads (hd_sf s) ! t) \<longrightarrow> at_store (sf_threads (hd_sf s) ! u) \<longrightarrow> t = u)"

definition expiries :: "(nat \<Rightarrow> reads) \<Rightarrow> CacheOptions \<Rightarrow> nat \<Rightarrow> int set" where
  "expiries rds opts n = (\<lambda>t. load_expiry (rds t) opts) ` {..<n}"

definition herd_inv ::
  "(nat \<Rightarrow> reads) \<Rightarrow> (string \<Rightarrow> 'w \<Rightarrow> slice option \<times> 'w) \<Rightarrow> nat \<Rightarrow> string \<Rightarrow> 'w \<Rightarrow> bytes \<Rightarrow> CacheOptions \<Rightarrow> 'w herd \<Rightarrow> bool" where
  "herd_inv rds loader n k w bs opts s \<longleftrightarrow> herd_ok (replicate n k) s \<and> sf_mapped (hd_sf s) \<and> one_storer s \<and>
     passes k (hd_policy s) \<and> p_opts (hd_policy s) = opts \<and> timely rds opts n \<and> fst (loader k w) = Some (Some bs) \<and>
     (let w' = snd (loader k w); v = ByteView (Some bs) in
      quiet k w s \<or> loading k w' v s \<or> served k w' v (expiries rds opts n) s)"

lemma sf_keeps:
  assumes ok: "herd_ok keys s" and m: "sf_mapped (hd_sf s)" and t: "t < length keys"
    and only: "\<And>u. u < length keys \<Longrightarrow> at_store (sf_threads (hd_sf s) ! u) \<Longrightarrow> u = t"
    and move: "own_move t s s' \<or> do_move t s s'"
  shows "sf_mapped (hd_sf s') \<and> one_storer s'"
  using move
proof
  assume "own_move t s s'"
  then have "hd_sf s' = hd_sf s" "length (hd_phases s') = length (hd_phases s)" unfolding own_move_def by auto
  with m only herd_okD(2) [OF ok] show ?thesis by (auto simp: one_storer_def)
next
  assume "do_move t s s'"
  then obtain out g where g: "s' = phase_to t Calls (s\<lparr>hd_sf := g\<rparr>)" "sf_action out t (hd_sf s) = Some g" unfolding do_move_def by blast
  note d = herd_okD(2,3) [OF ok]
  obtain ow where ow: "sf_inv keys ow (hd_sf s)" using ok by (auto simp: herd_ok_def)
  have "sf_mapped g" by (rule sf_mapped_step [OF ow m _ g(2)]) (use t only d in simp_all)
  moreover obtain pc where pc: "sf_threads g = (sf_threads (hd_sf s))[t := pc]" using sf_action_works [OF g(2)] by blast
  have "u = t" if "u < length keys" "at_store (sf_threads g ! u)" for u
    using only [OF that(1)] that(2) by (cases "u = t") (simp_all add: pc)
  then have "one_storer s'" using d unfolding one_storer_def by (simp add: g(1)) metis
  ultimately show ?thesis by (simp add: g(1))
qed

lemma herd_inv_step:
  assumes inv: "herd_inv rds loader n k w bs opts s" and st: "gapless_step rds loader s s'"
  shows "herd_inv rds loader n k w bs opts s'"
proof -
  let ?v = "ByteView (Some bs)" and ?w = "snd (loader k w)" and ?E = "expiries rds opts n"
  have ok: "herd_ok (replicate n k) s" and m: "sf_mapped (hd_sf s)" and pass: "passes k (hd_policy s)" and o: "p_opts (hd_policy s) = opts"
    and tm: "timely rds opts n" and l: "fst (loader k w) = Some (Some bs)"
    and stage: "quiet k w s \<or> loading k ?w ?v s \<or> served k ?w ?v ?E s"
    using inv by (simp_all add: herd_inv_def Let_def)
  have len: "length (hd_phases s) = n" using herd_okD(2) [OF ok] by simp
  obtain t where t: "t < n" "herd_action rds loader t s = Some s'"
    and only: "\<forall>u < n. at_store (sf_threads (hd_sf s) ! u) \<longrightarrow> u = t" using st unfolding len [symmetric] by (rule gapless_stepE)
  have tk: "t < length (replicate n k)" using t(1) by simp
  note move = herd_action_moves [OF ok tk t(2)]
  have "herd_ok (replicate n k) s'" using move own_move_ok [OF ok tk] do_move_ok [OF ok tk] by blast
  moreover have "sf_mapped (hd_sf s') \<and> one_storer s'" by (rule sf_keeps [OF ok m tk _ move]) (use only in simp)
  moreover have "policy_ok (hd_policy s)" using herd_okD(1) [OF ok] by (simp add: ready_def)
  then have "p_opts (hd_policy s') = opts \<and> passes k (hd_policy s')" using herd_action_policy [OF _ t(2), of k] pass o by blast
  moreover have "quiet k w s' \<or> loading k ?w ?v s' \<or> served k ?w ?v ?E s'"
    using stage
  proof (elim disjE)
    assume "quiet k w s"
    from quiet_step [OF ok m pass t this, of ?v ?w] l show ?thesis by (cases "loader k w") auto
  next
    assume "loading k ?w ?v s"
    moreover have "load_expiry (rds t) opts \<in> ?E" using t(1) by (simp add: expiries_def)
    ultimately show ?thesis using loading_step [OF ok m pass t, of ?w ?v ?E] tm t(1) o by (auto simp: timely_def)
  next
    assume "served k ?w ?v ?E s"
    moreover have "\<forall>e \<in> ?E. 0 < e \<and> (\<forall>now \<in> {rd_t1 (rds t), rd_t2 (rds t), rd_c1 (rds t), rd_c2 (rds t)}. \<not> expired now e)"
      using tm t(1) by (simp add: timely_def expiries_def)
    ultimately show ?thesis using served_step [OF ok pass t, of ?w ?v ?E bs] by auto
  qed
  ultimately show ?thesis using tm l by (simp add: herd_inv_def Let_def)
qed

lemma herd_inv_init:
  assumes "ready p" and "passes k p" and "policy_lacks k p" and "timely rds (p_opts p) n" and "fst (loader k w) = Some (Some bs)"
  shows "herd_inv rds loader n k w bs (p_opts p) (herd_init p (replicate n k) w)"
proof -
  have "quiet k w (herd_init p (replicate n k) w)" using assms(3) by (simp add: quiet_def herd_init_def sf_init_def)
  moreover have "one_storer (herd_init p (replicate n k) w)" by (simp add: one_storer_def herd_init_def sf_init_def)
  moreover have "sf_mapped (hd_sf (herd_init p (replicate n k) w))" by (simp add: sf_mapped_def herd_init_def sf_init_def)
  moreover have "hd_policy (herd_init p (replicate n k) w) = p" by (simp add: herd_init_def)
  ultimately show ?thesis using assms(2,4,5) herd_init_ok [OF assms(1)] by (simp add: herd_inv_def Let_def)
qed

text \<open>A goroutine that is about to store is not blocked, so waiting for it blocks nobody for ever.\<close>

lemma gapless_progress:
  assumes inv: "herd_inv rds loader n k w bs opts s" and "\<not> all_answered s"
  shows "\<exists>s'. gapless_step rds loader s s'"
proof (cases "\<exists>t < length (hd_phases s). at_store (sf_threads (hd_sf s) ! t)")
  case True
  have ok: "herd_ok (replicate n k) s" and one: "one_storer s" using inv by (simp_all add: herd_inv_def)
  from True obtain t where t: "t < length (hd_phases s)" "at_store (sf_threads (hd_sf s) ! t)" by blast
  have "agrees (hd_phases s ! t) (sf_threads (hd_sf s) ! t)" using herd_okD(2,4) [OF ok] t(1) by simp
  then obtain s' where "herd_action rds loader t s = Some s'"
    using t(2) by (cases "hd_phases s ! t"; cases "sf_threads (hd_sf s) ! t") (auto simp: herd_action_def sf_action_def Let_def)
  with gapless_step.act [OF t(1)] one t show ?thesis unfolding one_storer_def by blast
next
  case False
  have "herd_ok (replicate n k) s" using inv by (simp add: herd_inv_def)
  from herd_progress [OF this assms(2)] obtain s' where "herd_step rds loader s s'" by blast
  then obtain t where "t < length (hd_phases s)" "herd_action rds loader t s = Some s'" by (rule herd_stepE)
  with gapless_step.act [of t s rds loader s'] False show ?thesis by blast
qed

lemma gapless_is_step: "gapless_step rds loader s s' \<Longrightarrow> herd_step rds loader s s'"
  by (elim gapless_stepE) (rule herd_step.act)

interpretation coalesced: ending_system
    "\<lambda>s. s = herd_init p (replicate n k) w \<and> ready p \<and> passes k p \<and> policy_lacks k p \<and> timely rds (p_opts p) n \<and> fst (loader k w) = Some (Some bs)"
    "gapless_step rds loader" "herd_inv rds loader n k w bs (p_opts p)" herd_work all_answered
  for p n k and w :: 'w and rds loader bs
proof
  fix s s' :: "'w herd"
  show "herd_inv rds loader n k w bs (p_opts p) s"
    if "s = herd_init p (replicate n k) w \<and> ready p \<and> passes k p \<and> policy_lacks k p \<and> timely rds (p_opts p) n \<and> fst (loader k w) = Some (Some bs)"
    using that by (simp add: herd_inv_init)
  assume inv: "herd_inv rds loader n k w bs (p_opts p) s"
  show "\<exists>s'. gapless_step rds loader s s'" if "\<not> all_answered s" using inv that by (rule gapless_progress)
  assume st: "gapless_step rds loader s s'"
  show "herd_inv rds loader n k w bs (p_opts p) s'" using inv st by (rule herd_inv_step)
  have "herd_ok (replicate n k) s" using inv by (simp add: herd_inv_def)
  then show "herd_work s' < herd_work s" using gapless_is_step [OF st] by (rule herd_step_works)
qed

subsection \<open>Without coalescing\<close>

text \<open>
  When a second goroutine comes between the missing \<open>Load\<close> and the \<open>Store\<close> in \<open>Do\<close>, both run the function, and
  when both pass the double check before one of them has written, the key is loaded twice.
\<close>

lemma herd_loads_twice:
  assumes "ready p" and "passes k p" and "policy_lacks k p"
  shows "\<exists>s. herd_run (\<lambda>_. rd) loader [0, 1, 0, 1, 0, 1, 0, 1, 0, 1, 0, 1] (herd_init p [k, k] w) = Some s \<and> hd_loads s = 2"
proof -
  obtain e1 ev1 c1 where c1: "Cache_Get (rd_t1 rd) (rd_t2 rd) k (p_cache p) = Some (Inl e1, ev1, c1)" "policy_lacks k (p\<lparr>p_cache := c1\<rparr>)"
    using lacks_Cache_Get [OF assms(1,3)] by blast
  have "ready (p\<lparr>p_cache := c1\<rparr>)" using ready_Cache_Get [OF assms(1), of "rd_t1 rd" "rd_t2 rd" k] c1(1) by auto
  from lacks_Cache_Get [OF this c1(2), of "rd_t1 rd" "rd_t2 rd"] obtain e2 ev2 c2 where c2: "Cache_Get (rd_t1 rd) (rd_t2 rd) k c1 = Some (Inl e2, ev2, c2)"
    "policy_lacks k (p\<lparr>p_cache := c2\<rparr>)" by auto
  obtain st where st: "ca_store c2 = Some st" "lacks k st" using c2(2) unfolding policy_lacks_def by auto
  obtain ev3 st1 where st1: "store_Get (rd_c1 rd) (rd_c2 rd) k st = Some (None, ev3, st1)" "lacks k st1" using lacks_Get [OF st(2)] by blast
  obtain ev4 st2 where st2: "store_Get (rd_c1 rd) (rd_c2 rd) k st1 = Some (None, ev4, st2)" using lacks_Get [OF st1(2)] by blast
  show ?thesis using assms(2) c1(1) c2(1) st(1) st1(1) st2
    by (simp add: herd_exec at_filter_passes Let_def split: prod.split)
qed

subsection \<open>A new policy\<close>

text \<open>The store that a new cache creates lacks every key.\<close>

lemma new_store_lacks:
  assumes "opts_ok opts"
  shows "lacks k (NewStore LRU2_type opts :: 'v Store)"
proof -
  define a :: "'v lru2Spec" where "a = lru2_init opts"
  have a: "store_repr (newLRU2Cache opts) a" "spec_ok a" using newLRU2_repr [OF assms] by (simp_all add: a_def)
  have "on_levels a k = ([], [])" using sidx_less [OF a(2), of k] by (simp add: on_levels_def a_def lru2_init_def)
  then have "find_live k (fst (on_levels a k)) = None \<and> find_live k (snd (on_levels a k)) = None"
    by (simp add: find_live_def find_node_def)
  with a show ?thesis unfolding lacks_def NewStore_def by auto
qed

definition calm_policy :: CachePolicy where
  "calm_policy =
     NewCachePolicy (\<lambda>n p. 64) (\<lambda>m n. 0) (ensureInitialized (NewCache DefaultCacheOptions)) DefaultCacheOptions"

lemma default_opts_ok: "opts_ok (store_options DefaultCacheOptions)"
  by (simp add: opts_ok_def store_options_def DefaultCacheOptions_def)

lemma calm_ready: "ready calm_policy"
proof -
  let ?c = "ensureInitialized (NewCache DefaultCacheOptions)"
  have "cache_ok ?c" "ca_initialized ?c" using ensureInitialized_ok [OF NewCache_ok [OF default_opts_ok]] by (auto simp: NewCache_def)
  moreover have "bf_ok (NewBloomFilter (\<lambda>n p. 64) (\<lambda>m n. 0) a b)" for a and b :: float64
    by (rule NewBloomFilter_ok) (simp_all add: word_le_nat_alt)
  ultimately show ?thesis by (simp add: ready_def policy_ok_def NewCachePolicy_def calm_policy_def)
qed

lemma calm_passes: "passes k calm_policy"
  by (simp add: calm_policy_def passes_def NewCachePolicy_def NewBloomFilter_def bf_Contains_def bf_seeds_def Let_def)

lemma calm_lacks: "policy_lacks k calm_policy"
  using new_store_lacks [OF default_opts_ok]
  by (simp add: policy_lacks_def calm_policy_def NewCachePolicy_def ensureInitialized_def NewCache_def DefaultCacheOptions_def)

lemma calm_timely: "timely (\<lambda>_. rd0) (p_opts calm_policy) n"
  by (simp add: timely_def load_expiry_def load_ttl_def expire_at_def expired_def calm_policy_def NewCachePolicy_def rd0_def
    DefaultCacheOptions_def addJitter_def time_Sub_def wrap64_def time_Minute_def time_Second_def
    MaxInt64_def noExpiration_def)

subsection \<open>Properties\<close>


text \<open>In the witness a write comes before the readers move.\<close>

lemma others_first:
  "\<exists>p. mixed_run (herd_step rds loader) (policy_call loader) 0 (herd_init calm_policy keys w)
     ((herd_init calm_policy keys w)\<lparr>hd_policy := p\<rparr>)"
proof -
  let ?i = "herd_init calm_policy keys w"
  obtain ev c where "Policy_Set rd0 ''a'' (ByteView (Some [7])) calm_policy = Some (ev, calm_policy\<lparr>p_cache := c\<rparr>)"
    using ready_Policy_Set [OF calm_ready] by blast
  then have "policy_step loader (PSet rd0 ''a'' (ByteView (Some [7]))) (hd_policy ?i, hd_world ?i) = Some (PRDone, calm_policy\<lparr>p_cache := c\<rparr>, w)"
    by (simp add: herd_init_def)
  from policy_call.call [OF _ this] have c: "policy_call loader ?i (?i\<lparr>hd_policy := calm_policy\<lparr>p_cache := c\<rparr>, hd_world := w\<rparr>)" by simp
  have "mixed_run (herd_step rds loader) (policy_call loader) 0 ?i (?i\<lparr>hd_policy := calm_policy\<lparr>p_cache := c\<rparr>, hd_world := w\<rparr>)"
    by (rule mixed_run.mixed_other [where other = "policy_call loader", OF mixed_run.mixed_none c])
  then show ?thesis by (auto simp: herd_init_def)
qed




text \<open>
  C10: the concurrent model of \<open>Get\<close> refines the sequential one. A single goroutine that reads a key on a
  well-formed policy whose store exists ends, and every state in which it has ended shows the result,
  the events, the policy and the world of \<open>Policy_Get\<close>.
\<close>

theorem get_alone_sequential:
  assumes "ready p"
  shows "(\<exists>s. rtranclp (herd_step (\<lambda>_. rd) loader) (herd_init p [k] w) s \<and> all_answered s) \<and>
    (rtranclp (herd_step (\<lambda>_. rd) loader) (herd_init p [k] w) s \<and> all_answered s \<longrightarrow>
      (\<exists>r. hd_phases s = [Answered r] \<and> Policy_Get rd loader k p w = Some (r, hd_events s, hd_policy s, hd_world s)))"
proof -
  let ?i = "herd_init p [k] w" and ?step = "herd_step (\<lambda>_. rd) loader"
  obtain ts e res where e: "herd_run (\<lambda>_. rd) loader ts ?i = Some e" "Policy_Get rd loader k p w = Some res" "shows_get res e"
    using alone_ends [OF assms, of rd loader k w] by blast
  have path: "rtranclp ?step ?i e" by (rule herd_run_steps [OF e(1)])
  have "all_answered e" using e(3) by (simp add: shows_get_def all_answered_def)
  moreover have "s = e" if "rtranclp ?step ?i s" "all_answered s"
    by (rule alone_unique [OF assms that(1) path that(2) \<open>all_answered e\<close>])
  ultimately show ?thesis using path e(2,3) unfolding shows_get_def by (cases res) auto
qed

theorem get_alone_sequential_witness:
  "\<exists>s r. rtranclp (herd_step (\<lambda>_. rd0) (\<lambda>k w. (Some (Some [1]), Suc w))) (herd_init calm_policy [''k''] 0) s \<and> hd_phases s = [Answered r] \<and>
     Policy_Get rd0 (\<lambda>k w. (Some (Some [1]), Suc w)) ''k'' calm_policy 0 = Some (r, hd_events s, hd_policy s, hd_world s)"
  using get_alone_sequential [OF calm_ready, of rd0 "\<lambda>k w. (Some (Some [1]), Suc w)" "''k''" 0] by blast

end
