(* ===== verification/Cache_Concurrent.thy ===== *)
theory Cache_Concurrent
  imports Cache_Layer Transitions
begin

text \<open>
  \<^verbatim>\<open>cache.go\<close> under concurrent calls. Any number of goroutines call the methods of one
  \<open>Cache\<close>; a step of the system is one atomic action of one of them: an atomic load, store, add or
  compare-and-swap of a flag or a counter, taking or releasing \<open>mu\<close>, the assignment of the store in
  \<open>ensureInitialized\<close>, and a call of a method of the store, which holds its own lock.

  The lemmas show that every set of calls, \<open>Close\<close> included, runs to its end without a deadlock; that
  without \<open>Close\<close> no call panics, the store is created at most once and the counters are exact; and
  that \<open>Close\<close> breaks both: a call that has passed its checks meets a nil store, and a write that
  has passed them creates a new store on the closed cache.
\<close>

datatype cache_call =
    CallGet int int string
  | CallWrite int int "string list" string ByteView "(int \<times> int) option"
  | CallDelete string
  | CallLen
  | CallClear "string list \<Rightarrow> string list"
  | CallClose

datatype cache_result = ResGet "cache_error + ByteView" | ResDone | ResBool bool | ResLen int | ResPanic

text \<open>
  Where a goroutine is in its call. A write is \<open>Set\<close> or, with the clock reading of \<open>time.Until\<close> and
  the expiry time, \<open>SetWithExpiration\<close>.
\<close>

datatype cache_pc =
    LoadClosed cache_call
  | LoadInit cache_call
  | TakeLock cache_call
  | CreateStore cache_call
  | StoreInit cache_call
  | Unlock cache_call
  | UseStore cache_call
  | CountMiss cache_call cache_error
  | CountHit cache_call ByteView
  | ResetHits cache_call
  | ResetMisses cache_call
  | ClearInit cache_call
  | Returned cache_call cache_result

text \<open>\<open>sc_created\<close> is a ghost field: the number of stores created so far.\<close>

record shared_cache =
  sc_cache :: Cache
  sc_mu :: "nat option"
  sc_threads :: "cache_pc list"
  sc_created :: nat
  sc_events :: "ByteView event list"

definition sc_init :: "Cache \<Rightarrow> cache_call list \<Rightarrow> shared_cache" where
  "sc_init c calls = \<lparr>sc_cache = c, sc_mu = None, sc_threads = map LoadClosed calls, sc_created = 0, sc_events = []\<rparr>"

definition move :: "nat \<Rightarrow> cache_pc \<Rightarrow> shared_cache \<Rightarrow> shared_cache" where
  "move t pc s = s\<lparr>sc_threads := (sc_threads s)[t := pc]\<rparr>"

definition upd_cache :: "(Cache \<Rightarrow> Cache) \<Rightarrow> shared_cache \<Rightarrow> shared_cache" where
  "upd_cache f s = s\<lparr>sc_cache := f (sc_cache s)\<rparr>"

text \<open>What a closed or not initialized cache answers.\<close>

fun closed_result :: "cache_call \<Rightarrow> cache_result" where
  "closed_result (CallGet t1 t2 k) = ResGet (Inl ErrCacheClosed)"
| "closed_result (CallDelete k) = ResBool False"
| "closed_result CallLen = ResLen 0"
| "closed_result c = ResDone"

text \<open>The first action: the load of \<open>closed\<close>, for \<open>Close\<close> the compare-and-swap.\<close>

definition at_closed :: "nat \<Rightarrow> cache_call \<Rightarrow> shared_cache \<Rightarrow> shared_cache" where
  "at_closed t call s =
     (if ca_closed (sc_cache s) then move t (Returned call (closed_result call)) s
      else if call = CallClose then move t (TakeLock call) (upd_cache (\<lambda>c. c\<lparr>ca_closed := True\<rparr>) s)
      else move t (LoadInit call) s)"

text \<open>The load of \<open>initialized\<close>, at the start of \<open>ensureInitialized\<close> or as a check of its own.\<close>

fun at_init :: "nat \<Rightarrow> cache_call \<Rightarrow> shared_cache \<Rightarrow> shared_cache" where
  "at_init t (CallWrite now now2 ks k v e) s =
     move t (if ca_initialized (sc_cache s) then UseStore (CallWrite now now2 ks k v e) else TakeLock (CallWrite now now2 ks k v e)) s"
| "at_init t (CallGet t1 t2 k) s =
     move t (if ca_initialized (sc_cache s) then UseStore (CallGet t1 t2 k) else CountMiss (CallGet t1 t2 k) ErrCacheNotInit) s"
| "at_init t (CallClear ord) s =
     move t (if ca_initialized (sc_cache s) then TakeLock (CallClear ord) else Returned (CallClear ord) ResDone) s"
| "at_init t call s = move t (if ca_initialized (sc_cache s) then UseStore call else Returned call (closed_result call)) s"

definition at_lock :: "nat \<Rightarrow> cache_call \<Rightarrow> shared_cache \<Rightarrow> shared_cache option" where
  "at_lock t call s =
     (if sc_mu s \<noteq> None then None
      else Some (move t (case call of CallWrite now now2 ks k v e \<Rightarrow> CreateStore call | _ \<Rightarrow> UseStore call) (s\<lparr>sc_mu := Some t\<rparr>)))"

definition at_create :: "nat \<Rightarrow> cache_call \<Rightarrow> shared_cache \<Rightarrow> shared_cache" where
  "at_create t call s =
     (if ca_initialized (sc_cache s) then move t (Unlock call) s
      else move t (StoreInit call)
        (upd_cache (\<lambda>c. c\<lparr>ca_store := Some (NewStore (co_CacheType (ca_opts c)) (store_options (ca_opts c)))\<rparr>)
          (s\<lparr>sc_created := Suc (sc_created s)\<rparr>)))"

text \<open>The call on the store, and how the method goes on.\<close>

fun use_store :: "cache_call \<Rightarrow> ByteView Store \<Rightarrow> (cache_pc \<times> ByteView event list \<times> ByteView Store) option" where
  "use_store (CallGet t1 t2 k) st = do {
     (r, ev, st) \<leftarrow> store_Get t1 t2 k st;
     Some (case r of
        None \<Rightarrow> CountMiss (CallGet t1 t2 k) ErrKeyNotFound
      | Some None \<Rightarrow> Returned (CallGet t1 t2 k) (ResGet (Inl ErrTypeAssertion))
      | Some (Some bv) \<Rightarrow>
          if bv_b bv = None then CountMiss (CallGet t1 t2 k) ErrKeyNotFound else CountHit (CallGet t1 t2 k) bv, ev, st)
   }"
| "use_store (CallWrite now now2 ks k v None) st = do {
     (ev, st) \<leftarrow> store_Set bv_Len now now2 ks k (Some v) st;
     Some (Returned (CallWrite now now2 ks k v None) ResDone, ev, st)
   }"
| "use_store (CallWrite now now2 ks k v (Some (t, expirationTime))) st =
     (let expiration = time_Sub expirationTime t; done = Returned (CallWrite now now2 ks k v (Some (t, expirationTime))) ResDone in
      if expiration \<le> 0 then Some (done, [], st)
      else do {
        (ev, st) \<leftarrow> store_SetWithExpiration bv_Len now now2 ks k (Some v) expiration st;
        Some (done, ev, st)
      })"
| "use_store (CallDelete k) st = do {
     (r, ev, st) \<leftarrow> store_Delete bv_Len k st;
     Some (Returned (CallDelete k) (ResBool r), ev, st)
   }"
| "use_store CallLen st = do { n \<leftarrow> store_Len st; Some (Returned CallLen (ResLen n), [], st) }"
| "use_store (CallClear ord) st = do {
     (ev, st) \<leftarrow> store_Clear ord st;
     Some (ResetHits (CallClear ord), ev, st)
   }"
| "use_store CallClose st = do { st \<leftarrow> store_Close st; Some (ClearInit CallClose, [], st) }"

text \<open>
  A method call on the nil store panics; the deferred \<open>Unlock\<close> still runs. A skipped write of an
  expired entry does not touch the store.
\<close>

fun touches :: "cache_call \<Rightarrow> bool" where
  "touches (CallWrite now now2 ks k v (Some (t, expirationTime))) = (0 < time_Sub expirationTime t)"
| "touches call = True"

definition panic :: "nat \<Rightarrow> cache_call \<Rightarrow> shared_cache \<Rightarrow> shared_cache" where
  "panic t call s =
     move t (Returned call ResPanic) (s\<lparr>sc_mu := (if sc_mu s = Some t then None else sc_mu s)\<rparr>)"

definition at_store :: "nat \<Rightarrow> cache_call \<Rightarrow> shared_cache \<Rightarrow> shared_cache" where
  "at_store t call s =
     (case ca_store (sc_cache s) of
        None \<Rightarrow>
          if call = CallClose then move t (ClearInit call) s
          else if touches call then panic t call s
          else move t (Returned call ResDone) s
      | Some st \<Rightarrow>
          (case use_store call st of
             None \<Rightarrow> panic t call s
           | Some (pc, ev, st) \<Rightarrow>
               move t pc (upd_cache (\<lambda>c. c\<lparr>ca_store := (if call = CallClose then None else Some st)\<rparr>)
                 (s\<lparr>sc_events := sc_events s @ ev\<rparr>))))"

definition at_unlock :: "nat \<Rightarrow> cache_call \<Rightarrow> shared_cache \<Rightarrow> shared_cache" where
  "at_unlock t call s =
     move t (case call of CallWrite now now2 ks k v e \<Rightarrow> UseStore call | _ \<Rightarrow> Returned call ResDone) (s\<lparr>sc_mu := None\<rparr>)"

text \<open>The next action of goroutine \<open>t\<close>; \<open>None\<close>: it waits for \<open>mu\<close> or has returned.\<close>

definition sc_action :: "nat \<Rightarrow> shared_cache \<Rightarrow> shared_cache option" where
  "sc_action t s =
     (case sc_threads s ! t of
        LoadClosed call \<Rightarrow> Some (at_closed t call s)
      | LoadInit call \<Rightarrow> Some (at_init t call s)
      | TakeLock call \<Rightarrow> at_lock t call s
      | CreateStore call \<Rightarrow> Some (at_create t call s)
      | StoreInit call \<Rightarrow> Some (move t (Unlock call) (upd_cache (\<lambda>c. c\<lparr>ca_initialized := True\<rparr>) s))
      | Unlock call \<Rightarrow> Some (at_unlock t call s)
      | UseStore call \<Rightarrow> Some (at_store t call s)
      | CountMiss call err \<Rightarrow> Some (move t (Returned call (ResGet (Inl err))) (upd_cache add_miss s))
      | CountHit call bv \<Rightarrow> Some (move t (Returned call (ResGet (Inr bv))) (upd_cache add_hit s))
      | ResetHits call \<Rightarrow> Some (move t (ResetMisses call) (upd_cache (\<lambda>c. c\<lparr>ca_hits := 0\<rparr>) s))
      | ResetMisses call \<Rightarrow> Some (move t (Unlock call) (upd_cache (\<lambda>c. c\<lparr>ca_misses := 0\<rparr>) s))
      | ClearInit call \<Rightarrow> Some (move t (Unlock call) (upd_cache (\<lambda>c. c\<lparr>ca_initialized := False\<rparr>) s))
      | Returned call res \<Rightarrow> None)"

inductive sc_step :: "shared_cache \<Rightarrow> shared_cache \<Rightarrow> bool" where
  act: "t < length (sc_threads s) \<Longrightarrow> sc_action t s = Some s' \<Longrightarrow> sc_step s s'"

inductive_cases sc_stepE: "sc_step s s'"

text \<open>A schedule that names the goroutines in the order in which they move.\<close>

primrec sc_run :: "nat list \<Rightarrow> shared_cache \<Rightarrow> shared_cache option" where
  "sc_run [] s = Some s"
| "sc_run (t # ts) s = (if t < length (sc_threads s) then Option.bind (sc_action t s) (sc_run ts) else None)"

fun has_returned :: "cache_pc \<Rightarrow> bool" where
  "has_returned (Returned call res) = True"
| "has_returned pc = False"

subsection \<open>The lock and the end of every call\<close>

fun pc_call :: "cache_pc \<Rightarrow> cache_call" where
  "pc_call (LoadClosed c) = c"
| "pc_call (LoadInit c) = c"
| "pc_call (TakeLock c) = c"
| "pc_call (CreateStore c) = c"
| "pc_call (StoreInit c) = c"
| "pc_call (Unlock c) = c"
| "pc_call (UseStore c) = c"
| "pc_call (CountMiss c e) = c"
| "pc_call (CountHit c v) = c"
| "pc_call (ResetHits c) = c"
| "pc_call (ResetMisses c) = c"
| "pc_call (ClearInit c) = c"
| "pc_call (Returned c r) = c"

fun is_write :: "cache_call \<Rightarrow> bool" where
  "is_write (CallWrite now now2 ks k v e) = True"
| "is_write call = False"

fun is_clear :: "cache_call \<Rightarrow> bool" where
  "is_clear (CallClear ord) = True"
| "is_clear call = False"

fun is_get :: "cache_call \<Rightarrow> bool" where
  "is_get (CallGet t1 t2 k) = True"
| "is_get call = False"

text \<open>Which calls reach which point.\<close>

fun pc_ok :: "cache_pc \<Rightarrow> bool" where
  "pc_ok (LoadInit c) = (c \<noteq> CallClose)"
| "pc_ok (TakeLock c) = (is_write c \<or> is_clear c \<or> c = CallClose)"
| "pc_ok (CreateStore c) = is_write c"
| "pc_ok (StoreInit c) = is_write c"
| "pc_ok (Unlock c) = (is_write c \<or> is_clear c \<or> c = CallClose)"
| "pc_ok (CountMiss c e) = (is_get c \<and> (e = ErrCacheNotInit \<or> e = ErrKeyNotFound))"
| "pc_ok (CountHit c v) = is_get c"
| "pc_ok (ResetHits c) = is_clear c"
| "pc_ok (ResetMisses c) = is_clear c"
| "pc_ok (ClearInit c) = (c = CallClose)"
| "pc_ok pc = True"

text \<open>The points at which a goroutine holds \<open>mu\<close>.\<close>

fun in_lock :: "cache_pc \<Rightarrow> bool" where
  "in_lock (CreateStore c) = True"
| "in_lock (StoreInit c) = True"
| "in_lock (Unlock c) = True"
| "in_lock (UseStore c) = (is_clear c \<or> c = CallClose)"
| "in_lock (ResetHits c) = True"
| "in_lock (ResetMisses c) = True"
| "in_lock (ClearInit c) = True"
| "in_lock pc = False"

text \<open>A bound on the number of actions that remain.\<close>

fun rank :: "cache_pc \<Rightarrow> nat" where
  "rank (LoadClosed c) = 7"
| "rank (LoadInit c) = 6"
| "rank (TakeLock c) = 5"
| "rank (CreateStore c) = 4"
| "rank (StoreInit c) = 3"
| "rank (Unlock c) = (if is_write c then 2 else 1)"
| "rank (UseStore c) = (if is_clear c \<or> c = CallClose then 4 else if is_get c then 2 else 1)"
| "rank (CountMiss c e) = 1"
| "rank (CountHit c v) = 1"
| "rank (ResetHits c) = 3"
| "rank (ResetMisses c) = 2"
| "rank (ClearInit c) = 2"
| "rank (Returned c r) = 0"

definition lock_ok :: "shared_cache \<Rightarrow> bool" where
  "lock_ok s \<longleftrightarrow> (\<forall>t. sc_mu s = Some t \<longleftrightarrow> t < length (sc_threads s) \<and> in_lock (sc_threads s ! t)) \<and>
     (\<forall>pc \<in> set (sc_threads s). pc_ok pc)"

lemma move_simps [simp]:
  "sc_threads (move t pc s) = (sc_threads s)[t := pc]" "sc_mu (move t pc s) = sc_mu s"
  "sc_cache (move t pc s) = sc_cache s" "sc_created (move t pc s) = sc_created s"
  "sc_threads (upd_cache f s) = sc_threads s" "sc_mu (upd_cache f s) = sc_mu s"
  "sc_cache (upd_cache f s) = f (sc_cache s)" "sc_created (upd_cache f s) = sc_created s"
  by (simp_all add: move_def upd_cache_def)

text \<open>What the call on the store leads to.\<close>

lemma use_store_pc:
  assumes "use_store call st = Some (pc, ev, st')"
  shows "pc_call pc = call" and "pc_ok pc" and "rank pc < rank (UseStore call)" and "in_lock pc = in_lock (UseStore call)"
  using assms by (induction call st rule: use_store.induct) (auto simp: Let_def split: bind_splits if_splits option.splits)

text \<open>
  One action replaces the program counter of its goroutine by one of the same call with less
  to do, and takes or releases \<open>mu\<close> as the two points tell.
\<close>

definition moves :: "nat \<Rightarrow> cache_pc \<Rightarrow> shared_cache \<Rightarrow> shared_cache \<Rightarrow> bool" where
  "moves t pc s s' \<longleftrightarrow> (let old = sc_threads s ! t in
     sc_threads s' = (sc_threads s)[t := pc] \<and> pc_call pc = pc_call old \<and> pc_ok pc \<and> rank pc < rank old \<and>
     (in_lock pc \<longrightarrow> in_lock old \<or> sc_mu s = None) \<and>
     sc_mu s' = (if in_lock pc then Some t else if in_lock old then None else sc_mu s))"

lemma at_store_moves:
  assumes "sc_threads s ! t = UseStore call" and "t < length (sc_threads s)" and "in_lock (sc_threads s ! t) = (sc_mu s = Some t)"
  shows "moves t (sc_threads (at_store t call s) ! t) s (at_store t call s)"
proof (cases "ca_store (sc_cache s)")
  case None
  have "moves t (sc_threads (panic t call s) ! t) s (panic t call s)"
    using assms by (auto simp: moves_def panic_def Let_def)
  with None assms show ?thesis
    by (cases "call = CallClose"; cases "touches call"; cases call) (auto simp: moves_def at_store_def Let_def)
next
  case (Some st)
  show ?thesis
  proof (cases "use_store call st")
    case None
    with Some assms show ?thesis by (auto simp: at_store_def moves_def panic_def Let_def)
  next
    case u: (Some r)
    obtain pc ev st' where r: "r = (pc, ev, st')" by (cases r)
    note pc = use_store_pc [OF u [unfolded r]]
    show ?thesis using Some u r pc assms by (auto simp: moves_def at_store_def Let_def)
  qed
qed

lemma sc_action_moves:
  assumes "sc_action t s = Some s'" and "t < length (sc_threads s)" and "pc_ok (sc_threads s ! t)"
    and "in_lock (sc_threads s ! t) = (sc_mu s = Some t)"
  shows "moves t (sc_threads s' ! t) s s'"
proof (cases "sc_threads s ! t")
  case (UseStore call)
  then have "s' = at_store t call s" using assms(1) by (simp add: sc_action_def)
  with at_store_moves [OF UseStore assms(2,4)] show ?thesis by simp
next
  case (LoadInit call)
  then show ?thesis using assms
    by (cases call; cases "ca_initialized (sc_cache s)") (auto simp: sc_action_def moves_def Let_def)
next
  case (TakeLock call)
  then show ?thesis using assms by (cases call) (auto simp: sc_action_def moves_def at_lock_def Let_def split: if_splits)
next
  case (Unlock call)
  then show ?thesis using assms by (cases call) (auto simp: sc_action_def moves_def at_unlock_def Let_def)
next
  case (LoadClosed call)
  then show ?thesis using assms
    by (cases "ca_closed (sc_cache s)"; cases "call = CallClose") (auto simp: sc_action_def moves_def at_closed_def Let_def)
next
  case (CreateStore call)
  then show ?thesis using assms by (cases call; cases "ca_initialized (sc_cache s)") (auto simp: sc_action_def moves_def at_create_def Let_def)
next
  case (StoreInit call)
  then show ?thesis using assms by (cases call) (auto simp: sc_action_def moves_def Let_def)
next
  case (ResetMisses call)
  then show ?thesis using assms by (cases call) (auto simp: sc_action_def moves_def Let_def)
qed (use assms in \<open>auto simp: sc_action_def moves_def Let_def\<close>)

lemma moves_lock_ok:
  assumes "lock_ok s" and "t < length (sc_threads s)" and "moves t pc s s'"
  shows "lock_ok s'"
proof -
  have m: "sc_threads s' = (sc_threads s)[t := pc]" "pc_ok pc" "in_lock pc \<longrightarrow> in_lock (sc_threads s ! t) \<or> sc_mu s = None"
    "sc_mu s' = (if in_lock pc then Some t else if in_lock (sc_threads s ! t) then None else sc_mu s)"
    using assms(3) by (simp_all add: moves_def Let_def)
  have l: "sc_mu s = Some u \<longleftrightarrow> u < length (sc_threads s) \<and> in_lock (sc_threads s ! u)" for u
    using assms(1) by (simp add: lock_ok_def)
  have "sc_mu s' = Some u \<longleftrightarrow> u < length (sc_threads s') \<and> in_lock (sc_threads s' ! u)" for u
    using l [of u] l [of t] m(1,3,4) assms(2) by (cases "u = t") auto
  moreover have "\<forall>pc \<in> set (sc_threads s'). pc_ok pc"
    using assms(1) m(1,2) set_update_subset_insert [of "sc_threads s" t pc] unfolding lock_ok_def by auto
  ultimately show ?thesis by (simp add: lock_ok_def)
qed

lemma sc_step_moves:
  assumes "lock_ok s" and "sc_step s s'"
  obtains t pc where "t < length (sc_threads s)" "sc_action t s = Some s'" "moves t pc s s'"
  using assms(2)
proof (rule sc_stepE)
  fix t
  assume t: "t < length (sc_threads s)" and a: "sc_action t s = Some s'"
  have "pc_ok (sc_threads s ! t)" "in_lock (sc_threads s ! t) = (sc_mu s = Some t)"
    using assms(1) t by (simp_all add: lock_ok_def)
  from that [OF t a sc_action_moves [OF a t this]] show ?thesis .
qed

definition work :: "shared_cache \<Rightarrow> nat" where
  "work s = sum_list (map rank (sc_threads s))"

lemma moves_work:
  assumes "t < length (sc_threads s)" and "moves t pc s s'"
  shows "work s' < work s"
proof -
  have "sc_threads s' = (sc_threads s)[t := pc]" and r: "rank pc < rank (sc_threads s ! t)"
    using assms(2) by (simp_all add: moves_def Let_def)
  then have "work s' = work s + rank pc - rank (sc_threads s ! t)"
    using assms(1) by (simp add: work_def map_update sum_list_update)
  moreover have "rank (sc_threads s ! t) \<le> work s"
    unfolding work_def using assms(1) by (intro member_le_sum_list) simp_all
  ultimately show ?thesis using r by simp
qed

definition all_returned :: "shared_cache \<Rightarrow> bool" where
  "all_returned s \<longleftrightarrow> list_all has_returned (sc_threads s)"

text \<open>The holder of \<open>mu\<close> can always move, and if nobody holds it everybody can.\<close>

lemma sc_progress:
  assumes "lock_ok s" and "\<not> all_returned s"
  shows "\<exists>s'. sc_step s s'"
proof -
  have moving: "\<exists>s'. sc_action t s = Some s'" if "\<not> has_returned (sc_threads s ! t)" "in_lock (sc_threads s ! t) \<or> sc_mu s = None" for t
    using that by (cases "sc_threads s ! t") (auto simp: sc_action_def at_lock_def)
  show ?thesis
  proof (cases "sc_mu s")
    case (Some t)
    then have t: "t < length (sc_threads s)" "in_lock (sc_threads s ! t)" using assms(1) by (auto simp: lock_ok_def)
    then have "\<not> has_returned (sc_threads s ! t)" by (cases "sc_threads s ! t") auto
    with moving t show ?thesis by (blast intro: act)
  next
    case None
    obtain t where "t < length (sc_threads s)" "\<not> has_returned (sc_threads s ! t)"
      using assms(2) by (auto simp: all_returned_def list_all_length)
    with moving None show ?thesis by (blast intro: act)
  qed
qed

lemma lock_ok_init: "lock_ok (sc_init c calls)"
  by (auto simp: lock_ok_def sc_init_def)

interpretation calls: ending_system "\<lambda>s. s = sc_init c cs" sc_step lock_ok work all_returned for c cs
proof
  show "lock_ok s'" if "lock_ok s" "sc_step s s'" for s s'
    using sc_step_moves [OF that] moves_lock_ok [OF that(1)] by metis
  show "work s' < work s" if "lock_ok s" "sc_step s s'" for s s'
    using sc_step_moves [OF that] moves_work by metis
qed (auto simp: lock_ok_init sc_progress)

subsection \<open>Calls without \<open>Close\<close>\<close>

fun needs_store :: "cache_pc \<Rightarrow> bool" where
  "needs_store (UseStore c) = True"
| "needs_store (StoreInit c) = True"
| "needs_store (Unlock c) = True"
| "needs_store (TakeLock c) = is_clear c"
| "needs_store (ResetHits c) = True"
| "needs_store (ResetMisses c) = True"
| "needs_store pc = False"

fun panicked :: "cache_pc \<Rightarrow> bool" where
  "panicked (Returned c ResPanic) = True"
| "panicked pc = False"

text \<open>
  An open cache: the store exists as soon as the flag says so, it is missing its flag only while
  the goroutine that created it holds \<open>mu\<close>, and it exists where it is used. \<open>c0\<close> is the cache at the
  start.
\<close>

definition created_by :: "Cache \<Rightarrow> Cache \<Rightarrow> nat" where
  "created_by c0 c = (if ca_store c0 = None \<and> ca_store c \<noteq> None then 1 else 0)"

definition store_state :: "Cache \<Rightarrow> bool" where
  "store_state c \<longleftrightarrow> \<not> ca_closed c \<and> opts_ok (store_options (ca_opts c)) \<and> (ca_initialized c \<longrightarrow> ca_store c \<noteq> None) \<and>
     (\<forall>st. ca_store c = Some st \<longrightarrow> store_ok bv_Len st)"

definition open_ok :: "Cache \<Rightarrow> shared_cache \<Rightarrow> bool" where
  "open_ok c0 s \<longleftrightarrow> lock_ok s \<and> store_state (sc_cache s) \<and>
     (ca_store (sc_cache s) \<noteq> None \<longrightarrow> ca_initialized (sc_cache s) \<or>
        (\<exists>t call. sc_mu s = Some t \<and> sc_threads s ! t = StoreInit call)) \<and>
     (\<forall>pc \<in> set (sc_threads s). pc_call pc \<noteq> CallClose \<and> (needs_store pc \<longrightarrow> ca_store (sc_cache s) \<noteq> None) \<and> \<not> panicked pc) \<and>
     sc_created s = created_by c0 (sc_cache s) \<and> (ca_store c0 \<noteq> None \<longrightarrow> ca_store (sc_cache s) \<noteq> None)"

lemma open_okD:
  assumes "open_ok c0 s"
  shows "lock_ok s" and "store_state (sc_cache s)"
    and "ca_store (sc_cache s) \<noteq> None \<Longrightarrow> \<not> ca_initialized (sc_cache s) \<Longrightarrow> \<exists>t call. sc_mu s = Some t \<and> sc_threads s ! t = StoreInit call"
    and "t < length (sc_threads s) \<Longrightarrow> pc_call (sc_threads s ! t) \<noteq> CallClose"
    and "t < length (sc_threads s) \<Longrightarrow> needs_store (sc_threads s ! t) \<Longrightarrow> ca_store (sc_cache s) \<noteq> None"
    and "t < length (sc_threads s) \<Longrightarrow> \<not> panicked (sc_threads s ! t)"
    and "sc_created s = created_by c0 (sc_cache s)" and "ca_store c0 \<noteq> None \<Longrightarrow> ca_store (sc_cache s) \<noteq> None"
  using assms unfolding open_ok_def by (blast intro: nth_mem)+

text \<open>An action that keeps the flags and whether there is a store.\<close>

definition same_flags :: "Cache \<Rightarrow> Cache \<Rightarrow> bool" where
  "same_flags c c' \<longleftrightarrow> ca_closed c' = ca_closed c \<and> ca_initialized c' = ca_initialized c \<and> ca_opts c' = ca_opts c \<and>
     (ca_store c' = None \<longleftrightarrow> ca_store c = None)"

lemma open_ok_threads:
  assumes "open_ok c0 s" and "t < length (sc_threads s)" and "moves t pc s s'" and "\<not> panicked pc"
    and "needs_store pc \<Longrightarrow> ca_store (sc_cache s') \<noteq> None" and "ca_store (sc_cache s) \<noteq> None \<Longrightarrow> ca_store (sc_cache s') \<noteq> None"
  shows "\<forall>pc \<in> set (sc_threads s'). pc_call pc \<noteq> CallClose \<and> (needs_store pc \<longrightarrow> ca_store (sc_cache s') \<noteq> None) \<and> \<not> panicked pc"
proof -
  have m: "sc_threads s' = (sc_threads s)[t := pc]" "pc_call pc = pc_call (sc_threads s ! t)"
    using assms(3) by (simp_all add: moves_def Let_def)
  have "pc_call pc \<noteq> CallClose" using m(2) open_okD(4) [OF assms(1,2)] by simp
  moreover have "\<forall>pc \<in> set (sc_threads s). pc_call pc \<noteq> CallClose \<and> (needs_store pc \<longrightarrow> ca_store (sc_cache s') \<noteq> None) \<and> \<not> panicked pc"
    using assms(1,6) unfolding open_ok_def by blast
  ultimately show ?thesis using m(1) set_update_subset_insert [of "sc_threads s" t pc] assms(4,5) by auto
qed

lemma open_ok_frame:
  assumes "open_ok c0 s" and "t < length (sc_threads s)" and "moves t pc s s'" and "same_flags (sc_cache s) (sc_cache s')"
    and "\<forall>st. ca_store (sc_cache s') = Some st \<longrightarrow> store_ok bv_Len st" and "sc_created s' = sc_created s"
    and "needs_store pc \<Longrightarrow> ca_store (sc_cache s) \<noteq> None" and "\<not> panicked pc" and "\<And>c. sc_threads s ! t \<noteq> StoreInit c"
  shows "open_ok c0 s'"
proof -
  note d = open_okD [OF assms(1)]
  have f: "ca_store (sc_cache s') = None \<longleftrightarrow> ca_store (sc_cache s) = None" "ca_initialized (sc_cache s') = ca_initialized (sc_cache s)"
    "ca_closed (sc_cache s') = ca_closed (sc_cache s)" "ca_opts (sc_cache s') = ca_opts (sc_cache s)"
    using assms(4) by (simp_all add: same_flags_def)
  have m: "sc_threads s' = (sc_threads s)[t := pc]" "in_lock pc \<longrightarrow> in_lock (sc_threads s ! t) \<or> sc_mu s = None"
    "sc_mu s' = (if in_lock pc then Some t else if in_lock (sc_threads s ! t) then None else sc_mu s)"
    using assms(3) by (simp_all add: moves_def Let_def)
  have fl: "\<exists>u c. sc_mu s' = Some u \<and> sc_threads s' ! u = StoreInit c" if new: "ca_store (sc_cache s') \<noteq> None" "\<not> ca_initialized (sc_cache s')"
  proof -
    obtain u c where u: "sc_mu s = Some u" "sc_threads s ! u = StoreInit c" using d(3) new f by auto
    then have "u \<noteq> t" using assms(9) by auto
    moreover from this have "\<not> in_lock (sc_threads s ! t)" using u(1) d(1) assms(2) by (auto simp: lock_ok_def)
    ultimately show ?thesis using u m by auto
  qed
  have "ca_store (sc_cache s') \<noteq> None \<longrightarrow> ca_initialized (sc_cache s') \<or>
      (\<exists>u c. sc_mu s' = Some u \<and> sc_threads s' ! u = StoreInit c)" using fl by blast
  moreover have "store_state (sc_cache s')" using d(2) f assms(5) by (simp add: store_state_def)
  moreover have "sc_created s' = created_by c0 (sc_cache s')" using d(7) assms(6) f(1) by (simp add: created_by_def)
  moreover note moves_lock_ok [OF d(1) assms(2,3)]
  moreover have "\<forall>pc \<in> set (sc_threads s'). pc_call pc \<noteq> CallClose \<and> (needs_store pc \<longrightarrow> ca_store (sc_cache s') \<noteq> None) \<and> \<not> panicked pc"
    by (rule open_ok_threads [OF assms(1-3,8)]) (use assms(7) f(1) in simp_all)
  moreover have "ca_store c0 \<noteq> None \<longrightarrow> ca_store (sc_cache s') \<noteq> None" using d(8) f(1) by simp
  ultimately show ?thesis unfolding open_ok_def by blast
qed

text \<open>The methods of a well-formed store return, by the contract of the interface.\<close>

lemma use_store_total:
  assumes "store_ok bv_Len st" and "call \<noteq> CallClose"
  obtains pc ev st' where "use_store call st = Some (pc, ev, st')" "store_ok bv_Len st'" "\<not> panicked pc"
proof (cases call)
  case (CallGet t1 t2 k)
  obtain r ev st' where "store_Get t1 t2 k st = Some (r, ev, st')" "store_ok bv_Len st'"
    using assms(1) by (rule store.get_totalE)
  with CallGet that show ?thesis by (cases r; cases "the r") auto
next
  case (CallWrite now now2 ks k v e)
  obtain ev st' where s: "store_SetWithExpiration bv_Len now now2 ks k (Some v) (case e of None \<Rightarrow> 0 | Some (t, x) \<Rightarrow> time_Sub x t) st
      = Some (ev, st')" "store_ok bv_Len st'" using assms(1) by (rule store.set_totalE)
  show ?thesis
  proof (cases "e \<noteq> None \<and> \<not> touches call")
    case True
    then obtain t x where "e = Some (t, x)" "time_Sub x t \<le> 0" using CallWrite by (cases e) auto
    with that [of "Returned call ResDone" "[]" st] CallWrite assms(1) show ?thesis by simp
  next
    case False
    with that [of "Returned call ResDone" ev st'] CallWrite s show ?thesis by (cases e) (auto simp: store_Set_eq)
  qed
next
  case (CallDelete k)
  obtain r ev st' where "store_Delete bv_Len k st = Some (r, ev, st')" "store_ok bv_Len st'"
    using assms(1) by (rule store.del_totalE)
  with CallDelete that show ?thesis by auto
next
  case CallLen
  with that assms(1) store.len_total [OF assms(1)] show ?thesis by auto
next
  case (CallClear ord)
  with that store.clear_total [OF assms(1), of ord] show ?thesis by auto
qed (use assms(2) in simp)

text \<open>The two actions that create the store.\<close>

lemma open_ok_create:
  assumes "open_ok c0 s" and "t < length (sc_threads s)" and "sc_threads s ! t = CreateStore call" and "moves t pc s s'"
    and "\<not> ca_initialized (sc_cache s)" and "s' = at_create t call s"
  shows "open_ok c0 s'"
proof -
  note d = open_okD [OF assms(1)]
  let ?c = "sc_cache s" let ?st = "NewStore (co_CacheType (ca_opts ?c)) (store_options (ca_opts ?c)) :: ByteView Store"
  have mu: "sc_mu s = Some t" using d(1) assms(2,3) by (simp add: lock_ok_def)
  then have none: "ca_store ?c = None" using d(3) assms(3,5) by (cases "ca_store ?c") auto
  have s': "sc_cache s' = ?c\<lparr>ca_store := Some ?st\<rparr>" "sc_created s' = Suc (sc_created s)" "sc_mu s' = Some t"
    "sc_threads s' = (sc_threads s)[t := StoreInit call]"
    using assms(5,6) mu by (simp_all add: at_create_def)
  have pc: "pc = StoreInit call" using assms(2,4) s'(4) by (auto simp: moves_def Let_def dest: arg_cong [of _ _ "\<lambda>xs. xs ! t"])
  have "store_ok bv_Len ?st" using d(2) by (intro NewStore_ok) (simp_all add: store_state_def bv_Len_nonneg)
  then have "store_state (sc_cache s')" using d(2) by (simp add: store_state_def s'(1))
  moreover have "sc_created s' = created_by c0 (sc_cache s')" using d(7,8) none by (cases "ca_store c0") (auto simp: s' created_by_def)
  moreover have "sc_mu s' = Some t \<and> sc_threads s' ! t = StoreInit call" using s'(3,4) assms(2) by simp
  moreover have "\<forall>pc \<in> set (sc_threads s'). pc_call pc \<noteq> CallClose \<and> (needs_store pc \<longrightarrow> ca_store (sc_cache s') \<noteq> None) \<and> \<not> panicked pc"
    by (rule open_ok_threads [OF assms(1,2,4)]) (simp_all add: pc s'(1))
  moreover note moves_lock_ok [OF d(1) assms(2,4)]
  moreover have "ca_store (sc_cache s') \<noteq> None" by (simp add: s'(1))
  ultimately show ?thesis unfolding open_ok_def by blast
qed

lemma open_ok_flag:
  assumes "open_ok c0 s" and "t < length (sc_threads s)" and "sc_threads s ! t = StoreInit call" and "moves t pc s s'"
    and "s' = move t (Unlock call) (upd_cache (\<lambda>c. c\<lparr>ca_initialized := True\<rparr>) s)"
  shows "open_ok c0 s'"
proof -
  note d = open_okD [OF assms(1)]
  have st: "ca_store (sc_cache s) \<noteq> None" using d(5) [OF assms(2)] assms(3) by simp
  have s': "sc_cache s' = (sc_cache s)\<lparr>ca_initialized := True\<rparr>" "sc_created s' = sc_created s"
    "sc_threads s' = (sc_threads s)[t := Unlock call]" using assms(5) by simp_all
  have pc: "pc = Unlock call" using assms(2,4) s'(3) by (auto simp: moves_def Let_def dest: arg_cong [of _ _ "\<lambda>xs. xs ! t"])
  have "store_state (sc_cache s')" using d(2) st by (auto simp: store_state_def s'(1))
  moreover have "sc_created s' = created_by c0 (sc_cache s')" using d(7) by (simp add: s' created_by_def)
  moreover have "\<forall>pc \<in> set (sc_threads s'). pc_call pc \<noteq> CallClose \<and> (needs_store pc \<longrightarrow> ca_store (sc_cache s') \<noteq> None) \<and> \<not> panicked pc"
    by (rule open_ok_threads [OF assms(1,2,4)]) (use st in \<open>simp_all add: pc s'(1)\<close>)
  moreover note moves_lock_ok [OF d(1) assms(2,4)]
  moreover have "ca_store (sc_cache s') \<noteq> None" "ca_initialized (sc_cache s')" using st by (simp_all add: s'(1))
  ultimately show ?thesis unfolding open_ok_def by blast
qed

lemma same_flags_refl [simp]: "same_flags c c"
  by (simp add: same_flags_def)

lemma open_ok_store:
  assumes "open_ok c0 s" and "t < length (sc_threads s)" and "sc_threads s ! t = UseStore call"
    and "moves t (sc_threads s' ! t) s s'" and "s' = at_store t call s"
  shows "open_ok c0 s'"
proof -
  note d = open_okD [OF assms(1)]
  obtain st where st: "ca_store (sc_cache s) = Some st" "store_ok bv_Len st"
    using d(2) d(5) [OF assms(2)] assms(3) by (auto simp: store_state_def)
  have nc: "call \<noteq> CallClose" using d(4) [OF assms(2)] assms(3) by simp
  obtain pc ev st' where u: "use_store call st = Some (pc, ev, st')" "store_ok bv_Len st'" "\<not> panicked pc"
    using use_store_total [OF st(2) nc] .
  have s': "sc_cache s' = (sc_cache s)\<lparr>ca_store := Some st'\<rparr>" "sc_created s' = sc_created s" "sc_threads s' ! t = pc"
    using st(1) u(1) nc assms(2,5) by (simp_all add: at_store_def)
  show ?thesis
    by (rule open_ok_frame [OF assms(1,2,4)]) (use st u assms(3) in \<open>simp_all add: s' same_flags_def\<close>)
qed

lemma open_ok_keep:
  assumes "open_ok c0 s" and "t < length (sc_threads s)" and "moves t (sc_threads s' ! t) s s'" and "sc_threads s' ! t = pc"
    and "sc_threads s ! t \<noteq> StoreInit (pc_call (sc_threads s ! t))" and "sc_created s' = sc_created s"
    and "ca_store (sc_cache s') = ca_store (sc_cache s)" and "same_flags (sc_cache s) (sc_cache s')"
    and "needs_store pc \<Longrightarrow> ca_store (sc_cache s) \<noteq> None" and "\<not> panicked pc"
  shows "open_ok c0 s'"
  by (rule open_ok_frame [OF assms(1-3)]) (use assms(4-) open_okD(2) [OF assms(1)] in \<open>auto simp: store_state_def\<close>)

lemma open_ok_at_create:
  assumes "open_ok c0 s" and "t < length (sc_threads s)" and "sc_threads s ! t = CreateStore call"
    and "moves t (sc_threads s' ! t) s s'" and "s' = at_create t call s"
  shows "open_ok c0 s'"
proof (cases "ca_initialized (sc_cache s)")
  case True
  moreover from this have "ca_store (sc_cache s) \<noteq> None" using open_okD(2) [OF assms(1)] by (simp add: store_state_def)
  ultimately show ?thesis using assms(2,3,5)
    by (intro open_ok_keep [OF assms(1,2,4), of "Unlock call"]) (auto simp: at_create_def)
next
  case False
  with assms(5) show ?thesis by (intro open_ok_create [OF assms(1-4)])
qed

lemma open_ok_step:
  assumes "open_ok c0 s" and "sc_step s s'"
  shows "open_ok c0 s'"
proof -
  note d = open_okD [OF assms(1)]
  obtain t pc where t: "t < length (sc_threads s)" "sc_action t s = Some s'" and m': "moves t pc s s'"
    using sc_step_moves [OF d(1) assms(2)] .
  have m: "moves t (sc_threads s' ! t) s s'" using m' t(1) by (simp add: moves_def Let_def)
  note frame = open_ok_keep [OF assms(1) t(1) m]
  note need = d(5) [OF t(1)] and call = d(4) [OF t(1)]
  show ?thesis
  proof (cases "sc_threads s ! t")
    case (LoadClosed c)
    have "\<not> ca_closed (sc_cache s)" using d(2) by (simp add: store_state_def)
    with LoadClosed t call show ?thesis by (intro frame [of "LoadInit c"]) (auto simp: sc_action_def at_closed_def)
  next
    case (LoadInit c)
    have "ca_initialized (sc_cache s) \<Longrightarrow> ca_store (sc_cache s) \<noteq> None" using d(2) by (simp add: store_state_def)
    with LoadInit t call show ?thesis
      by (intro frame [of "sc_threads (at_init t c s) ! t"]; cases c; cases "ca_initialized (sc_cache s)") (auto simp: sc_action_def)
  next
    case (TakeLock c)
    have "pc_ok (TakeLock c)" using d(1) t(1) TakeLock by (metis lock_ok_def nth_mem)
    with TakeLock t need call show ?thesis
      by (intro frame [OF refl]; cases c) (auto simp: sc_action_def at_lock_def split: if_splits)
  next
    case (CreateStore c)
    with t show ?thesis by (intro open_ok_at_create [OF assms(1) t(1) _ m]) (auto simp: sc_action_def)
  next
    case (StoreInit c)
    with t show ?thesis by (intro open_ok_flag [OF assms(1) t(1) _ m]) (auto simp: sc_action_def)
  next
    case (Unlock c)
    with t need show ?thesis by (intro frame [OF refl]; cases c) (auto simp: sc_action_def at_unlock_def)
  next
    case (UseStore c)
    with t show ?thesis by (intro open_ok_store [OF assms(1) t(1) _ m]) (auto simp: sc_action_def)
  next
    case (ClearInit c)
    have "pc_ok (ClearInit c)" using d(1) t(1) ClearInit by (metis lock_ok_def nth_mem)
    with call ClearInit show ?thesis by simp
  qed (use t need in \<open>intro frame [OF refl]; auto simp: sc_action_def same_flags_def add_miss_def add_hit_def\<close>)+
qed

subsection \<open>The counters\<close>

fun hit_returned :: "cache_pc \<Rightarrow> bool" where
  "hit_returned (Returned c (ResGet (Inr v))) = True"
| "hit_returned pc = False"

fun miss_returned :: "cache_pc \<Rightarrow> bool" where
  "miss_returned (Returned c (ResGet (Inl e))) = (e = ErrCacheNotInit \<or> e = ErrKeyNotFound)"
| "miss_returned pc = False"

definition returned_count :: "(cache_pc \<Rightarrow> bool) \<Rightarrow> shared_cache \<Rightarrow> int" where
  "returned_count P s = int (length (filter P (sc_threads s)))"

text \<open>The counters against those of the cache \<open>c0\<close> at the start.\<close>

definition tally_ok :: "Cache \<Rightarrow> shared_cache \<Rightarrow> bool" where
  "tally_ok c0 s \<longleftrightarrow> ca_hits (sc_cache s) = wrap64 (ca_hits c0 + returned_count hit_returned s) \<and>
     ca_misses (sc_cache s) = wrap64 (ca_misses c0 + returned_count miss_returned s)"

definition counts_ok :: "Cache \<Rightarrow> shared_cache \<Rightarrow> bool" where
  "counts_ok c0 s \<longleftrightarrow> lock_ok s \<and> (\<forall>pc \<in> set (sc_threads s). \<not> is_clear (pc_call pc)) \<and> tally_ok c0 s"

lemma returned_count_move:
  assumes "t < length (sc_threads s)" and "sc_threads s' = (sc_threads s)[t := pc]" and "\<not> P (sc_threads s ! t)"
  shows "returned_count P s' = returned_count P s + (if P pc then 1 else 0)"
  using length_filter_update [OF assms(1), of P pc] assms(2,3) by (simp add: returned_count_def)

lemma use_store_quiet:
  "use_store call st = Some (pc, ev, st') \<Longrightarrow> \<not> hit_returned pc \<and> \<not> miss_returned pc"
  by (induction call st rule: use_store.induct) (auto simp: Let_def split: bind_splits if_splits option.splits)

lemma at_store_quiet:
  assumes "t < length (sc_threads s)"
  shows "\<not> hit_returned (sc_threads (at_store t call s) ! t) \<and> \<not> miss_returned (sc_threads (at_store t call s) ! t) \<and>
    ca_hits (sc_cache (at_store t call s)) = ca_hits (sc_cache s) \<and> ca_misses (sc_cache (at_store t call s)) = ca_misses (sc_cache s)"
proof (cases "ca_store (sc_cache s)")
  case None
  then show ?thesis using assms by (simp add: at_store_def panic_def)
next
  case (Some st)
  then show ?thesis using assms use_store_quiet [of call st]
    by (cases "use_store call st") (auto simp: at_store_def panic_def)
qed

lemma tally_step:
  assumes "tally_ok c0 s" and "t < length (sc_threads s)" and "sc_action t s = Some s'" and "moves t (sc_threads s' ! t) s s'"
    and "\<not> is_clear (pc_call (sc_threads s ! t))" and "pc_ok (sc_threads s ! t)"
  shows "tally_ok c0 s'"
proof -
  have th: "sc_threads s' = (sc_threads s)[t := sc_threads s' ! t]" using assms(4) by (simp add: moves_def Let_def)
  have "\<not> hit_returned (sc_threads s ! t)" "\<not> miss_returned (sc_threads s ! t)"
    using assms(3) by (cases "sc_threads s ! t"; simp add: sc_action_def)+
  note n = returned_count_move [where P = hit_returned, OF assms(2) th this(1)] returned_count_move [where P = miss_returned, OF assms(2) th this(2)]
  have quiet: ?thesis if "\<not> hit_returned (sc_threads s' ! t)" "\<not> miss_returned (sc_threads s' ! t)"
    "ca_hits (sc_cache s') = ca_hits (sc_cache s)" "ca_misses (sc_cache s') = ca_misses (sc_cache s)"
    using assms(1) n that by (simp add: tally_ok_def)
  show ?thesis
  proof (cases "sc_threads s ! t")
    case (CountMiss c e)
    with assms n show ?thesis by (auto simp: tally_ok_def sc_action_def add_miss_def wrap64_wrap_add add.assoc)
  next
    case (CountHit c v)
    with assms n show ?thesis by (auto simp: tally_ok_def sc_action_def add_hit_def wrap64_wrap_add add.assoc)
  next
    case (UseStore c)
    with assms(2,3) at_store_quiet [OF assms(2), of c] show ?thesis by (intro quiet) (auto simp: sc_action_def)
  next
    case (LoadClosed c)
    with assms(2,3) show ?thesis by (intro quiet; cases c; cases "ca_closed (sc_cache s)") (auto simp: sc_action_def at_closed_def)
  next
    case (LoadInit c)
    with assms(2,3) show ?thesis by (intro quiet; cases c; cases "ca_initialized (sc_cache s)") (auto simp: sc_action_def)
  next
    case (TakeLock c)
    with assms(2,3) show ?thesis by (intro quiet; cases c) (auto simp: sc_action_def at_lock_def split: if_splits)
  next
    case (CreateStore c)
    with assms(2,3) show ?thesis by (intro quiet; cases "ca_initialized (sc_cache s)") (auto simp: sc_action_def at_create_def)
  next
    case (Unlock c)
    with assms(2,3) show ?thesis by (intro quiet; cases c) (auto simp: sc_action_def at_unlock_def)
  qed (use assms in \<open>intro quiet; auto simp: sc_action_def\<close>)+
qed

lemma counts_ok_step:
  assumes "counts_ok c0 s" and "sc_step s s'"
  shows "counts_ok c0 s'"
proof -
  have l: "lock_ok s" and nc: "\<forall>pc \<in> set (sc_threads s). \<not> is_clear (pc_call pc)" and ty: "tally_ok c0 s"
    using assms(1) by (simp_all add: counts_ok_def)
  obtain t pc where t: "t < length (sc_threads s)" "sc_action t s = Some s'" and m: "moves t pc s s'"
    using sc_step_moves [OF l assms(2)] .
  have th: "sc_threads s' = (sc_threads s)[t := pc]" "pc_call pc = pc_call (sc_threads s ! t)"
    using m by (simp_all add: moves_def Let_def)
  have m2: "moves t (sc_threads s' ! t) s s'" using m th(1) t(1) by simp
  have old: "\<not> is_clear (pc_call (sc_threads s ! t))" "pc_ok (sc_threads s ! t)" using nc l t(1) by (simp_all add: lock_ok_def)
  then have "\<forall>pc \<in> set (sc_threads s'). \<not> is_clear (pc_call pc)"
    using nc th set_update_subset_insert [of "sc_threads s" t pc] by auto
  then show ?thesis using moves_lock_ok [OF l t(1) m] tally_step [OF ty t m2 old] by (simp add: counts_ok_def)
qed

definition in_range :: "Cache \<Rightarrow> bool" where
  "in_range c \<longleftrightarrow> in_int64 (ca_hits c) \<and> in_int64 (ca_misses c)"

interpretation tallies: invariant_system "\<lambda>s. s = sc_init c cs \<and> in_range c \<and> \<not> list_ex is_clear cs" sc_step "counts_ok c" for c cs
proof
  show "counts_ok c s" if "s = sc_init c cs \<and> in_range c \<and> \<not> list_ex is_clear cs" for s
    using that lock_ok_init [of c cs] wrap64_id [of "ca_hits c"] wrap64_id [of "ca_misses c"]
    by (auto simp: counts_ok_def tally_ok_def returned_count_def sc_init_def list_ex_iff in_range_def)
qed (rule counts_ok_step)

interpretation open_calls: invariant_system "\<lambda>s. s = sc_init c cs \<and> cache_ok c \<and> \<not> ca_closed c \<and> CallClose \<notin> set cs" sc_step "open_ok c" for c cs
proof
  show "open_ok c s" if "s = sc_init c cs \<and> cache_ok c \<and> \<not> ca_closed c \<and> CallClose \<notin> set cs" for s
    using that lock_ok_init [of c cs]
    by (auto simp: open_ok_def store_state_def cache_ok_def created_by_def sc_init_def split: option.splits)
qed (rule open_ok_step)

subsection \<open>Properties\<close>

text \<open>
  C17: concurrent calls of a cache all return. Whatever methods \<open>n\<close> goroutines call, \<open>Close\<close> included, and
  however they are scheduled, no run has more than \<open>7 n\<close> actions, in every state in which some call
  has not returned some goroutine can move (the holder of \<open>mu\<close>, or anyone if it is free), and every
  state can be completed to one in which all calls have returned.
\<close>

theorem cache_calls_return:
  "((sc_step ^^ n) (sc_init c cs) s \<longrightarrow> n \<le> 7 * length cs) \<and>
   (reach (\<lambda>s. s = sc_init c cs) sc_step s \<longrightarrow>
     (all_returned s \<or> (\<exists>s'. sc_step s s')) \<and> (\<exists>s'. rtranclp sc_step s s' \<and> all_returned s'))"
proof (intro conjI impI)
  have w: "work (sc_init c cs) = 7 * length cs" by (induction cs) (simp_all add: work_def sc_init_def)
  show "n \<le> 7 * length cs" if "(sc_step ^^ n) (sc_init c cs) s"
    using calls.steps_bounded [OF that lock_ok_init] w by simp
  show "all_returned s \<or> (\<exists>s'. sc_step s s')" "\<exists>s'. rtranclp sc_step s s' \<and> all_returned s'"
    if "reach (\<lambda>s. s = sc_init c cs) sc_step s"
    using calls.progress calls.can_end calls.reach_ok [OF that] by blast+
qed


text \<open>
  C37: \<open>Close\<close> races with the other calls. The methods read the flags without \<open>mu\<close>, so \<open>Close\<close> can run between
  their checks and their use of the store. A \<open>Get\<close> on an open, initialized cache then calls a
  method of the nil store and panics. A \<open>Set\<close> that has passed its check creates a new store on the
  closed cache: the cache ends closed and initialized with a store that no later \<open>Close\<close> closes.
\<close>

theorem cache_close_races:
  assumes "cache_ok c" and "\<not> ca_closed c"
  shows "(ca_initialized c \<longrightarrow> (\<exists>s. sc_run [0, 0, 1, 1, 1, 1, 1, 0] (sc_init c [CallGet t1 t2 k, CallClose]) = Some s \<and>
      all_returned s \<and> panicked (sc_threads s ! 0))) \<and>
    (\<exists>s. sc_run [0, 1, 1, 1, 1, 1, 0, 0, 0, 0, 0, 0] (sc_init c [CallWrite now now2 ks k v None, CallClose]) = Some s \<and>
      all_returned s \<and> ca_closed (sc_cache s) \<and> ca_initialized (sc_cache s) \<and> ca_store (sc_cache s) \<noteq> None \<and>
      Cache_Close (sc_cache s) = Some (sc_cache s))"
proof (intro conjI impI)
  let ?new = "NewStore (co_CacheType (ca_opts c)) (store_options (ca_opts c)) :: ByteView Store"
  have "store_ok bv_Len ?new" using assms(1) by (intro NewStore_ok) (simp_all add: cache_ok_def bv_Len_nonneg)
  then obtain ev st' where w: "store_Set bv_Len now now2 ks k (Some v) ?new = Some (ev, st')"
    using store.set_totalE [where vlen = bv_Len] unfolding store_Set_eq by metis
  have closes: "\<exists>st'. store_Close st = Some st'" if "ca_store c = Some st" for st
    using store.close_total [where vlen = bv_Len] assms(1) that by (simp add: cache_ok_def)
  note defs = sc_init_def sc_action_def at_closed_def at_lock_def at_store_def at_unlock_def at_create_def panic_def move_def upd_cache_def
    all_returned_def Cache_Close_def
  show "\<exists>s. sc_run [0, 0, 1, 1, 1, 1, 1, 0] (sc_init c [CallGet t1 t2 k, CallClose]) = Some s \<and>
      all_returned s \<and> panicked (sc_threads s ! 0)" if init: "ca_initialized c"
  proof -
    obtain st where st: "ca_store c = Some st" using open_store [OF assms(1) init] by blast
    from closes [OF st] st init assms(2) show ?thesis by (auto simp: defs)
  qed
  show "\<exists>s. sc_run [0, 1, 1, 1, 1, 1, 0, 0, 0, 0, 0, 0] (sc_init c [CallWrite now now2 ks k v None, CallClose]) = Some s \<and>
      all_returned s \<and> ca_closed (sc_cache s) \<and> ca_initialized (sc_cache s) \<and> ca_store (sc_cache s) \<noteq> None \<and>
      Cache_Close (sc_cache s) = Some (sc_cache s)"
    using closes assms(2) w by (cases "ca_store c") (auto simp: defs)
qed

subsection \<open>Witnesses\<close>

lemma sc_run_steps: "sc_run ts s = Some s' \<Longrightarrow> rtranclp sc_step s s'"
proof (induction ts arbitrary: s)
  case (Cons t ts)
  then obtain s1 where s1: "t < length (sc_threads s)" "sc_action t s = Some s1" "sc_run ts s1 = Some s'"
    by (auto split: if_splits bind_splits)
  from Cons.IH [OF s1(3)] act [OF s1(1,2)] show ?case by (rule converse_rtranclp_into_rtranclp [rotated])
qed simp

definition demo_cache :: Cache where
  "demo_cache = NewCache DefaultCacheOptions"

lemma demo_cache_ok: "cache_ok demo_cache" "\<not> ca_closed demo_cache"
  using NewCache_ok [of DefaultCacheOptions]
  by (simp_all add: demo_cache_def opts_ok_def store_options_def DefaultCacheOptions_def NewCache_def)

theorem cache_calls_return_witness:
  "\<exists>s. (sc_step ^^ 1) (sc_init demo_cache [CallLen]) s \<and> 1 \<le> 7 * length [CallLen] \<and>
     (\<exists>s'. rtranclp sc_step s s' \<and> all_returned s')"
proof -
  let ?i = "sc_init demo_cache [CallLen]" and ?s = "move 0 (LoadInit CallLen) (sc_init demo_cache [CallLen])"
  have s: "sc_step ?i ?s" using demo_cache_ok(2) by (intro act [of 0]) (simp_all add: sc_init_def sc_action_def at_closed_def)
  then have r: "reach (\<lambda>s. s = ?i) sc_step ?s" by (blast intro: reach_step reach_start)
  from cache_calls_return [of 1 demo_cache "[CallLen]" ?s] s r show ?thesis by auto
qed


theorem cache_close_races_witness:
  "\<exists>s. sc_run [0, 1, 1, 1, 1, 1, 0, 0, 0, 0, 0, 0] (sc_init demo_cache [CallWrite 5 5 [] ''k'' (ByteView (Some [1])) None, CallClose]) = Some s \<and>
     ca_closed (sc_cache s) \<and> ca_store (sc_cache s) \<noteq> None"
  using cache_close_races [OF demo_cache_ok, of 5 5 "''k''" 5 5 "[]" "ByteView (Some [1])"] by blast

end
