(* ===== verification/Consistent_Hash.thy ===== *)
theory Consistent_Hash
  imports Prelude
begin

text \<open>
  \<^verbatim>\<open>consistenthash/con_hash.go\<close> and \<^verbatim>\<open>consistenthash/config.go\<close>: the hash ring that
  assigns keys to nodes through virtual nodes. The ring is the sorted slice \<open>keys\<close> of
  virtual-node hashes with the map from hashes to nodes; \<open>Get\<close> finds the owner by binary
  search (\<open>sort.Search\<close>, modelled as the library's loop). The mutex makes each method
  atomic. The IEEE operations of the balancer are parameters.

  The lemmas show that binary search finds the successor of the key's hash on the ring, that
  the ring stays consistent with the node set as long as virtual nodes do not collide, and
  that removing a node moves only that node's keys.
\<close>

record Config =
  cfg_DefaultReplicas :: int
  cfg_MinReplicas :: int
  cfg_MaxReplicas :: int
  cfg_HashFunc :: "bytes \<Rightarrow> u32"
  cfg_LoadBalanceThreshold :: u64

record Map =
  m_config :: Config
  m_keys :: "int list"
  m_hashMap :: "(int, string) gomap"
  m_nodeReplicas :: "(string, int) gomap"
  m_nodeCounts :: "(string, int) gomap"
  m_totalRequests :: int

datatype ring_error = ErrNoNodes | ErrInvalidNode | ErrNodeNotFound

definition Map_New :: "Config \<Rightarrow> Map" where
  "Map_New config = \<lparr>m_config = config, m_keys = [], m_hashMap = [], m_nodeReplicas = [], m_nodeCounts = [],
     m_totalRequests = 0\<rparr>"

text \<open>\<open>crc32.ChecksumIEEE\<close>, bit by bit with the reversed polynomial.\<close>

primrec crc_shift :: "nat \<Rightarrow> u32 \<Rightarrow> u32" where
  "crc_shift 0 c = c"
| "crc_shift (Suc n) c =
     crc_shift n (if c AND 1 = 1 then drop_bit 1 c XOR 0xEDB88320 else drop_bit 1 c)"

definition ChecksumIEEE :: "bytes \<Rightarrow> u32" where
  "ChecksumIEEE data = NOT (foldl (\<lambda>c b. crc_shift 8 (c XOR ucast b)) (NOT 0) data)"

text \<open>The threshold is 0.25 in IEEE 754.\<close>

definition DefaultConfig :: Config where
  "DefaultConfig = \<lparr>cfg_DefaultReplicas = 50, cfg_MinReplicas = 10, cfg_MaxReplicas = 200, cfg_HashFunc = ChecksumIEEE,
     cfg_LoadBalanceThreshold = 0x3FD0000000000000\<rparr>"

text \<open>\<open>New\<close> with the configurations of its \<open>WithConfig\<close> options.\<close>

definition ring_New :: "Config list \<Rightarrow> Map" where
  "ring_New opts = Map_New (fold (\<lambda>config _. config) opts DefaultConfig)"

text \<open>The decimal digits of \<open>%d\<close>.\<close>

fun dec :: "nat \<Rightarrow> string" where
  "dec n = (if n < 10 then [char_of (48 + n)] else dec (n div 10) @ [char_of (48 + n mod 10)])"

declare dec.simps [simp del]

text \<open>The hash of virtual node \<open>i\<close> of a node: \<open>HashFunc\<close> of \<open>Sprintf("%s-%d", node, i)\<close>.\<close>

definition vhash :: "Config \<Rightarrow> string \<Rightarrow> nat \<Rightarrow> int" where
  "vhash cfg node i = uint (cfg_HashFunc cfg (bytes_of_string (node @ ''-'' @ dec i)))"

primrec addNode_loop :: "string \<Rightarrow> nat list \<Rightarrow> Map \<Rightarrow> Map" where
  "addNode_loop node [] m = m"
| "addNode_loop node (i # is) m =
     (let hash = vhash (m_config m) node i
      in addNode_loop node is (m\<lparr>m_keys := m_keys m @ [hash], m_hashMap := AList.update hash node (m_hashMap m)\<rparr>))"

definition addNode :: "string \<Rightarrow> int \<Rightarrow> Map \<Rightarrow> Map" where
  "addNode node replicas m =
     (let m = addNode_loop node [0..<nat replicas] m
      in m\<lparr>m_nodeReplicas := AList.update node replicas (m_nodeReplicas m)\<rparr>)"

primrec add_nodes :: "string list \<Rightarrow> Map \<Rightarrow> Map" where
  "add_nodes [] m = m"
| "add_nodes (node # nodes) m =
     (if node = [] then add_nodes nodes m
      else add_nodes nodes (addNode node (cfg_DefaultReplicas (m_config m)) m))"

definition Map_Add :: "string list \<Rightarrow> Map \<Rightarrow> ring_error + Map" where
  "Map_Add nodes m =
     (if nodes = [] then Inl ErrNoNodes
      else let m = add_nodes nodes m in Inr (m\<lparr>m_keys := sort (m_keys m)\<rparr>))"

primrec removeNode_loop :: "string \<Rightarrow> nat list \<Rightarrow> Map \<Rightarrow> Map" where
  "removeNode_loop node [] m = m"
| "removeNode_loop node (i # is) m =
     (let hash = vhash (m_config m) node i
      in removeNode_loop node is
           (m\<lparr>m_hashMap := AList.delete hash (m_hashMap m), m_keys := remove1 hash (m_keys m)\<rparr>))"

definition removeNode :: "string \<Rightarrow> Map \<Rightarrow> ring_error + Map" where
  "removeNode node m =
     (let replicas = (case map_of (m_nodeReplicas m) node of Some r \<Rightarrow> r | None \<Rightarrow> 0) in
      if replicas = 0 then Inl ErrNodeNotFound
      else let m = removeNode_loop node [0..<nat replicas] m
           in Inr (m\<lparr>m_nodeReplicas := AList.delete node (m_nodeReplicas m),
                    m_nodeCounts := AList.delete node (m_nodeCounts m)\<rparr>))"

definition Map_Remove :: "string \<Rightarrow> Map \<Rightarrow> ring_error + Map" where
  "Map_Remove node m = (if node = [] then Inl ErrInvalidNode else removeNode node m)"

text \<open>\<open>sort.Search\<close>: the loop of the library.\<close>

function sort_Search :: "(nat \<Rightarrow> bool) \<Rightarrow> nat \<Rightarrow> nat \<Rightarrow> nat" where
  "sort_Search f i j =
     (if i < j then
        (let h = (i + j) div 2
         in if \<not> f h then sort_Search f (h + 1) j else sort_Search f i h)
      else i)"
  by pat_completeness auto

termination by (relation "measure (\<lambda>(f, i, j). j - i)") auto

declare sort_Search.simps [simp del]

definition ring_owner :: "string \<Rightarrow> Map \<Rightarrow> string" where
  "ring_owner key m =
     (let hash = uint (cfg_HashFunc (m_config m) (bytes_of_string key));
          idx = sort_Search (\<lambda>i. m_keys m ! i \<ge> hash) 0 (length (m_keys m));
          idx = (if idx = length (m_keys m) then 0 else idx)
      in case map_of (m_hashMap m) (m_keys m ! idx) of Some node \<Rightarrow> node | None \<Rightarrow> [])"

definition Map_Get :: "string \<Rightarrow> Map \<Rightarrow> string \<times> Map" where
  "Map_Get key m =
     (if key = [] then ([], m)
      else if m_keys m = [] then ([], m)
      else let node = ring_owner key m;
               val = (case map_of (m_nodeCounts m) node of Some v \<Rightarrow> v | None \<Rightarrow> 0)
           in (node, m\<lparr>m_nodeCounts := AList.update node (wrap64 (val + 1)) (m_nodeCounts m),
                      m_totalRequests := wrap64 (m_totalRequests m + 1)\<rparr>))"

text \<open>
  The balancer computes in \<open>float64\<close>. A float is its 64 bits and the IEEE operations are the
  fields of \<open>fl\<close>: the definitions apply them in the order of the code, and the results hold
  for every choice of them.
\<close>

record float_ops =
  f_of_int :: "int \<Rightarrow> u64"
  f_sub :: "u64 \<Rightarrow> u64 \<Rightarrow> u64"
  f_mul :: "u64 \<Rightarrow> u64 \<Rightarrow> u64"
  f_div :: "u64 \<Rightarrow> u64 \<Rightarrow> u64"
  f_abs :: "u64 \<Rightarrow> u64"
  f_less :: "u64 \<Rightarrow> u64 \<Rightarrow> bool"
  f_int :: "u64 \<Rightarrow> int"

definition clamp :: "Config \<Rightarrow> int \<Rightarrow> int" where
  "clamp cfg r =
     (let r = (if r < cfg_MinReplicas cfg then cfg_MinReplicas cfg else r)
      in if r > cfg_MaxReplicas cfg then cfg_MaxReplicas cfg else r)"

definition rebalance_node :: "float_ops \<Rightarrow> u64 \<Rightarrow> string \<Rightarrow> Map \<Rightarrow> Map" where
  "rebalance_node fl avgLoad node m =
     (case map_of (m_nodeCounts m) node of
        None \<Rightarrow> m
      | Some count \<Rightarrow>
          let currentReplicas = (case map_of (m_nodeReplicas m) node of Some r \<Rightarrow> r | None \<Rightarrow> 0);
              loadRatio = f_div fl (f_of_int fl count) avgLoad;
              newReplicas =
                (if f_less fl (f_of_int fl 1) loadRatio
                 then f_int fl (f_div fl (f_of_int fl currentReplicas) loadRatio)
                 else f_int fl (f_mul fl (f_of_int fl currentReplicas) (f_sub fl (f_of_int fl 2) loadRatio)));
              newReplicas = clamp (m_config m) newReplicas
          in if newReplicas \<noteq> currentReplicas then
               (case removeNode node m of Inl _ \<Rightarrow> m | Inr m \<Rightarrow> addNode node newReplicas m)
             else m)"

text \<open>\<open>ks\<close> is the order in which \<open>Range\<close> yields the nodes.\<close>

definition rebalanceNodes :: "float_ops \<Rightarrow> string list \<Rightarrow> Map \<Rightarrow> Map" where
  "rebalanceNodes fl ks m =
     (let nodeCount = length (m_nodeReplicas m) in
      if nodeCount = 0 then m
      else let avgLoad = f_div fl (f_of_int fl (m_totalRequests m)) (f_of_int fl (int nodeCount));
               m = fold (rebalance_node fl avgLoad) ks m
           in m\<lparr>m_nodeCounts := map (\<lambda>(k, _). (k, 0)) (m_nodeCounts m), m_totalRequests := 0,
                m_keys := sort (m_keys m)\<rparr>)"

definition max_diff :: "float_ops \<Rightarrow> u64 \<Rightarrow> int list \<Rightarrow> u64" where
  "max_diff fl avgLoad counts =
     fold (\<lambda>count maxDiff.
         let diff = f_abs fl (f_sub fl (f_of_int fl count) avgLoad)
         in if f_less fl maxDiff (f_div fl diff avgLoad) then f_div fl diff avgLoad else maxDiff)
       counts 0"

text \<open>
  \<open>checkAndRebalance\<close> reads the counters without the write lock that \<open>rebalanceNodes\<close> takes: other
  goroutines can change the ring in between. \<open>seen\<close> is the ring as the check saw it, \<open>m\<close> the ring when
  the lock is taken; a tick that runs alone has both equal. The goroutine of \<open>startBalancer\<close> makes
  one such tick a minute and never ends.
\<close>

definition unbalanced :: "float_ops \<Rightarrow> Map \<Rightarrow> bool" where
  "unbalanced fl m =
     (let tot = m_totalRequests m; nodeCount = length (m_nodeReplicas m) in
      if tot < 10000 then False
      else if nodeCount = 0 then False
      else let avgLoad = f_div fl (f_of_int fl tot) (f_of_int fl (int nodeCount));
               maxDiff = max_diff fl avgLoad (map snd (m_nodeCounts m))
           in f_less fl (cfg_LoadBalanceThreshold (m_config m)) maxDiff)"

definition checkAndRebalance :: "float_ops \<Rightarrow> string list \<Rightarrow> Map \<Rightarrow> Map \<Rightarrow> Map" where
  "checkAndRebalance fl ks seen m = (if unbalanced fl seen then rebalanceNodes fl ks m else m)"

text \<open>The ticks of the balancer, each with the ring its check saw.\<close>

primrec startBalancer :: "(float_ops \<times> string list \<times> Map) list \<Rightarrow> Map \<Rightarrow> Map" where
  "startBalancer [] m = m"
| "startBalancer (t # ticks) m =
     (case t of (fl, ks, seen) \<Rightarrow> startBalancer ticks (checkAndRebalance fl ks seen m))"

definition GetStats :: "float_ops \<Rightarrow> Map \<Rightarrow> (string, u64) gomap" where
  "GetStats fl m =
     (if m_totalRequests m = 0 then []
      else map (\<lambda>(node, count). (node, f_div fl (f_of_int fl count) (f_of_int fl (m_totalRequests m)))) (m_nodeCounts m))"

subsection \<open>Binary search\<close>

lemma sort_Search_bounds: "i \<le> j \<Longrightarrow> i \<le> sort_Search f i j \<and> sort_Search f i j \<le> j"
proof (induction f i j rule: sort_Search.induct)
  case (1 f i j)
  show ?case
  proof (cases "i < j")
    case True
    then have "i \<le> (i + j) div 2" "(i + j) div 2 < j" by auto
    with 1 True show ?thesis by (subst (1 2) sort_Search.simps) (auto simp: Let_def)
  qed (use 1(3) in \<open>simp add: sort_Search.simps\<close>)
qed

lemma sort_Search_least:
  assumes "i \<le> j" and "j \<le> n" and "\<And>a b. a \<le> b \<Longrightarrow> b < n \<Longrightarrow> f a \<Longrightarrow> f b"
    and "\<And>a. a < i \<Longrightarrow> \<not> f a" and "\<And>a. j \<le> a \<Longrightarrow> a < n \<Longrightarrow> f a"
  shows "(\<forall>a < sort_Search f i j. \<not> f a) \<and> (\<forall>a. sort_Search f i j \<le> a \<longrightarrow> a < n \<longrightarrow> f a)"
  using assms
proof (induction f i j rule: sort_Search.induct)
  case (1 f i j)
  let ?h = "(i + j) div 2"
  show ?case
  proof (cases "i < j")
    case False
    then show ?thesis using 1(3,6,7) by (simp add: sort_Search.simps)
  next
    case True
    have h: "?h < j" "?h < n" "i \<le> ?h" using True 1(4) by auto
    show ?thesis
    proof (cases "f ?h")
      case False
      have step: "sort_Search f i j = sort_Search f (?h + 1) j"
        using True False by (subst sort_Search.simps) (simp add: Let_def)
      have "\<not> f a" if "a < ?h + 1" for a using 1(5) [of a ?h] False that h by auto
      with 1(1) [OF True refl False _ 1(4) 1(5) _ 1(7)] h show ?thesis unfolding step by simp
    next
      case f: True
      have step: "sort_Search f i j = sort_Search f i ?h" using True f by (subst sort_Search.simps) (simp add: Let_def)
      have "f a" if "?h \<le> a" "a < n" for a using 1(5) [of ?h a] that f by blast
      with 1(2) [OF True refl _ _ _ 1(5) 1(6)] f h show ?thesis unfolding step by simp
    qed
  qed
qed

subsection \<open>The owner of a hash\<close>

text \<open>The first ring position at or after \<open>h\<close>, or the first one of all.\<close>

definition successor :: "int list \<Rightarrow> int \<Rightarrow> int" where
  "successor ks h = (case find (\<lambda>k. h \<le> k) ks of Some k \<Rightarrow> k | None \<Rightarrow> hd ks)"

lemma find_nth:
  assumes "n \<le> length ks" and "\<And>a. a < n \<Longrightarrow> \<not> P (ks ! a)" and "n < length ks \<Longrightarrow> P (ks ! n)"
  shows "find P ks = (if n < length ks then Some (ks ! n) else None)"
proof (cases "n < length ks")
  case True
  then show ?thesis using assms(2,3) by (auto simp: find_Some_iff)
next
  case False
  then show ?thesis using assms(1,2) by (auto simp: find_None_iff in_set_conv_nth)
qed

lemma search_successor:
  fixes h :: int
  assumes "sorted ks" and "ks \<noteq> []"
  defines "i \<equiv> sort_Search (\<lambda>i. h \<le> ks ! i) 0 (length ks)"
  shows "ks ! (if i = length ks then 0 else i) = successor ks h"
proof -
  have le: "i \<le> length ks" unfolding i_def using sort_Search_bounds [of 0 "length ks"] by simp
  have "(\<forall>a < i. \<not> h \<le> ks ! a) \<and> (\<forall>a. i \<le> a \<longrightarrow> a < length ks \<longrightarrow> h \<le> ks ! a)"
    unfolding i_def
  proof (rule sort_Search_least)
    fix a b
    assume "a \<le> b" "b < length ks" "h \<le> ks ! a"
    then show "h \<le> ks ! b" using sorted_nth_mono [OF assms(1)] by (meson order_trans)
  qed simp_all
  then have "find (\<lambda>k. h \<le> k) ks = (if i < length ks then Some (ks ! i) else None)" using le by (intro find_nth) auto
  with le assms(2) show ?thesis by (auto simp: successor_def hd_conv_nth)
qed

lemma successor_mem: "ks \<noteq> [] \<Longrightarrow> successor ks h \<in> set ks"
  by (auto simp: successor_def find_Some_iff split: option.split)

text \<open>Deleting other positions does not change the successor.\<close>

lemma find_filter_keep:
  "find Q ks = Some x \<Longrightarrow> P x \<Longrightarrow> find Q (filter P ks) = Some x"
  by (induction ks) (auto split: if_splits)

lemma successor_filter:
  assumes "ks \<noteq> []" and "P (successor ks h)"
  shows "successor (filter P ks) h = successor ks h"
proof (cases "find (\<lambda>k. h \<le> k) ks")
  case None
  then have "find (\<lambda>k. h \<le> k) (filter P ks) = None" by (auto simp: find_None_iff)
  moreover have "hd (filter P ks) = hd ks" using assms None by (cases ks) (auto simp: successor_def)
  ultimately show ?thesis using None by (simp add: successor_def)
next
  case (Some x)
  then show ?thesis using assms(2) find_filter_keep [OF Some, of P] by (simp add: successor_def)
qed

subsection \<open>The ring and the node set\<close>

text \<open>
  \<open>N\<close> is the universe of node names and \<open>R\<close> a bound on the number of virtual nodes; the
  hash function has no collision on them.
\<close>

definition no_collision :: "Config \<Rightarrow> string set \<Rightarrow> int \<Rightarrow> bool" where
  "no_collision cfg N R \<longleftrightarrow> inj_on (\<lambda>(n, i). vhash cfg n i) (N \<times> {..<nat R})"

definition config_ok :: "Config \<Rightarrow> int \<Rightarrow> bool" where
  "config_ok cfg R \<longleftrightarrow> 0 < cfg_DefaultReplicas cfg \<and> cfg_DefaultReplicas cfg \<le> R \<and>
     0 < cfg_MinReplicas cfg \<and> cfg_MinReplicas cfg \<le> cfg_MaxReplicas cfg \<and> cfg_MaxReplicas cfg \<le> R"

text \<open>The ring holds exactly the virtual nodes of the registered nodes.\<close>

definition ring_raw :: "string set \<Rightarrow> int \<Rightarrow> Map \<Rightarrow> bool" where
  "ring_raw N R m \<longleftrightarrow> no_collision (m_config m) N R \<and> config_ok (m_config m) R \<and>
     distinct (m_keys m) \<and> gomap_ok (m_hashMap m) \<and> gomap_ok (m_nodeReplicas m) \<and>
     set (m_keys m) = dom (map_of (m_hashMap m)) \<and>
     (\<forall>h n. map_of (m_hashMap m) h = Some n \<longleftrightarrow>
        (\<exists>r i. map_of (m_nodeReplicas m) n = Some r \<and> i < nat r \<and> h = vhash (m_config m) n i)) \<and>
     (\<forall>n r. map_of (m_nodeReplicas m) n = Some r \<longrightarrow> n \<in> N \<and> n \<noteq> [] \<and> 0 < r \<and> r \<le> R)"

definition ring_ok :: "string set \<Rightarrow> int \<Rightarrow> Map \<Rightarrow> bool" where
  "ring_ok N R m \<longleftrightarrow> ring_raw N R m \<and> sorted (m_keys m)"

lemma addNode_loop_effect:
  "m_keys (addNode_loop node is m) = m_keys m @ map (vhash (m_config m) node) is"
  "map_of (m_hashMap (addNode_loop node is m)) h =
     (if h \<in> vhash (m_config m) node ` set is then Some node else map_of (m_hashMap m) h)"
  "gomap_ok (m_hashMap m) \<Longrightarrow> gomap_ok (m_hashMap (addNode_loop node is m))"
  "m_config (addNode_loop node is m) = m_config m" "m_nodeReplicas (addNode_loop node is m) = m_nodeReplicas m"
  "m_nodeCounts (addNode_loop node is m) = m_nodeCounts m"
  by (induction "is" arbitrary: m) (auto simp: Let_def)

lemma removeNode_loop_effect:
  "distinct (m_keys m) \<Longrightarrow>
     m_keys (removeNode_loop node is m) = filter (\<lambda>h. h \<notin> vhash (m_config m) node ` set is) (m_keys m)"
  "map_of (m_hashMap (removeNode_loop node is m)) h =
     (if h \<in> vhash (m_config m) node ` set is then None else map_of (m_hashMap m) h)"
  "gomap_ok (m_hashMap m) \<Longrightarrow> gomap_ok (m_hashMap (removeNode_loop node is m))"
  "m_config (removeNode_loop node is m) = m_config m" "m_nodeReplicas (removeNode_loop node is m) = m_nodeReplicas m"
  "m_nodeCounts (removeNode_loop node is m) = m_nodeCounts m"
proof (induction "is" arbitrary: m)
  case (Cons i "is")
  {
    case 1
    then show ?case using Cons(1) [of "m\<lparr>m_hashMap := AList.delete (vhash (m_config m) node i) (m_hashMap m),
        m_keys := remove1 (vhash (m_config m) node i) (m_keys m)\<rparr>"]
      by (auto simp: Let_def remove1_filter intro!: filter_cong)
  }
qed (auto simp: Let_def)

lemma vhash_inj:
  assumes "no_collision cfg N R" and "n \<in> N" "n' \<in> N" and "i < nat r" "r \<le> R" and "j < nat r'" "r' \<le> R"
    and "vhash cfg n i = vhash cfg n' j"
  shows "n = n'" and "i = j"
proof -
  have "(n, i) \<in> N \<times> {..<nat R}" "(n', j) \<in> N \<times> {..<nat R}" using assms by auto
  from inj_onD [OF assms(1) [unfolded no_collision_def] _ this] assms(8) have "(n, i) = (n', j)" by simp
  then show "n = n'" "i = j" by simp_all
qed

lemma ring_rawD:
  assumes "ring_raw N R m"
  shows "no_collision (m_config m) N R" and "config_ok (m_config m) R" and "distinct (m_keys m)"
    and "gomap_ok (m_hashMap m)" and "gomap_ok (m_nodeReplicas m)" and "set (m_keys m) = dom (map_of (m_hashMap m))"
    and "\<And>h n. map_of (m_hashMap m) h = Some n \<longleftrightarrow>
        (\<exists>r i. map_of (m_nodeReplicas m) n = Some r \<and> i < nat r \<and> h = vhash (m_config m) n i)"
    and "\<And>n r. map_of (m_nodeReplicas m) n = Some r \<Longrightarrow> n \<in> N \<and> n \<noteq> [] \<and> 0 < r \<and> r \<le> R"
  using assms unfolding ring_raw_def by blast+

lemma vhash_other:
  assumes "ring_raw N R m" and "map_of (m_hashMap m) h = Some n" and "node \<in> N" and "r \<le> R" and "node \<noteq> n"
  shows "h \<notin> vhash (m_config m) node ` {0..<nat r}"
proof
  assume "h \<in> vhash (m_config m) node ` {0..<nat r}"
  then obtain j where j: "j < nat r" "h = vhash (m_config m) node j" by auto
  obtain r' i where i: "map_of (m_nodeReplicas m) n = Some r'" "i < nat r'" "h = vhash (m_config m) n i"
    using ring_rawD(7) [OF assms(1)] assms(2) by blast
  have n: "n \<in> N" "r' \<le> R" using ring_rawD(8) [OF assms(1) i(1)] by simp_all
  have "node = n"
    by (rule vhash_inj(1) [OF ring_rawD(1) [OF assms(1)] assms(3) n(1) j(1) assms(4) i(2) n(2)]) (use i j in simp)
  with assms(5) show False ..
qed

lemma addNode_raw:
  assumes "ring_raw N R m" and "map_of (m_nodeReplicas m) node = None" and "node \<in> N" "node \<noteq> []" and "0 < r" "r \<le> R"
  shows "ring_raw N R (addNode node r m)"
proof -
  let ?v = "vhash (m_config m) node ` {0..<nat r}"
  have nc: "no_collision (m_config m) N R" using assms(1) by (simp add: ring_raw_def)
  have inj: "inj_on (vhash (m_config m) node) {0..<nat r}"
    using vhash_inj(2) [OF nc assms(3,3) _ assms(6) _ assms(6)] by (auto intro: inj_onI)
  have new: "node \<noteq> n" if "map_of (m_hashMap m) h = Some n" for h n
    using ring_rawD(7) [OF assms(1)] that assms(2) by force
  have keys: "m_keys (addNode node r m) = m_keys m @ map (vhash (m_config m) node) [0..<nat r]"
    and hm: "\<And>h. map_of (m_hashMap (addNode node r m)) h = (if h \<in> ?v then Some node else map_of (m_hashMap m) h)"
    and cfg: "m_config (addNode node r m) = m_config m"
    and reps: "map_of (m_nodeReplicas (addNode node r m)) = (map_of (m_nodeReplicas m))(node \<mapsto> r)"
    by (simp_all add: addNode_def Let_def addNode_loop_effect)
  have disj: "h \<notin> set (m_keys m)" if "h \<in> ?v" for h
  proof
    assume "h \<in> set (m_keys m)"
    then obtain n where n: "map_of (m_hashMap m) h = Some n" using ring_rawD(6) [OF assms(1)] by blast
    from vhash_other [OF assms(1) n assms(3,6) new [OF n]] that show False by blast
  qed
  have "map_of (m_hashMap (addNode node r m)) h = Some n \<longleftrightarrow>
      (\<exists>r' i. map_of (m_nodeReplicas (addNode node r m)) n = Some r' \<and> i < nat r' \<and> h = vhash (m_config m) n i)" for h n
  proof (cases "n = node")
    case True
    have "map_of (m_hashMap m) h \<noteq> Some node" using new by blast
    with True show ?thesis unfolding hm reps by auto
  next
    case False
    have "h \<notin> ?v" if "map_of (m_hashMap m) h = Some n" using vhash_other [OF assms(1) that assms(3,6)] False by blast
    with False show ?thesis using ring_rawD(7) [OF assms(1), of h n] unfolding hm reps by auto
  qed
  moreover have "set (m_keys (addNode node r m)) = dom (map_of (m_hashMap (addNode node r m)))"
    using ring_rawD(6) [OF assms(1)] unfolding keys hm [abs_def] by (auto split: if_splits)
  moreover have "distinct (m_keys (addNode node r m))"
    using ring_rawD(3) [OF assms(1)] inj disj unfolding keys by (auto simp: distinct_map)
  moreover have "gomap_ok (m_hashMap (addNode node r m))" "gomap_ok (m_nodeReplicas (addNode node r m))"
    using ring_rawD(4,5) [OF assms(1)] by (simp_all add: addNode_def Let_def addNode_loop_effect)
  moreover have "n \<in> N \<and> n \<noteq> [] \<and> 0 < r' \<and> r' \<le> R" if "map_of (m_nodeReplicas (addNode node r m)) n = Some r'" for n r'
    using ring_rawD(8) [OF assms(1), of n r'] that assms(3-6) unfolding reps by (auto split: if_splits)
  ultimately show ?thesis using ring_rawD(1,2) [OF assms(1)] unfolding ring_raw_def cfg by blast
qed

lemma removeNode_raw:
  assumes "ring_raw N R m" and "removeNode node m = Inr m'"
  shows "ring_raw N R m'"
    and "m_keys m' = filter (\<lambda>h. map_of (m_hashMap m) h \<noteq> Some node) (m_keys m)"
    and "\<And>h. map_of (m_hashMap m') h = (if map_of (m_hashMap m) h = Some node then None else map_of (m_hashMap m) h)"
    and "m_config m' = m_config m" and "map_of (m_nodeReplicas m') node = None"
    and "node \<in> N" and "node \<noteq> []"
proof -
  note m = ring_rawD [OF assms(1)]
  obtain r where r: "map_of (m_nodeReplicas m) node = Some r"
    and m': "m' = (removeNode_loop node [0..<nat r] m)
        \<lparr>m_nodeReplicas := AList.delete node (m_nodeReplicas m), m_nodeCounts := AList.delete node (m_nodeCounts m)\<rparr>"
    using assms(2) by (auto simp: removeNode_def Let_def removeNode_loop_effect split: option.splits if_splits)
  let ?v = "vhash (m_config m) node ` {0..<nat r}"
  have mine: "h \<in> ?v \<longleftrightarrow> map_of (m_hashMap m) h = Some node" for h
    using m(7) [of h node] r by auto
  show keys: "m_keys m' = filter (\<lambda>h. map_of (m_hashMap m) h \<noteq> Some node) (m_keys m)"
    using m(3) by (simp add: m' removeNode_loop_effect mine)
  show hm: "\<And>h. map_of (m_hashMap m') h = (if map_of (m_hashMap m) h = Some node then None else map_of (m_hashMap m) h)"
    by (simp add: m' removeNode_loop_effect mine)
  show cfg: "m_config m' = m_config m" and gone: "map_of (m_nodeReplicas m') node = None"
    by (simp_all add: m' removeNode_loop_effect)
  show "node \<in> N" "node \<noteq> []" using m(8) [OF r] by simp_all
  have reps: "map_of (m_nodeReplicas m') = (map_of (m_nodeReplicas m))(node := None)" by (simp add: m' removeNode_loop_effect)
  have "map_of (m_hashMap m') h = Some n \<longleftrightarrow>
      (\<exists>r i. map_of (m_nodeReplicas m') n = Some r \<and> i < nat r \<and> h = vhash (m_config m) n i)" for h n
    using m(7) [of h n] unfolding hm reps by auto
  moreover have "set (m_keys m') = dom (map_of (m_hashMap m'))" using m(6) unfolding keys hm [abs_def] by auto
  moreover have "gomap_ok (m_hashMap m')" "gomap_ok (m_nodeReplicas m')" using m(4,5) by (simp_all add: m' removeNode_loop_effect)
  moreover have "distinct (m_keys m')" using m(3) unfolding keys by simp
  moreover have "n \<in> N \<and> n \<noteq> [] \<and> 0 < r \<and> r \<le> R" if "map_of (m_nodeReplicas m') n = Some r" for n r
    using m(8) [of n r] that unfolding reps by (auto split: if_splits)
  ultimately show "ring_raw N R m'" using m(1,2) by (simp add: ring_raw_def cfg)
qed

lemma add_nodes_raw:
  assumes "ring_raw N R m" and "distinct nodes" and "set nodes \<subseteq> N" and "\<forall>n \<in> set nodes. map_of (m_nodeReplicas m) n = None"
  shows "ring_raw N R (add_nodes nodes m)"
  using assms
proof (induction nodes arbitrary: m)
  case (Cons n nodes)
  let ?m = "addNode n (cfg_DefaultReplicas (m_config m)) m"
  have "ring_raw N R ?m" if "n \<noteq> []"
    using Cons.prems that ring_rawD(2) [OF Cons.prems(1)] by (intro addNode_raw) (auto simp: config_ok_def)
  moreover have "map_of (m_nodeReplicas ?m) n' = None" if "n' \<in> set nodes" for n'
    using Cons.prems that by (auto simp: addNode_def Let_def addNode_loop_effect)
  ultimately show ?case using Cons.IH [of m] Cons.IH [of ?m] Cons.prems by simp
qed simp

lemma sort_raw: "ring_raw N R m \<Longrightarrow> ring_ok N R (m\<lparr>m_keys := sort (m_keys m)\<rparr>)"
  by (simp add: ring_ok_def ring_raw_def)

lemma clamp_ok: "config_ok cfg R \<Longrightarrow> 0 < clamp cfg r \<and> clamp cfg r \<le> R"
  by (auto simp: clamp_def config_ok_def Let_def)

lemma clamp_range:
  "config_ok cfg R \<Longrightarrow> cfg_MinReplicas cfg \<le> clamp cfg r \<and> clamp cfg r \<le> cfg_MaxReplicas cfg"
  by (auto simp: clamp_def config_ok_def Let_def)

lemma rebalance_node_raw: "ring_raw N R m \<Longrightarrow> ring_raw N R (rebalance_node fl avgLoad node m)"
proof -
  assume m: "ring_raw N R m"
  have "ring_raw N R (addNode node (clamp (m_config m) x) m')" if "removeNode node m = Inr m'" for x m'
    using removeNode_raw [OF m that] clamp_ok [OF ring_rawD(2) [OF m]] by (intro addNode_raw) auto
  then show ?thesis using m by (auto simp: rebalance_node_def Let_def split: option.split sum.split)
qed

lemma fold_rebalance_raw: "ring_raw N R m \<Longrightarrow> ring_raw N R (fold (rebalance_node fl avgLoad) ks m)"
  by (induction ks arbitrary: m) (simp_all add: rebalance_node_raw)

text \<open>What the balancer keeps: the configuration, the node set, and bounds on what it changes.\<close>

definition balanced_from :: "Map \<Rightarrow> Map \<Rightarrow> bool" where
  "balanced_from m m' \<longleftrightarrow> m_config m' = m_config m \<and>
     (\<forall>n. map_of (m_nodeReplicas m') n = None \<longleftrightarrow> map_of (m_nodeReplicas m) n = None) \<and>
     (\<forall>n r. map_of (m_nodeReplicas m') n = Some r \<longrightarrow>
        map_of (m_nodeReplicas m) n = Some r \<or> cfg_MinReplicas (m_config m) \<le> r \<and> r \<le> cfg_MaxReplicas (m_config m))"

lemma balanced_refl: "balanced_from m m"
  by (simp add: balanced_from_def)

lemma balanced_trans: "balanced_from a b \<Longrightarrow> balanced_from b c \<Longrightarrow> balanced_from a c"
  unfolding balanced_from_def by metis

lemma rebalance_node_from:
  assumes "config_ok (m_config m) R"
  shows "balanced_from m (rebalance_node fl avgLoad node m)"
proof -
  have "balanced_from m (addNode node (clamp (m_config m) x) m')" if "removeNode node m = Inr m'" for x m'
  proof -
    have m': "m_config m' = m_config m" "map_of (m_nodeReplicas m') = (map_of (m_nodeReplicas m))(node := None)"
      and some: "map_of (m_nodeReplicas m) node \<noteq> None"
      using that by (auto simp: removeNode_def Let_def removeNode_loop_effect split: option.splits if_splits)
    have "map_of (m_nodeReplicas (addNode node q m')) = (map_of (m_nodeReplicas m))(node \<mapsto> q)" for q
      by (simp add: addNode_def Let_def addNode_loop_effect m')
    then show ?thesis using some clamp_range [OF assms, of x] m'(1)
      by (auto simp: balanced_from_def) (simp_all add: addNode_def Let_def addNode_loop_effect)
  qed
  then show ?thesis by (auto simp: rebalance_node_def Let_def balanced_refl split: option.split sum.split)
qed

lemma fold_rebalance_from:
  "config_ok (m_config m) R \<Longrightarrow> balanced_from m (fold (rebalance_node fl avgLoad) ks m)"
proof (induction ks arbitrary: m)
  case (Cons node ks)
  let ?m = "rebalance_node fl avgLoad node m"
  have 1: "balanced_from m ?m" using Cons.prems by (rule rebalance_node_from)
  then have "config_ok (m_config ?m) R" using Cons.prems by (simp add: balanced_from_def)
  from balanced_trans [OF 1 Cons.IH [OF this]] show ?case by simp
qed (simp add: balanced_refl)

lemma rebalance_from: "config_ok (m_config m) R \<Longrightarrow> balanced_from m (rebalanceNodes fl ks m)"
  using fold_rebalance_from [of m R fl _ ks] by (simp add: rebalanceNodes_def Let_def balanced_refl) (simp add: balanced_from_def)

lemma ring_raw_counts: "ring_raw N R (m\<lparr>m_nodeCounts := x, m_totalRequests := y\<rparr>) = ring_raw N R m"
  by (simp add: ring_raw_def)

lemma rebalance_ok: "ring_ok N R m \<Longrightarrow> ring_ok N R (rebalanceNodes fl ks m)"
  using fold_rebalance_raw [of N R m fl _ ks]
  by (simp add: rebalanceNodes_def Let_def ring_ok_def) (simp add: ring_raw_def)

lemma Get_ok: "ring_ok N R m \<Longrightarrow> ring_ok N R (snd (Map_Get k m))"
  by (simp add: Map_Get_def Let_def ring_ok_def ring_raw_counts)

text \<open>The owner on a well-formed ring is the node of the successor position.\<close>

lemma owner_successor:
  assumes "ring_ok N R m" and "m_keys m \<noteq> []"
  shows "map_of (m_hashMap m) (successor (m_keys m) (uint (cfg_HashFunc (m_config m) (bytes_of_string key)))) = Some (ring_owner key m)"
proof -
  let ?h = "uint (cfg_HashFunc (m_config m) (bytes_of_string key))"
  have s: "sorted (m_keys m)" and r: "ring_raw N R m" using assms(1) by (simp_all add: ring_ok_def)
  have "successor (m_keys m) ?h \<in> dom (map_of (m_hashMap m))"
    using successor_mem [OF assms(2)] ring_rawD(6) [OF r] by blast
  then obtain n where "map_of (m_hashMap m) (successor (m_keys m) ?h) = Some n" by blast
  then show ?thesis using search_successor [OF s assms(2), of ?h] by (simp add: ring_owner_def Let_def)
qed

text \<open>Restricting the ring to the positions of other nodes keeps the owner of a key that is another node.\<close>

lemma owner_restrict:
  assumes "ring_ok N R m" and "ring_ok N R m'" and "m_keys m \<noteq> []" and "m_config m' = m_config m"
    and "m_keys m' = filter (\<lambda>h. map_of (m_hashMap m) h \<noteq> Some node) (m_keys m)"
    and "\<And>h. map_of (m_hashMap m') h = (if map_of (m_hashMap m) h = Some node then None else map_of (m_hashMap m) h)"
    and "ring_owner key m \<noteq> node"
  shows "m_keys m' \<noteq> []" and "ring_owner key m' = ring_owner key m"
proof -
  let ?h = "uint (cfg_HashFunc (m_config m) (bytes_of_string key))"
  note o = owner_successor [OF assms(1,3), of key]
  have succ: "successor (m_keys m') ?h = successor (m_keys m) ?h"
    unfolding assms(5) by (rule successor_filter) (use assms(3,7) o in auto)
  have "successor (m_keys m) ?h \<in> set (m_keys m')"
    using successor_mem [OF assms(3), of ?h] o assms(7) by (simp add: assms(5))
  then show ne: "m_keys m' \<noteq> []" by auto
  show "ring_owner key m' = ring_owner key m"
    using owner_successor [OF assms(2) ne, of key] o assms(7) unfolding assms(4) succ assms(6) by simp
qed

text \<open>Two rings over the same configuration that differ in one node agree on the keys of the others.\<close>

lemma owner_without:
  assumes "ring_ok N R m" and "ring_ok N R m'" and "m_keys m \<noteq> []" and "m_config m' = m_config m"
    and "map_of (m_nodeReplicas m') = (map_of (m_nodeReplicas m))(node := None)" and "ring_owner key m \<noteq> node"
  shows "m_keys m' \<noteq> []" and "ring_owner key m' = ring_owner key m"
proof -
  have r: "ring_raw N R m" "ring_raw N R m'" and s: "sorted (m_keys m)" "sorted (m_keys m')"
    using assms(1,2) by (simp_all add: ring_ok_def)
  have iff: "map_of (m_hashMap m') h = Some n \<longleftrightarrow> n \<noteq> node \<and> map_of (m_hashMap m) h = Some n" for h n
    unfolding ring_rawD(7) [OF r(1)] ring_rawD(7) [OF r(2)] assms(4,5) by auto
  have hm: "map_of (m_hashMap m') h = (if map_of (m_hashMap m) h = Some node then None else map_of (m_hashMap m) h)" for h
    using iff [of h "the (map_of (m_hashMap m) h)"] iff [of h "the (map_of (m_hashMap m') h)"]
    by (cases "map_of (m_hashMap m') h"; cases "map_of (m_hashMap m) h") auto
  have "set (m_keys m') = {h \<in> set (m_keys m). map_of (m_hashMap m) h \<noteq> Some node}"
    unfolding ring_rawD(6) [OF r(1)] ring_rawD(6) [OF r(2)] by (auto simp: dom_def hm)
  then have "m_keys m' = filter (\<lambda>h. map_of (m_hashMap m) h \<noteq> Some node) (m_keys m)"
    using s ring_rawD(3) [OF r(1)] ring_rawD(3) [OF r(2)]
    by (intro sorted_distinct_set_unique) (simp_all add: sorted_wrt_filter)
  from owner_restrict [OF assms(1-4) this hm assms(6)]
  show "m_keys m' \<noteq> []" "ring_owner key m' = ring_owner key m" .
qed

lemma successor_least:
  assumes "sorted ks" and "ks \<noteq> []"
  shows "(h \<le> successor ks h \<and> (\<forall>q \<in> set ks. h \<le> q \<longrightarrow> successor ks h \<le> q)) \<or>
    ((\<forall>q \<in> set ks. q < h) \<and> (\<forall>q \<in> set ks. successor ks h \<le> q))"
  using assms
proof (induction ks)
  case (Cons k ks)
  show ?case
  proof (cases "h \<le> k")
    case True
    with Cons.prems show ?thesis by (auto simp: successor_def)
  next
    case False
    show ?thesis
    proof (cases "find (\<lambda>k. h \<le> k) ks")
      case None
      then have "successor (k # ks) h = k" using False by (simp add: successor_def)
      moreover have "\<forall>q \<in> set ks. q < h" using None by (auto simp: find_None_iff not_le)
      ultimately show ?thesis using False Cons.prems by auto
    next
      case (Some p)
      have ne: "ks \<noteq> []" using Some by auto
      have "h \<le> p" using Some by (auto simp: find_Some_iff)
      then have s: "successor (k # ks) h = successor ks h" "h \<le> successor ks h"
        using False Some by (simp_all add: successor_def)
      from Cons.IH [OF _ ne] Cons.prems s show ?thesis using successor_mem [OF ne, of h] False by auto
    qed
  qed
qed simp

lemma Map_New_ok: "no_collision cfg N R \<Longrightarrow> config_ok cfg R \<Longrightarrow> ring_ok N R (Map_New cfg)"
  by (simp add: Map_New_def ring_ok_def ring_raw_def)

lemma DefaultConfig_ok: "config_ok DefaultConfig 200"
  by (simp add: config_ok_def DefaultConfig_def)

subsection \<open>A small ring\<close>

definition demo_cfg :: Config where
  "demo_cfg = \<lparr>cfg_DefaultReplicas = 2, cfg_MinReplicas = 1, cfg_MaxReplicas = 2,
     cfg_HashFunc = (\<lambda>bs. foldl (\<lambda>h b. h * 31 + ucast b) 7 bs), cfg_LoadBalanceThreshold = 0\<rparr>"

definition demo_ring :: Map where
  "demo_ring = (case Map_Add [''a'', ''b''] (Map_New demo_cfg) of Inr m \<Rightarrow> m | Inl _ \<Rightarrow> Map_New demo_cfg)"

lemma demo_no_collision: "no_collision demo_cfg {''a'', ''b'', ''c''} 2"
proof -
  let ?xs = "[(''a'', 0), (''a'', 1), (''b'', 0), (''b'', 1), (''c'', 0), (''c'', 1)]"
  have "distinct (map (\<lambda>(n, i). vhash demo_cfg n i) ?xs)" by code_simp
  moreover have "{''a'', ''b'', ''c''} \<times> {..<nat 2} = set ?xs"
    by (auto simp: numeral_2_eq_2 less_Suc_eq)
  ultimately show ?thesis unfolding no_collision_def by (simp only: distinct_map)
qed

lemma demo_config_ok: "config_ok demo_cfg 2"
  by (simp add: config_ok_def demo_cfg_def)

lemma demo_ring_ok: "ring_ok {''a'', ''b'', ''c''} 2 demo_ring"
proof -
  let ?m = "Map_New demo_cfg"
  have "ring_raw {''a'', ''b'', ''c''} 2 (add_nodes [''a'', ''b''] ?m)"
    using Map_New_ok [OF demo_no_collision demo_config_ok]
    by (intro add_nodes_raw) (auto simp: ring_ok_def, simp_all add: Map_New_def)
  from sort_raw [OF this] show ?thesis by (simp add: demo_ring_def Map_Add_def Let_def del: add_nodes.simps)
qed

subsection \<open>Properties\<close>

text \<open>
  C12: lookup by binary search. On a well-formed, non-empty ring \<open>Get\<close> of a non-empty key
  returns a registered node: the one whose virtual node is the first at or after the hash of
  the key, or the first of the ring when there is none.
\<close>

theorem ring_get_is_successor:
  assumes "ring_ok N R m" and "m_keys m \<noteq> []" and "key \<noteq> []"
  shows "\<exists>p \<in> set (m_keys m). map_of (m_hashMap m) p = Some (fst (Map_Get key m)) \<and>
    map_of (m_nodeReplicas m) (fst (Map_Get key m)) \<noteq> None \<and>
    (let h = uint (cfg_HashFunc (m_config m) (bytes_of_string key)) in
      (h \<le> p \<and> (\<forall>q \<in> set (m_keys m). h \<le> q \<longrightarrow> p \<le> q)) \<or>
      ((\<forall>q \<in> set (m_keys m). q < h) \<and> (\<forall>q \<in> set (m_keys m). p \<le> q)))"
proof -
  let ?h = "uint (cfg_HashFunc (m_config m) (bytes_of_string key))"
  let ?p = "successor (m_keys m) ?h"
  have r: "ring_raw N R m" and s: "sorted (m_keys m)" using assms(1) by (simp_all add: ring_ok_def)
  have get: "fst (Map_Get key m) = ring_owner key m" using assms(2,3) by (simp add: Map_Get_def Let_def)
  have o: "map_of (m_hashMap m) ?p = Some (ring_owner key m)" using owner_successor [OF assms(1,2)] .
  then have "map_of (m_nodeReplicas m) (ring_owner key m) \<noteq> None" using ring_rawD(7) [OF r] by blast
  with o get successor_mem [OF assms(2), of ?h] successor_least [OF s assms(2), of ?h] show ?thesis
    by (intro bexI [of _ ?p]) (simp_all add: Let_def)
qed

theorem ring_get_is_successor_witness:
  "\<exists>p \<in> set (m_keys demo_ring). map_of (m_hashMap demo_ring) p = Some (fst (Map_Get ''key'' demo_ring))"
proof -
  have "m_keys demo_ring \<noteq> []" by code_simp
  from ring_get_is_successor [OF demo_ring_ok this, of "''key''"] show ?thesis by blast
qed

text \<open>
  C25: removing a node is local. \<open>Remove\<close> of a registered node keeps the ring well formed, and
  every key that another node owned keeps its owner: only the keys of the removed node move.
\<close>

theorem ring_remove_moves_only_own_keys:
  assumes "ring_ok N R m" and "Map_Remove node m = Inr m'" and "key \<noteq> []"
  shows "ring_ok N R m' \<and> map_of (m_nodeReplicas m') node = None \<and>
    (m_keys m \<noteq> [] \<longrightarrow> fst (Map_Get key m) \<noteq> node \<longrightarrow> fst (Map_Get key m') = fst (Map_Get key m))"
proof -
  have r: "ring_raw N R m" and s: "sorted (m_keys m)" using assms(1) by (simp_all add: ring_ok_def)
  have rem: "removeNode node m = Inr m'" using assms(2) by (simp add: Map_Remove_def split: if_splits)
  note m' = removeNode_raw [OF r rem]
  have ok: "ring_ok N R m'" using m'(1) s by (simp add: ring_ok_def m'(2) sorted_wrt_filter)
  have "fst (Map_Get key m') = fst (Map_Get key m)" if "m_keys m \<noteq> []" "fst (Map_Get key m) \<noteq> node"
  proof -
    have "ring_owner key m \<noteq> node" using that assms(3) by (simp add: Map_Get_def Let_def)
    from owner_restrict [OF assms(1) ok that(1) m'(4,2,3) this] that assms(3) show ?thesis
      by (simp add: Map_Get_def Let_def)
  qed
  with ok m'(5) show ?thesis by blast
qed

theorem ring_remove_moves_only_own_keys_witness:
  "\<exists>m'. Map_Remove ''a'' demo_ring = Inr m' \<and> ring_ok {''a'', ''b'', ''c''} 2 m' \<and>
    (fst (Map_Get ''key'' demo_ring) = ''a'' \<or> fst (Map_Get ''key'' m') = fst (Map_Get ''key'' demo_ring))"
proof -
  have ne: "m_keys demo_ring \<noteq> []" by code_simp
  have "map_of (m_nodeReplicas demo_ring) ''a'' = Some 2" by code_simp
  then obtain m' where m': "Map_Remove ''a'' demo_ring = Inr m'"
    by (simp add: Map_Remove_def removeNode_def Let_def)
  from ring_remove_moves_only_own_keys [OF demo_ring_ok m', of "''key''"] m' ne show ?thesis by blast
qed

text \<open>The ring before an \<open>Add\<close> is the ring after it without the positions of the added node.\<close>

lemma add_restrict:
  assumes "ring_ok N R m" and "map_of (m_nodeReplicas m) node = None" and "ring_raw N R (addNode node r m)"
  defines "m' \<equiv> (addNode node r m)\<lparr>m_keys := sort (m_keys (addNode node r m))\<rparr>"
  shows "m_keys m = filter (\<lambda>h. map_of (m_hashMap m') h \<noteq> Some node) (m_keys m')"
    and "map_of (m_hashMap m) h = (if map_of (m_hashMap m') h = Some node then None else map_of (m_hashMap m') h)"
    and "m_config m = m_config m'"
proof -
  have r: "ring_raw N R m" and s: "sorted (m_keys m)" using assms(1) by (simp_all add: ring_ok_def)
  let ?v = "vhash (m_config m) node ` {0..<nat r}"
  have hm: "map_of (m_hashMap m') h = (if h \<in> ?v then Some node else map_of (m_hashMap m) h)" for h
    by (simp add: m'_def addNode_def Let_def addNode_loop_effect)
  have new: "map_of (m_hashMap m) h \<noteq> Some node" for h using ring_rawD(7) [OF r] assms(2) by simp
  have disj: "h \<notin> set (m_keys m)" if "h \<in> ?v" for h
    using ring_rawD(3) [OF assms(3)] that by (auto simp: addNode_def Let_def addNode_loop_effect)
  have "filter (\<lambda>h. map_of (m_hashMap m') h \<noteq> Some node) (m_keys (addNode node r m)) = m_keys m"
    unfolding hm using new disj by (auto simp: addNode_def Let_def addNode_loop_effect filter_id_conv)
  then show "m_keys m = filter (\<lambda>h. map_of (m_hashMap m') h \<noteq> Some node) (m_keys m')"
    using s by (simp add: m'_def filter_sort sorted_sort_id)
  show "map_of (m_hashMap m) h = (if map_of (m_hashMap m') h = Some node then None else map_of (m_hashMap m') h)"
  proof (cases "h \<in> ?v")
    case True
    then have "map_of (m_hashMap m) h = None" using disj ring_rawD(6) [OF r] by blast
    with True show ?thesis unfolding hm by simp
  next
    case False
    then show ?thesis unfolding hm using new [of h] by simp
  qed
  show "m_config m = m_config m'" by (simp add: m'_def addNode_def Let_def addNode_loop_effect)
qed

text \<open>
  C26: adding a node is local as well. \<open>Add\<close> of a new node keeps the ring well formed, gives the node
  the default number of virtual nodes, and a key either keeps its owner or moves to the added node.
\<close>

theorem ring_add_moves_only_to_new_node:
  assumes "ring_ok N R m" and "map_of (m_nodeReplicas m) node = None" and "node \<in> N" "node \<noteq> []" and "key \<noteq> []"
  shows "\<exists>m'. Map_Add [node] m = Inr m' \<and> ring_ok N R m' \<and>
    map_of (m_nodeReplicas m') node = Some (cfg_DefaultReplicas (m_config m)) \<and>
    (fst (Map_Get key m') = node \<or> fst (Map_Get key m') = fst (Map_Get key m))"
proof -
  have r: "ring_raw N R m" using assms(1) by (simp add: ring_ok_def)
  let ?r = "cfg_DefaultReplicas (m_config m)"
  let ?a = "addNode node ?r m"
  let ?m = "?a\<lparr>m_keys := sort (m_keys ?a)\<rparr>"
  have rr: "0 < ?r" "?r \<le> R" using ring_rawD(2) [OF r] by (simp_all add: config_ok_def)
  have raw: "ring_raw N R ?a" using r assms(2,3,4) rr by (rule addNode_raw)
  have ok: "ring_ok N R ?m" using raw by (rule sort_raw)
  note old = add_restrict [OF assms(1,2) raw]
  have "set (m_keys ?m) \<noteq> {}" using rr(1) by (simp add: addNode_def Let_def addNode_loop_effect)
  then have ne: "m_keys ?m \<noteq> []" by (simp only: set_empty not_False_eq_True)
  have "fst (Map_Get key ?m) = fst (Map_Get key m)" if "fst (Map_Get key ?m) \<noteq> node"
  proof -
    have "ring_owner key ?m \<noteq> node" using that assms(5) ne by (simp add: Map_Get_def Let_def)
    note w = owner_restrict [OF ok assms(1) ne old(3,1,2) this]
    from w(1) show ?thesis using w(2) assms(5) ne by (simp add: Map_Get_def Let_def)
  qed
  moreover have "Map_Add [node] m = Inr ?m" using assms(4) by (simp add: Map_Add_def Let_def)
  moreover have "map_of (m_nodeReplicas ?m) node = Some ?r" by (simp add: addNode_def Let_def)
  ultimately show ?thesis using ok by blast
qed

theorem ring_add_moves_only_to_new_node_witness:
  "\<exists>m'. Map_Add [''c''] demo_ring = Inr m' \<and> ring_ok {''a'', ''b'', ''c''} 2 m' \<and>
    (fst (Map_Get ''key'' m') = ''c'' \<or> fst (Map_Get ''key'' m') = fst (Map_Get ''key'' demo_ring))"
proof -
  have "map_of (m_nodeReplicas demo_ring) ''c'' = None" by code_simp
  from ring_add_moves_only_to_new_node [OF demo_ring_ok this, of "''key''"] show ?thesis by auto
qed

lemma checkAndRebalance_safe:
  assumes "ring_ok N R m"
  shows "ring_ok N R (checkAndRebalance fl ks seen m)" and "balanced_from m (checkAndRebalance fl ks seen m)"
  using rebalance_ok [OF assms] rebalance_from [of m R] ring_rawD(2) [of N R m] assms
  by (simp_all add: checkAndRebalance_def balanced_refl ring_ok_def)

lemma startBalancer_safe:
  "ring_ok N R m \<Longrightarrow> ring_ok N R (startBalancer ticks m) \<and> balanced_from m (startBalancer ticks m)"
proof (induction ticks arbitrary: m)
  case (Cons t ticks)
  obtain fl ks seen where t: "t = (fl, ks, seen)" by (cases t)
  note one = checkAndRebalance_safe [OF Cons.prems, of fl ks seen]
  from Cons.IH [OF one(1)] balanced_trans [OF one(2)] show ?case by (simp add: t)
qed (simp add: balanced_refl)

text \<open>
  C27: the balancer is safe. Whatever the floating-point operations answer, in whatever order the
  nodes are visited and however stale the counters are on which a tick decides, any number of
  ticks of \<open>checkAndRebalance\<close> keeps the ring well formed and the set of nodes, and gives a node
  whose number of virtual nodes it changes one between the configured minimum and maximum.
\<close>

theorem ring_rebalance_safe:
  assumes "ring_ok N R m"
  shows "ring_ok N R (startBalancer ticks m) \<and>
    (\<forall>n. map_of (m_nodeReplicas (startBalancer ticks m)) n = None \<longleftrightarrow> map_of (m_nodeReplicas m) n = None) \<and>
    (\<forall>n r. map_of (m_nodeReplicas (startBalancer ticks m)) n = Some r \<longrightarrow>
       map_of (m_nodeReplicas m) n = Some r \<or> cfg_MinReplicas (m_config m) \<le> r \<and> r \<le> cfg_MaxReplicas (m_config m))"
  using startBalancer_safe [OF assms, of ticks] unfolding balanced_from_def by blast

definition demo_float :: float_ops where
  "demo_float = \<lparr>f_of_int = word_of_int, f_sub = (-), f_mul = (*), f_div = (\<lambda>a b. a div b), f_abs = id, f_less = (<),
     f_int = uint\<rparr>"

definition busy_ring :: Map where
  "busy_ring = demo_ring\<lparr>m_nodeCounts := [(''a'', 10000), (''b'', 0)], m_totalRequests := 10000\<rparr>"

theorem ring_rebalance_safe_witness:
  "map_of (m_nodeReplicas busy_ring) ''a'' = Some 2 \<and>
   map_of (m_nodeReplicas (startBalancer [(demo_float, [''a'', ''b''], busy_ring)] busy_ring)) ''a'' = Some 1 \<and>
   ring_ok {''a'', ''b'', ''c''} 2 (startBalancer [(demo_float, [''a'', ''b''], busy_ring)] busy_ring)"
proof -
  have "ring_ok {''a'', ''b'', ''c''} 2 busy_ring"
    using demo_ring_ok by (simp add: busy_ring_def ring_ok_def ring_raw_counts)
  note w = ring_rebalance_safe [OF this, of "[(demo_float, [''a'', ''b''], busy_ring)]"]
  have 1: "map_of (m_nodeReplicas busy_ring) ''a'' = Some 2" by code_simp
  have 2: "map_of (m_nodeReplicas (startBalancer [(demo_float, [''a'', ''b''], busy_ring)] busy_ring)) ''a'' = Some 1" by code_simp
  from 1 2 w show ?thesis by blast
qed

text \<open>
  Registering a node twice breaks the ring. \<open>Add\<close> appends the virtual nodes of a node that is
  already present a second time, and \<open>Remove\<close> takes out one copy of each: after \<open>Add\<close>, \<open>Add\<close>
  and \<open>Remove\<close> of the same node its positions are still on the ring without a node, so \<open>Get\<close>
  returns the empty string for keys that fall on them although another node is registered, and a
  second \<open>Remove\<close> is refused.
\<close>

lemma ring_double_add_leaves_dead_positions:
  "\<exists>m1 m2 m3. Map_Add [''b'', ''a''] (Map_New demo_cfg) = Inr m1 \<and> Map_Add [''a''] m1 = Inr m2 \<and>
     Map_Remove ''a'' m2 = Inr m3 \<and> map_of (m_nodeReplicas m3) ''b'' = Some 2 \<and>
     fst (Map_Get ''key'' m3) = [] \<and> Map_Remove ''a'' m3 = Inl ErrNodeNotFound"
proof -
  define m1 where "m1 = projr (Map_Add [''b'', ''a''] (Map_New demo_cfg))"
  define m2 where "m2 = projr (Map_Add [''a''] m1)"
  define m3 where "m3 = projr (Map_Remove ''a'' m2)"
  note defs = m1_def m2_def m3_def
  have 1: "\<not> isl (Map_Add [''b'', ''a''] (Map_New demo_cfg))" by code_simp
  have 2: "\<not> isl (Map_Add [''a''] m1)" unfolding defs by code_simp
  have 3: "\<not> isl (Map_Remove ''a'' m2)" unfolding defs by code_simp
  have 4: "map_of (m_nodeReplicas m3) ''b'' = Some 2" unfolding defs by code_simp
  have 5: "map_of (m_nodeReplicas m3) ''a'' = None" unfolding defs by code_simp
  have 6: "fst (Map_Get ''key'' m3) = []" unfolding defs by code_simp
  have "Map_Remove ''a'' m3 = Inl ErrNodeNotFound" using 5 by (simp add: Map_Remove_def removeNode_def)
  moreover have "Map_Add [''b'', ''a''] (Map_New demo_cfg) = Inr m1" using 1 by (simp add: m1_def)
  moreover have "Map_Add [''a''] m1 = Inr m2" using 2 by (simp add: m2_def)
  moreover have "Map_Remove ''a'' m2 = Inr m3" using 3 by (simp add: m3_def)
  ultimately show ?thesis using 4 6 by blast
qed

end
