(* ===== verification/Peers.thy ===== *)
theory Peers
  imports Consistent_Hash Byte_View
begin

text \<open>
  \<^verbatim>\<open>client.go\<close> and \<^verbatim>\<open>peers.go\<close>: the clients of remote nodes and the picker that
  keeps one client per discovered node next to the hash ring. The network is outside: the
  outcome of a dial, of a remote call and of closing a connection are arguments (\<open>None\<close> is a
  failure), a connection is of an arbitrary type \<open>'n\<close> and an etcd client of type \<open>'e\<close>. The
  events of the etcd watch and the key-value pairs of the first fetch are arguments too, each
  with the outcome of the dial it causes, if it causes one.

  The lemmas show that the clients and the ring stay in step, so that a pick always finds the
  client of the ring's owner and never the node itself; that the addresses written to etcd can
  be read back from their keys; and that removed services are never dropped, because the
  delete events of etcd carry no value.
\<close>

subsection \<open>Clients\<close>

datatype client_error = ErrEtcdClient | ErrDial | ErrRpc

record ('e, 'n) Client =
  cl_addr :: string
  cl_svcName :: string
  cl_etcdCli :: 'e
  cl_conn :: 'n

text \<open>\<open>fresh\<close> is the outcome of \<open>clientv3.New\<close>, \<open>conn\<close> that of \<open>grpc.Dial\<close>.\<close>

definition NewClient ::
  "'e option \<Rightarrow> 'n option \<Rightarrow> string \<Rightarrow> string \<Rightarrow> 'e option \<Rightarrow> client_error + ('e, 'n) Client" where
  "NewClient fresh conn addr svcName etcdCli =
     (case (case etcdCli of Some e \<Rightarrow> Some e | None \<Rightarrow> fresh) of
        None \<Rightarrow> Inl ErrEtcdClient
      | Some e \<Rightarrow>
          (case conn of
             None \<Rightarrow> Inl ErrDial
           | Some c \<Rightarrow> Inr \<lparr>cl_addr = addr, cl_svcName = svcName, cl_etcdCli = e, cl_conn = c\<rparr>))"

text \<open>The message \<open>pb.Request\<close>.\<close>

record Request =
  rq_Group :: string
  rq_Key :: string
  rq_Value :: slice

text \<open>
  The remote methods, as functions of the connection, the request and the state \<open>w\<close> of the
  network: \<open>None\<close> is an error. A context value does not travel with a call.
\<close>

definition Client_Get ::
  "('n \<Rightarrow> Request \<Rightarrow> 'w \<Rightarrow> slice option \<times> 'w) \<Rightarrow> ('e, 'n) Client \<Rightarrow> string \<Rightarrow> string \<Rightarrow> 'w
    \<Rightarrow> (client_error + slice) \<times> 'w" where
  "Client_Get rpc c gname key w =
     (case rpc (cl_conn c) \<lparr>rq_Group = gname, rq_Key = key, rq_Value = None\<rparr> w of
        (None, w) \<Rightarrow> (Inl ErrRpc, w)
      | (Some resp, w) \<Rightarrow> (Inr resp, w))"

definition Client_Delete ::
  "('n \<Rightarrow> Request \<Rightarrow> 'w \<Rightarrow> bool option \<times> 'w) \<Rightarrow> ('e, 'n) Client \<Rightarrow> string \<Rightarrow> string \<Rightarrow> 'w
    \<Rightarrow> (client_error + bool) \<times> 'w" where
  "Client_Delete rpc c gname key w =
     (case rpc (cl_conn c) \<lparr>rq_Group = gname, rq_Key = key, rq_Value = None\<rparr> w of
        (None, w) \<Rightarrow> (Inl ErrRpc, w)
      | (Some resp, w) \<Rightarrow> (Inr resp, w))"

definition Client_Set ::
  "('n \<Rightarrow> Request \<Rightarrow> 'w \<Rightarrow> slice option \<times> 'w) \<Rightarrow> ('e, 'n) Client \<Rightarrow> string \<Rightarrow> string \<Rightarrow> slice \<Rightarrow> 'w
    \<Rightarrow> client_error option \<times> 'w" where
  "Client_Set rpc c gname key val w =
     (case rpc (cl_conn c) \<lparr>rq_Group = gname, rq_Key = key, rq_Value = val\<rparr> w of
        (None, w) \<Rightarrow> (Some ErrRpc, w)
      | (Some resp, w) \<Rightarrow> (None, w))"

text \<open>\<open>Close\<close> of a connection that is present; \<open>fails\<close> tells which connections fail to close.\<close>

definition Client_Close :: "('n \<Rightarrow> bool) \<Rightarrow> ('e, 'n) Client \<Rightarrow> bool" where
  "Client_Close fails c = fails (cl_conn c)"

subsection \<open>The picker\<close>

record ('e, 'n) ClientPicker =
  pk_selfAddr :: string
  pk_svcName :: string
  pk_consHash :: Map
  pk_clients :: "(string, ('e, 'n) Client) gomap"
  pk_etcdCli :: 'e
  pk_cancelled :: bool
  pk_closed :: "'n list"

datatype event_type = EventTypePut | EventTypeDelete

record etcd_event =
  ev_Type :: event_type
  ev_Key :: string
  ev_Value :: string

definition defaultSvcName :: string where
  "defaultSvcName = ''saoka-cache''"

definition picker_set :: "'n option \<Rightarrow> string \<Rightarrow> ('e, 'n) ClientPicker \<Rightarrow> ('e, 'n) ClientPicker" where
  "picker_set conn addr p =
     (case NewClient None conn addr (pk_svcName p) (Some (pk_etcdCli p)) of
        Inr client \<Rightarrow>
          p\<lparr>pk_consHash := (case Map_Add [addr] (pk_consHash p) of Inr m \<Rightarrow> m | Inl _ \<Rightarrow> pk_consHash p),
            pk_clients := AList.update addr client (pk_clients p)\<rparr>
      | Inl _ \<Rightarrow> p)"

definition picker_remove :: "string \<Rightarrow> ('e, 'n) ClientPicker \<Rightarrow> ('e, 'n) ClientPicker" where
  "picker_remove addr p =
     p\<lparr>pk_consHash := (case Map_Remove addr (pk_consHash p) of Inr m \<Rightarrow> m | Inl _ \<Rightarrow> pk_consHash p),
       pk_clients := AList.delete addr (pk_clients p)\<rparr>"

text \<open>\<open>client.Close()\<close> closes the connection of the client; the outcome is ignored here.\<close>

definition close_client :: "string \<Rightarrow> ('e, 'n) ClientPicker \<Rightarrow> ('e, 'n) ClientPicker" where
  "close_client addr p =
     (case map_of (pk_clients p) addr of None \<Rightarrow> p | Some client \<Rightarrow> p\<lparr>pk_closed := pk_closed p @ [cl_conn client]\<rparr>)"

definition handle_event :: "etcd_event \<times> 'n option \<Rightarrow> ('e, 'n) ClientPicker \<Rightarrow> ('e, 'n) ClientPicker" where
  "handle_event ev p =
     (let addr = ev_Value (fst ev) in
      if addr = pk_selfAddr p then p
      else case ev_Type (fst ev) of
        EventTypePut \<Rightarrow> (if map_of (pk_clients p) addr = None then picker_set (snd ev) addr p else p)
      | EventTypeDelete \<Rightarrow> (if map_of (pk_clients p) addr \<noteq> None then picker_remove addr (close_client addr p) else p))"

definition handleWatchEvents :: "(etcd_event \<times> 'n option) list \<Rightarrow> ('e, 'n) ClientPicker \<Rightarrow> ('e, 'n) ClientPicker" where
  "handleWatchEvents events p = fold handle_event events p"

datatype picker_error = ErrPickerEtcd | ErrFetch

text \<open>\<open>resp\<close>: the pairs under the prefix, or \<open>None\<close> when the request fails.\<close>

definition fetch_one :: "(string \<times> string) \<times> 'n option \<Rightarrow> ('e, 'n) ClientPicker \<Rightarrow> ('e, 'n) ClientPicker" where
  "fetch_one kv p =
     (let addr = snd (fst kv) in
      if addr \<noteq> [] \<and> addr \<noteq> pk_selfAddr p then picker_set (snd kv) addr p else p)"

definition fetchAllServices ::
  "((string \<times> string) \<times> 'n option) list option \<Rightarrow> ('e, 'n) ClientPicker \<Rightarrow> picker_error + ('e, 'n) ClientPicker" where
  "fetchAllServices resp p =
     (case resp of None \<Rightarrow> Inl ErrFetch | Some kvs \<Rightarrow> Inr (fold fetch_one kvs p))"

datatype PickerOption = WithServiceName string

primrec apply_picker_option :: "PickerOption \<Rightarrow> ('e, 'n) ClientPicker \<Rightarrow> ('e, 'n) ClientPicker" where
  "apply_picker_option (WithServiceName name) p = p\<lparr>pk_svcName := name\<rparr>"

text \<open>
  \<open>cli\<close> is the outcome of creating the etcd client, \<open>config\<close> the ring's configuration. The field
  for the etcd client is nil until that succeeded; a picker is returned only then.
\<close>

definition NewClientPicker ::
  "Config \<Rightarrow> string \<Rightarrow> PickerOption list \<Rightarrow> 'e option \<Rightarrow> ((string \<times> string) \<times> 'n option) list option
    \<Rightarrow> picker_error + ('e, 'n) ClientPicker" where
  "NewClientPicker config addr opts cli resp =
     (case cli of
        None \<Rightarrow> Inl ErrPickerEtcd
      | Some e \<Rightarrow>
          fetchAllServices resp (fold apply_picker_option opts
            \<lparr>pk_selfAddr = addr, pk_svcName = defaultSvcName,
             pk_consHash = Map_New config, pk_clients = [], pk_etcdCli = e, pk_cancelled = False, pk_closed = []\<rparr>))"

definition PickPeer ::
  "string \<Rightarrow> ('e, 'n) ClientPicker \<Rightarrow> (('e, 'n) Client option \<times> bool \<times> bool) \<times> ('e, 'n) ClientPicker" where
  "PickPeer key p =
     (case Map_Get key (pk_consHash p) of
        (addr, m) \<Rightarrow>
          let p = p\<lparr>pk_consHash := m\<rparr> in
          if addr \<noteq> [] then
            (case map_of (pk_clients p) addr of
               Some client \<Rightarrow> ((Some client, True, addr = pk_selfAddr p), p)
             | None \<Rightarrow> ((None, False, False), p))
          else ((None, False, False), p))"

text \<open>\<open>ks\<close> is the order in which \<open>range\<close> yields the clients.\<close>

definition PickAllPeers :: "string list \<Rightarrow> ('e, 'n) ClientPicker \<Rightarrow> ('e, 'n) Client list" where
  "PickAllPeers ks p =
     List.map_filter (\<lambda>addr. if addr \<noteq> pk_selfAddr p then map_of (pk_clients p) addr else None) ks"

definition PrintPeers :: "string list \<Rightarrow> ('e, 'n) ClientPicker \<Rightarrow> string list" where
  "PrintPeers ks p = filter (\<lambda>addr. map_of (pk_clients p) addr \<noteq> None) ks"

text \<open>The result is the list of errors, by address (\<open>None\<close>: the etcd client).\<close>

definition picker_Close ::
  "('n \<Rightarrow> bool) \<Rightarrow> bool \<Rightarrow> string list \<Rightarrow> ('e, 'n) ClientPicker \<Rightarrow> string option list \<times> ('e, 'n) ClientPicker" where
  "picker_Close fails etcd_fails ks p =
     (let p = fold close_client ks (p\<lparr>pk_cancelled := True\<rparr>);
          errs = map Some (filter (\<lambda>addr. case map_of (pk_clients p) addr of None \<Rightarrow> False | Some c \<Rightarrow> Client_Close fails c) ks)
      in (errs @ (if etcd_fails then [None] else []), p))"

text \<open>The key \<open>registry.Register\<close> writes, and the function that reads an address back from it.\<close>

definition service_key :: "string \<Rightarrow> string \<Rightarrow> string" where
  "service_key svcName addr = ''/services/'' @ svcName @ ''/'' @ addr"

definition parseAddrFromKey :: "string \<Rightarrow> string \<Rightarrow> string" where
  "parseAddrFromKey key svcName =
     (let pre = ''/services/'' @ svcName @ ''/'' in
      if take (length pre) key = pre then drop (length pre) key else [])"


lemma mem_PickAllPeers:
  "c \<in> set (PickAllPeers ks p) \<longleftrightarrow> (\<exists>a \<in> set ks. a \<noteq> pk_selfAddr p \<and> map_of (pk_clients p) a = Some c)"
  unfolding PickAllPeers_def by (induction ks) (auto simp: List.map_filter_simps split: option.split)

subsection \<open>The clients and the ring\<close>

text \<open>
  The clients are those of the nodes on the ring (an empty address can have a client, but is
  never on the ring), each under its own address, and the node itself is not among them. \<open>N\<close>
  holds the addresses that occur.
\<close>

definition picker_ok :: "string set \<Rightarrow> int \<Rightarrow> ('e, 'n) ClientPicker \<Rightarrow> bool" where
  "picker_ok N R p \<longleftrightarrow> ring_ok N R (pk_consHash p) \<and> gomap_ok (pk_clients p) \<and>
     map_of (pk_clients p) (pk_selfAddr p) = None \<and>
     (\<forall>a. a \<noteq> [] \<longrightarrow> (map_of (pk_clients p) a = None \<longleftrightarrow> map_of (m_nodeReplicas (pk_consHash p)) a = None)) \<and>
     (\<forall>a c. map_of (pk_clients p) a = Some c \<longrightarrow> cl_addr c = a)"

lemma picker_okD:
  assumes "picker_ok N R p"
  shows "ring_ok N R (pk_consHash p)" and "gomap_ok (pk_clients p)" and "map_of (pk_clients p) (pk_selfAddr p) = None"
    and "a \<noteq> [] \<Longrightarrow> map_of (pk_clients p) a = None \<longleftrightarrow> map_of (m_nodeReplicas (pk_consHash p)) a = None"
    and "map_of (pk_clients p) a = Some c \<Longrightarrow> cl_addr c = a"
  using assms unfolding picker_ok_def by blast+

lemma Map_Add_one:
  assumes "ring_ok N R m" and "a = [] \<or> a \<in> N \<and> map_of (m_nodeReplicas m) a = None"
  obtains m' where "Map_Add [a] m = Inr m'" "ring_ok N R m'"
    "\<And>n. map_of (m_nodeReplicas m') n = None \<longleftrightarrow> map_of (m_nodeReplicas m) n = None \<and> (n \<noteq> a \<or> a = [])"
proof -
  have r: "ring_raw N R m" using assms(1) by (simp add: ring_ok_def)
  have "ring_raw N R (add_nodes [a] m)"
  proof (cases "a = []")
    case False
    then show ?thesis using r assms(2) by (intro add_nodes_raw) auto
  qed (use r in simp)
  from sort_raw [OF this] show ?thesis
    by (intro that [of "(add_nodes [a] m)\<lparr>m_keys := sort (m_keys (add_nodes [a] m))\<rparr>"])
      (simp_all add: Map_Add_def Let_def addNode_def addNode_loop_effect)
qed

lemma Map_Remove_one:
  assumes "ring_ok N R m" and "map_of (m_nodeReplicas m) a \<noteq> None"
  obtains m' where "Map_Remove a m = Inr m'" "ring_ok N R m'"
    "map_of (m_nodeReplicas m') = (map_of (m_nodeReplicas m))(a := None)"
proof -
  have r: "ring_raw N R m" and s: "sorted (m_keys m)" using assms(1) by (simp_all add: ring_ok_def)
  obtain q where q: "map_of (m_nodeReplicas m) a = Some q" using assms(2) by blast
  from ring_rawD(8) [OF r q] obtain m' where m': "removeNode a m = Inr m'" "a \<noteq> []"
    using q by (auto simp: removeNode_def Let_def)
  have "map_of (m_nodeReplicas m') = (map_of (m_nodeReplicas m))(a := None)"
    using m'(1) by (auto simp: removeNode_def Let_def removeNode_loop_effect split: option.splits if_splits)
  with m' that [of m'] removeNode_raw(1,2) [OF r m'(1)] s show ?thesis
    by (simp add: Map_Remove_def ring_ok_def sorted_wrt_filter)
qed

lemma picker_set_ok:
  assumes "picker_ok N R p" and "a \<noteq> pk_selfAddr p" and "a = [] \<or> a \<in> N" and "map_of (pk_clients p) a = None"
  shows "picker_ok N R (picker_set conn a p)"
proof (cases conn)
  case (Some c)
  obtain m' where m': "Map_Add [a] (pk_consHash p) = Inr m'" "ring_ok N R m'"
    "\<And>n. map_of (m_nodeReplicas m') n = None \<longleftrightarrow> map_of (m_nodeReplicas (pk_consHash p)) n = None \<and> (n \<noteq> a \<or> a = [])"
    using Map_Add_one [OF picker_okD(1) [OF assms(1)], of a] assms(3,4) picker_okD(4) [OF assms(1), of a] by blast
  then show ?thesis using assms Some by (simp add: picker_set_def NewClient_def picker_ok_def)
qed (use assms(1) in \<open>simp add: picker_set_def NewClient_def\<close>)

lemma picker_remove_ok:
  assumes "picker_ok N R p" and "map_of (pk_clients p) a \<noteq> None"
  shows "picker_ok N R (picker_remove a p)"
proof (cases "a = []")
  case True
  then show ?thesis using assms by (simp add: picker_remove_def Map_Remove_def picker_ok_def)
next
  case False
  then have "map_of (m_nodeReplicas (pk_consHash p)) a \<noteq> None" using picker_okD(4) [OF assms(1), of a] assms(2) by simp
  from Map_Remove_one [OF picker_okD(1) [OF assms(1)] this] obtain m' where
    "Map_Remove a (pk_consHash p) = Inr m'" "ring_ok N R m'"
    "map_of (m_nodeReplicas m') = (map_of (m_nodeReplicas (pk_consHash p)))(a := None)" .
  then show ?thesis using assms by (simp add: picker_remove_def picker_ok_def)
qed

lemma close_client_simps [simp]:
  "pk_clients (close_client a p) = pk_clients p" "pk_consHash (close_client a p) = pk_consHash p"
  "pk_selfAddr (close_client a p) = pk_selfAddr p" "picker_ok N R (close_client a p) = picker_ok N R p"
  by (simp_all add: close_client_def picker_ok_def split: option.split)

lemma handle_event_ok:
  assumes "picker_ok N R p" and "ev_Value (fst ev) = [] \<or> ev_Value (fst ev) \<in> N"
  shows "picker_ok N R (handle_event ev p)"
  using assms picker_set_ok [OF assms(1)] picker_remove_ok [of N R "close_client (ev_Value (fst ev)) p"]
  by (simp add: handle_event_def Let_def split: event_type.split)

lemma handleWatchEvents_ok:
  assumes "picker_ok N R p" and "\<forall>ev \<in> set events. ev_Value (fst ev) = [] \<or> ev_Value (fst ev) \<in> N"
  shows "picker_ok N R (handleWatchEvents events p)"
  using assms unfolding handleWatchEvents_def by (induction events arbitrary: p) (simp_all add: handle_event_ok)

lemma fetch_ok:
  assumes "picker_ok N R p" and "distinct (map (snd \<circ> fst) kvs)" and "\<forall>kv \<in> set kvs. snd (fst kv) = [] \<or> snd (fst kv) \<in> N"
    and "\<forall>kv \<in> set kvs. map_of (pk_clients p) (snd (fst kv)) = None"
  shows "picker_ok N R (fold fetch_one kvs p)"
  using assms
proof (induction kvs arbitrary: p)
  case (Cons kv kvs)
  have "picker_ok N R (fetch_one kv p)" using Cons.prems by (auto simp: fetch_one_def Let_def intro!: picker_set_ok)
  moreover have "map_of (pk_clients (fetch_one kv p)) (snd (fst x)) = None" if "x \<in> set kvs" for x
  proof -
    have "(snd \<circ> fst) x \<in> (snd \<circ> fst) ` set kvs" using that by (rule imageI)
    moreover have "(snd \<circ> fst) kv \<notin> (snd \<circ> fst) ` set kvs"
      using Cons.prems(2) by (simp only: list.map distinct.simps set_map not_False_eq_True)
    ultimately have "snd (fst x) \<noteq> snd (fst kv)" by (metis comp_apply)
    then show ?thesis using Cons.prems(4) that
      by (auto simp: fetch_one_def picker_set_def NewClient_def Let_def split: option.split)
  qed
  ultimately show ?case using Cons.IH [of "fetch_one kv p"] Cons.prems by simp
qed simp

lemma empty_picker_ok:
  "no_collision cfg N R \<Longrightarrow> config_ok cfg R \<Longrightarrow>
    picker_ok N R \<lparr>pk_selfAddr = a, pk_svcName = s, pk_consHash = Map_New cfg, pk_clients = [], pk_etcdCli = e, pk_cancelled = False, pk_closed = []\<rparr>"
  using Map_New_ok [of cfg N R] by (simp add: picker_ok_def) (simp add: Map_New_def)

lemma map_get_replicas [simp]: "m_nodeReplicas (snd (Map_Get k m)) = m_nodeReplicas m"
  by (simp add: Map_Get_def Let_def)

lemma PickPeer_state: "snd (PickPeer k p) = p\<lparr>pk_consHash := snd (Map_Get k (pk_consHash p))\<rparr>"
  by (simp add: PickPeer_def Let_def split: prod.split option.split)

lemma PickPeer_ok: "picker_ok N R p \<Longrightarrow> picker_ok N R (snd (PickPeer k p))"
  using Get_ok [of N R "pk_consHash p" k] by (simp add: PickPeer_state picker_ok_def)

lemma self_set [simp]: "pk_selfAddr (picker_set conn a p) = pk_selfAddr p"
  by (simp add: picker_set_def split: sum.split)

lemma self_fetch [simp]: "pk_selfAddr (fold fetch_one kvs p) = pk_selfAddr p"
  by (induction kvs arbitrary: p) (simp_all add: fetch_one_def Let_def)

lemma self_handle [simp]: "pk_selfAddr (handleWatchEvents events p) = pk_selfAddr p"
proof -
  have "pk_selfAddr (handle_event ev p) = pk_selfAddr p" for ev and p :: "('a, 'b) ClientPicker"
    by (simp add: handle_event_def picker_remove_def Let_def split: event_type.split)
  then show ?thesis unfolding handleWatchEvents_def by (induction events arbitrary: p) simp_all
qed

lemma apply_options:
  "pk_selfAddr (fold apply_picker_option opts p) = pk_selfAddr p" "pk_clients (fold apply_picker_option opts p) = pk_clients p"
  "picker_ok N R (fold apply_picker_option opts p) = picker_ok N R p"
proof -
  have "pk_selfAddr (apply_picker_option opt p) = pk_selfAddr p" "pk_clients (apply_picker_option opt p) = pk_clients p"
    "picker_ok N R (apply_picker_option opt p) = picker_ok N R p" for opt and p :: "('a, 'b) ClientPicker"
    by (cases opt; simp add: picker_ok_def)+
  then show "pk_selfAddr (fold apply_picker_option opts p) = pk_selfAddr p"
    "pk_clients (fold apply_picker_option opts p) = pk_clients p"
    "picker_ok N R (fold apply_picker_option opts p) = picker_ok N R p"
    by (induction opts arbitrary: p) simp_all
qed

lemma picker_balance_ok:
  "picker_ok N R p \<Longrightarrow> picker_ok N R (p\<lparr>pk_consHash := startBalancer ticks (pk_consHash p)\<rparr>)"
  using startBalancer_safe [of N R "pk_consHash p" ticks] by (simp add: picker_ok_def balanced_from_def)

text \<open>On a ring with at least one node the owner of a key is a registered node.\<close>

lemma owner_registered:
  assumes "ring_ok N R m" and "map_of (m_nodeReplicas m) n \<noteq> None" and "key \<noteq> []"
  shows "map_of (m_nodeReplicas m) (fst (Map_Get key m)) \<noteq> None" and "fst (Map_Get key m) = ring_owner key m"
    and "fst (Map_Get key m) \<noteq> []"
proof -
  have r: "ring_raw N R m" using assms(1) by (simp add: ring_ok_def)
  obtain q where q: "map_of (m_nodeReplicas m) n = Some q" using assms(2) by blast
  then have "0 < nat q" using ring_rawD(8) [OF r q] by simp
  with q have "map_of (m_hashMap m) (vhash (m_config m) n 0) = Some n" using ring_rawD(7) [OF r] by blast
  then have "vhash (m_config m) n 0 \<in> set (m_keys m)" using ring_rawD(6) [OF r] by blast
  then have ne: "m_keys m \<noteq> []" by auto
  then show g: "fst (Map_Get key m) = ring_owner key m" using assms(3) by (simp add: Map_Get_def Let_def)
  obtain q' where q': "map_of (m_nodeReplicas m) (ring_owner key m) = Some q'"
    using owner_successor [OF assms(1) ne, of key] ring_rawD(7) [OF r] by blast
  then show "map_of (m_nodeReplicas m) (fst (Map_Get key m)) \<noteq> None" by (simp add: g)
  show "fst (Map_Get key m) \<noteq> []" using ring_rawD(8) [OF r q'] g by simp
qed

lemma PickPeer_found:
  assumes "picker_ok N R p" and "map_of (pk_clients p) a \<noteq> None" and "a \<noteq> []" and "key \<noteq> []"
  obtains c where "fst (PickPeer key p) = (Some c, True, False)" "cl_addr c = ring_owner key (pk_consHash p)"
    "map_of (pk_clients p) (cl_addr c) = Some c"
proof -
  let ?m = "pk_consHash p"
  have "map_of (m_nodeReplicas ?m) a \<noteq> None" using picker_okD(4) [OF assms(1,3)] assms(2) by simp
  note o = owner_registered [OF picker_okD(1) [OF assms(1)] this assms(4)]
  obtain c where c: "map_of (pk_clients p) (fst (Map_Get key ?m)) = Some c"
    using picker_okD(4) [OF assms(1) o(3)] o(1) by (cases "map_of (pk_clients p) (fst (Map_Get key ?m))") simp_all
  then have "fst (Map_Get key ?m) \<noteq> pk_selfAddr p" using picker_okD(3) [OF assms(1)] by auto
  with c o(3) have "fst (PickPeer key p) = (Some c, True, False)"
    by (auto simp: PickPeer_def Let_def split: prod.split)
  with that [of c] picker_okD(5) [OF assms(1) c] o(2) c show ?thesis by simp
qed

subsection \<open>The interface \<open>PeerPicker\<close>\<close>

text \<open>
  What a group relies on: picking keeps the picker usable, a pick that succeeds yields a peer,
  which is not the node itself, and all peers are among those a pick can yield.
\<close>

locale peer_picker =
  fixes pick :: "string \<Rightarrow> 'p \<Rightarrow> ('c option \<times> bool \<times> bool) \<times> 'p"
    and usable :: "'p \<Rightarrow> bool"
  assumes pick_usable: "usable p \<Longrightarrow> usable (snd (pick k p))"
    and pick_peer: "usable p \<Longrightarrow> fst (snd (fst (pick k p))) \<Longrightarrow> fst (fst (pick k p)) \<noteq> None \<and> \<not> snd (snd (fst (pick k p)))"
begin

lemma pick_cases:
  assumes "usable p"
  obtains c p' where "pick k p = ((Some c, True, False), p')" "usable p'"
  | r s p' where "pick k p = ((r, False, s), p')" "usable p'"
proof (cases "fst (snd (fst (pick k p)))")
  case True
  with pick_peer [OF assms True] pick_usable [OF assms, of k] that(1) show ?thesis
    by (cases "pick k p") auto
next
  case False
  with pick_usable [OF assms, of k] that(2) show ?thesis by (cases "pick k p") auto
qed

end

interpretation client_picker: peer_picker PickPeer "picker_ok N R"
proof
  show "picker_ok N R (snd (PickPeer k p))" if "picker_ok N R p" for p :: "('e, 'n) ClientPicker" and k
    using that by (rule PickPeer_ok)
  show "fst (fst (PickPeer k p)) \<noteq> None \<and> \<not> snd (snd (fst (PickPeer k p)))"
    if "picker_ok N R p" "fst (snd (fst (PickPeer k p)))" for p :: "('e, 'n) ClientPicker" and k
    using that picker_okD(3) [OF that(1)] by (auto simp: PickPeer_def Let_def split: prod.splits option.splits if_splits)
qed

subsection \<open>Properties\<close>

text \<open>The operations on a picker: the watch, picks, and the ticks of the balancer of its ring.\<close>

datatype 'n picker_op =
  Watch "(etcd_event \<times> 'n option) list" | Pick string | Balance "(float_ops \<times> string list \<times> Map) list"

primrec picker_step :: "'n picker_op \<Rightarrow> ('e, 'n) ClientPicker \<Rightarrow> ('e, 'n) ClientPicker" where
  "picker_step (Watch events) p = handleWatchEvents events p"
| "picker_step (Pick key) p = snd (PickPeer key p)"
| "picker_step (Balance ticks) p = p\<lparr>pk_consHash := startBalancer ticks (pk_consHash p)\<rparr>"

text \<open>The addresses an operation brings in are among \<open>N\<close>.\<close>

primrec op_within :: "string set \<Rightarrow> 'n picker_op \<Rightarrow> bool" where
  "op_within N (Watch events) = list_all (\<lambda>ev. ev_Value (fst ev) = [] \<or> ev_Value (fst ev) \<in> N) events"
| "op_within N (Pick key) = True"
| "op_within N (Balance ticks) = True"

text \<open>
  C11: the clients and the ring stay in step. A picker whose first fetch yields each address
  once, after any sequence of watch events (services that appear, disappear, reappear, and
  dials that fail), picks and ticks of the balancer, has a well-formed ring whose nodes are exactly the clients with
  a non-empty address, each client under its own address, and never the node itself.
\<close>

theorem picker_run_invariant:
  fixes e :: 'e and ops :: "'n picker_op list"
  assumes "no_collision cfg N R" and "config_ok cfg R"
    and "distinct (map (snd \<circ> fst) kvs)" and "list_all (\<lambda>kv. snd (fst kv) = [] \<or> snd (fst kv) \<in> N) kvs"
    and "list_all (op_within N) ops"
  shows "\<exists>p. NewClientPicker cfg self opts (Some e) (Some kvs) = Inr p \<and>
    (let p' = fold picker_step ops p in
      ring_ok N R (pk_consHash p') \<and> map_of (pk_clients p') self = None \<and>
      (\<forall>a. a \<noteq> [] \<longrightarrow> (map_of (pk_clients p') a = None \<longleftrightarrow> map_of (m_nodeReplicas (pk_consHash p')) a = None)) \<and>
      (\<forall>a c. map_of (pk_clients p') a = Some c \<longrightarrow> cl_addr c = a))"
proof -
  let ?p0 = "\<lparr>pk_selfAddr = self, pk_svcName = defaultSvcName, pk_consHash = Map_New cfg,
    pk_clients = [], pk_etcdCli = e, pk_cancelled = False, pk_closed = []\<rparr> :: ('e, 'n) ClientPicker"
  define p where "p = fold fetch_one kvs (fold apply_picker_option opts ?p0)"
  have new: "NewClientPicker cfg self opts (Some e) (Some kvs) = Inr p"
    by (simp add: NewClientPicker_def fetchAllServices_def p_def)
  have ok: "picker_ok N R p"
    unfolding p_def using empty_picker_ok [OF assms(1,2)] assms(3,4)
    by (intro fetch_ok) (simp_all add: list_all_iff apply_options)
  have step: "picker_ok N R (picker_step x q) \<and> pk_selfAddr (picker_step x q) = pk_selfAddr q"
    if "picker_ok N R q" "op_within N x" for x and q :: "('e, 'n) ClientPicker"
    using that handleWatchEvents_ok [OF that(1)] PickPeer_ok [OF that(1)] picker_balance_ok [OF that(1)]
    by (cases x) (simp_all add: list_all_iff PickPeer_state)
  have "picker_ok N R (fold picker_step ops q) \<and> pk_selfAddr (fold picker_step ops q) = pk_selfAddr q"
    if "picker_ok N R q" for q :: "('e, 'n) ClientPicker"
    using that assms(5) by (induction ops arbitrary: q) (simp_all add: step)
  from this [OF ok] have f: "picker_ok N R (fold picker_step ops p)" "pk_selfAddr (fold picker_step ops p) = self"
    using self_fetch by (simp_all add: p_def apply_options)
  show ?thesis using picker_okD [OF f(1)] f(2) unfolding Let_def by (intro exI [of _ p]) (simp add: new)
qed

text \<open>
  A pick finds the owner. As soon as one peer with an address is known, \<open>PickPeer\<close> of a
  non-empty key succeeds: it returns the client of the node that owns the key on the ring, and
  the node does not take itself for the owner.
\<close>

theorem pick_peer_finds_owner:
  assumes "picker_ok N R p" and "map_of (pk_clients p) a \<noteq> None" and "a \<noteq> []" and "key \<noteq> []"
  shows "\<exists>c p'. PickPeer key p = ((Some c, True, False), p') \<and> cl_addr c = ring_owner key (pk_consHash p) \<and>
    map_of (pk_clients p) (cl_addr c) = Some c \<and> picker_ok N R p'"
proof -
  obtain c where "fst (PickPeer key p) = (Some c, True, False)" "cl_addr c = ring_owner key (pk_consHash p)"
    "map_of (pk_clients p) (cl_addr c) = Some c" using PickPeer_found [OF assms] .
  with PickPeer_ok [OF assms(1), of key] show ?thesis by (cases "PickPeer key p") simp
qed


text \<open>
  Services that go away are never removed. etcd reports a deletion (also one by an expired
  lease) with the key only; \<open>handleWatchEvents\<close> looks for the client under the event's value,
  which is then empty. So a client with an address, once known, is kept through every sequence
  of events, its deletion included, and a pick keeps returning it.
\<close>

theorem deleted_services_stay:
  assumes "list_all (\<lambda>ev. ev_Type (fst ev) = EventTypeDelete \<longrightarrow> ev_Value (fst ev) = []) events"
    and "map_of (pk_clients p) a = Some c" and "a \<noteq> []"
  shows "map_of (pk_clients (handleWatchEvents events p)) a = Some c"
  using assms(1,2) unfolding handleWatchEvents_def
proof (induction events arbitrary: p)
  case (Cons ev events)
  have "map_of (pk_clients (handle_event ev p)) a = Some c"
    using Cons.prems assms(3)
    by (auto simp: handle_event_def picker_set_def picker_remove_def Let_def split: event_type.split sum.split)
  with Cons show ?case by simp
qed simp

subsection \<open>A small cluster\<close>

definition demo_put :: "string \<Rightarrow> etcd_event \<times> nat option" where
  "demo_put a = (\<lparr>ev_Type = EventTypePut, ev_Key = service_key defaultSvcName a, ev_Value = a\<rparr>, Some 0)"

definition demo_delete :: "string \<Rightarrow> etcd_event \<times> nat option" where
  "demo_delete a = (\<lparr>ev_Type = EventTypeDelete, ev_Key = service_key defaultSvcName a, ev_Value = []\<rparr>, None)"

definition demo_client :: "string \<Rightarrow> (unit, nat) Client" where
  "demo_client a = \<lparr>cl_addr = a, cl_svcName = defaultSvcName, cl_etcdCli = (), cl_conn = 0\<rparr>"

definition demo_picker :: "(unit, nat) ClientPicker" where
  "demo_picker = handleWatchEvents [demo_put ''a'', demo_put ''b'']
     \<lparr>pk_selfAddr = ''c'', pk_svcName = defaultSvcName, pk_consHash = Map_New demo_cfg, pk_clients = [], pk_etcdCli = (), pk_cancelled = False, pk_closed = []\<rparr>"

lemma demo_picker_ok: "picker_ok {''a'', ''b'', ''c''} 2 demo_picker"
  unfolding demo_picker_def using empty_picker_ok [OF demo_no_collision demo_config_ok]
  by (intro handleWatchEvents_ok) (simp_all add: demo_put_def)

lemma demo_picker_client: "map_of (pk_clients demo_picker) ''a'' = Some (demo_client ''a'')"
  by (simp add: demo_picker_def demo_put_def handleWatchEvents_def handle_event_def picker_set_def NewClient_def demo_client_def Let_def)

theorem picker_run_invariant_witness:
  "\<exists>p. NewClientPicker demo_cfg ''c'' [] (Some ()) (Some [((''/services/saoka-cache/a'', ''a''), Some (0::nat))]) = Inr p \<and>
    ring_ok {''a'', ''b'', ''c''} 2 (pk_consHash (fold picker_step [Watch [demo_put ''b''], Pick ''key'', Balance [], Watch [demo_delete ''a'']] p)) \<and>
    map_of (pk_clients (fold picker_step [Watch [demo_put ''b''], Pick ''key'', Balance [], Watch [demo_delete ''a'']] p)) ''c'' = None"
  using picker_run_invariant [OF demo_no_collision demo_config_ok, of "[((''/services/saoka-cache/a'', ''a''), Some (0::nat))]"
      "[Watch [demo_put ''b''], Pick ''key'', Balance [], Watch [demo_delete ''a'']]" "''c''" "[]" "()"]
  by (auto simp: demo_put_def demo_delete_def Let_def)

theorem pick_peer_finds_owner_witness:
  "\<exists>c p'. PickPeer ''key'' demo_picker = ((Some c, True, False), p') \<and> map_of (pk_clients demo_picker) (cl_addr c) = Some c"
  using pick_peer_finds_owner [OF demo_picker_ok, of "''a''" "''key''"] demo_picker_client by auto


theorem deleted_services_stay_witness:
  "map_of (pk_clients (handleWatchEvents [demo_delete ''a''] demo_picker)) ''a'' = Some (demo_client ''a'')"
  using deleted_services_stay [of "[demo_delete ''a'']" demo_picker "''a''" "demo_client ''a''"] demo_picker_client
  by (simp add: demo_delete_def)

end
