(* ===== verification/Cache_Group.thy ===== *)
theory Cache_Group
  imports Policy Peers
begin

text \<open>
  \<^verbatim>\<open>group.go\<close>: the cache namespace \<open>Group\<close>, the loader that asks a peer before the
  data source, the synchronisation of writes to the peers, and the global registry of groups
  with its mutex.

  The data source (\<open>Getter\<close>) is a field of the group: a function of the key and of the state
  \<open>w\<close> of the world outside; the remote \<open>Get\<close> of peers is an argument \<open>rpc\<close> over the same world.
  A goroutine that an operation starts is a value in its result (\<open>sync_task\<close>): it runs later,
  as \<open>syncToPeers\<close>. Groups are objects: the registry maps names to addresses in a heap, so that
  a group that was replaced can still be closed.

  An operation that waits for a mutex the same goroutine holds never returns (\<open>Blocks\<close>).
\<close>

datatype group_error = ErrKeyRequired | ErrValueRequired | ErrGroupClosed | ErrPolicy cache_error

record groupStats =
  gs_loads :: int
  gs_localHits :: int
  gs_localMisses :: int
  gs_peerHits :: int
  gs_peerMisses :: int
  gs_loaderHits :: int
  gs_loaderErrors :: int
  gs_loadDuration :: int

definition zero_stats :: groupStats where
  "zero_stats = \<lparr>gs_loads = 0, gs_localHits = 0, gs_localMisses = 0, gs_peerHits = 0, gs_peerMisses = 0,
     gs_loaderHits = 0, gs_loaderErrors = 0, gs_loadDuration = 0\<rparr>"

type_synonym 'w getter = "string \<Rightarrow> 'w \<Rightarrow> slice option \<times> 'w"
type_synonym ('n, 'w) rpc_get = "'n \<Rightarrow> Request \<Rightarrow> 'w \<Rightarrow> slice option \<times> 'w"

record ('e, 'n, 'w) Group =
  g_name :: string
  g_getter :: "'w getter"
  g_policy :: CachePolicy
  g_peers :: "('e, 'n) ClientPicker option"
  g_expiration :: int
  g_closed :: bool
  g_stats :: groupStats
  g_syncWG :: int

subsection \<open>Loading\<close>

text \<open>
  The state the loader works on: the counters of the group, its picker and the world. \<open>PickPeer\<close>
  answers \<open>ok\<close> only together with a client.
\<close>

type_synonym ('e, 'n, 'w) load_state = "groupStats \<times> ('e, 'n) ClientPicker option \<times> 'w"

definition from_peer ::
  "('n, 'w) rpc_get \<Rightarrow> string \<Rightarrow> string \<Rightarrow> ('e, 'n, 'w) load_state \<Rightarrow> slice option \<times> ('e, 'n, 'w) load_state" where
  "from_peer rpc name key s =
     (case s of (st, peers, w) \<Rightarrow>
        (case peers of
           None \<Rightarrow> (None, s)
         | Some pk \<Rightarrow>
             (case PickPeer key pk of
                ((Some peer, True, False), pk) \<Rightarrow>
                  (case Client_Get rpc peer name key w of
                     (Inr bytes, w) \<Rightarrow> (Some bytes, st\<lparr>gs_peerHits := wrap64 (gs_peerHits st + 1)\<rparr>, Some pk, w)
                   | (Inl err, w) \<Rightarrow> (None, st\<lparr>gs_peerMisses := wrap64 (gs_peerMisses st + 1)\<rparr>, Some pk, w))
              | (_, pk) \<Rightarrow> (None, st, Some pk, w))))"

definition peerAwareGetter_Get ::
  "('n, 'w) rpc_get \<Rightarrow> 'w getter \<Rightarrow> string \<Rightarrow> string \<Rightarrow> ('e, 'n, 'w) load_state \<Rightarrow> slice option \<times> ('e, 'n, 'w) load_state" where
  "peerAwareGetter_Get rpc getter name key s =
     (case from_peer rpc name key s of
        (Some bytes, s) \<Rightarrow> (Some bytes, s)
      | (None, st, peers, w) \<Rightarrow>
          (case getter key w of
             (None, w) \<Rightarrow> (None, st, peers, w)
           | (Some bytes, w) \<Rightarrow> (Some (cloneBytes bytes), st\<lparr>gs_loaderHits := wrap64 (gs_loaderHits st + 1)\<rparr>, peers, w)))"

subsection \<open>Operations of a group\<close>

text \<open>\<open>dur\<close> is the time the policy took, in nanoseconds.\<close>

definition Group_Get ::
  "reads \<Rightarrow> int \<Rightarrow> ('n, 'w) rpc_get \<Rightarrow> string \<Rightarrow> ('e, 'n, 'w) Group \<Rightarrow> 'w
    \<Rightarrow> ((group_error + ByteView) \<times> ByteView event list \<times> ('e, 'n, 'w) Group \<times> 'w) option" where
  "Group_Get rd dur rpc key g w =
     (if g_closed g then Some (Inl ErrGroupClosed, [], g, w)
      else if key = [] then Some (Inl ErrKeyRequired, [], g, w)
      else do {
        (r, ev, p, st, peers, w) \<leftarrow>
          Policy_Get rd (peerAwareGetter_Get rpc (g_getter g) (g_name g)) key (g_policy g) (g_stats g, g_peers g, w);
        let g = g\<lparr>g_policy := p, g_peers := peers\<rparr>;
        Some (case r of
          Inl err \<Rightarrow>
            (Inl (ErrPolicy err), ev,
             g\<lparr>g_stats := st\<lparr>gs_localMisses := wrap64 (gs_localMisses st + 1),
                             gs_loaderErrors := wrap64 (gs_loaderErrors st + 1)\<rparr>\<rparr>, w)
        | Inr view \<Rightarrow>
            (Inr view, ev,
             g\<lparr>g_stats := st\<lparr>gs_localHits := wrap64 (gs_localHits st + 1), gs_loads := wrap64 (gs_loads st + 1),
                             gs_loadDuration := wrap64 (gs_loadDuration st + dur)\<rparr>\<rparr>, w))
      })"

datatype sync_task = SyncSet string slice | SyncDelete string

text \<open>\<open>isPeerRequest\<close>: the context carries \<open>fromPeerKey\<close>. \<open>now\<close> is the reading of \<open>time.Now()\<close>.\<close>

definition Group_Set ::
  "reads \<Rightarrow> int \<Rightarrow> bool \<Rightarrow> string \<Rightarrow> slice \<Rightarrow> ('e, 'n, 'w) Group
    \<Rightarrow> (group_error option \<times> ByteView event list \<times> sync_task list \<times> ('e, 'n, 'w) Group) option" where
  "Group_Set rd now isPeerRequest key val g =
     (if g_closed g then Some (Some ErrGroupClosed, [], [], g)
      else if key = [] then Some (Some ErrKeyRequired, [], [], g)
      else if slice_bytes val = [] then Some (Some ErrValueRequired, [], [], g)
      else do {
        let view = ByteView (cloneBytes val);
        (ev, p) \<leftarrow>
          (if g_expiration g > 0 then Policy_SetWithExpiration rd key view (now + g_expiration g) (g_policy g)
           else Policy_Set rd key view (g_policy g));
        Some (None, ev, (if \<not> isPeerRequest \<and> g_peers g \<noteq> None then [SyncSet key val] else []), g\<lparr>g_policy := p\<rparr>)
      })"

definition Group_Delete ::
  "bool \<Rightarrow> string \<Rightarrow> ('e, 'n, 'w) Group
    \<Rightarrow> (group_error option \<times> ByteView event list \<times> sync_task list \<times> ('e, 'n, 'w) Group) option" where
  "Group_Delete isPeerRequest key g =
     (if g_closed g then Some (Some ErrGroupClosed, [], [], g)
      else if key = [] then Some (Some ErrKeyRequired, [], [], g)
      else do {
        (_, ev, p) \<leftarrow> Policy_Delete key (g_policy g);
        Some (None, ev, (if \<not> isPeerRequest \<and> g_peers g \<noteq> None then [SyncDelete key] else []), g\<lparr>g_policy := p\<rparr>)
      })"

text \<open>
  The goroutine \<open>syncToPeers\<close>: one remote call per peer, each counted in the wait group until it
  has ended (\<open>sync_done\<close>). \<open>ks\<close> is the order in which the clients are listed.
\<close>

datatype rpc_call = RpcSet Request | RpcDelete Request

definition syncToPeers ::
  "string list \<Rightarrow> sync_task \<Rightarrow> ('e, 'n, 'w) Group \<Rightarrow> (('e, 'n) Client \<times> rpc_call) list \<times> ('e, 'n, 'w) Group" where
  "syncToPeers ks task g =
     (case g_peers g of
        None \<Rightarrow> ([], g)
      | Some pk \<Rightarrow>
          let peers = PickAllPeers ks pk;
              call = (case task of
                  SyncSet key val \<Rightarrow> RpcSet \<lparr>rq_Group = g_name g, rq_Key = key, rq_Value = val\<rparr>
                | SyncDelete key \<Rightarrow> RpcDelete \<lparr>rq_Group = g_name g, rq_Key = key, rq_Value = None\<rparr>)
          in (map (\<lambda>p. (p, call)) peers, g\<lparr>g_syncWG := g_syncWG g + int (length peers)\<rparr>))"

definition sync_done :: "('e, 'n, 'w) Group \<Rightarrow> ('e, 'n, 'w) Group" where
  "sync_done g = g\<lparr>g_syncWG := g_syncWG g - 1\<rparr>"

definition Group_Clear ::
  "(string list \<Rightarrow> string list) \<Rightarrow> ('e, 'n, 'w) Group \<Rightarrow> (ByteView event list \<times> ('e, 'n, 'w) Group) option" where
  "Group_Clear ord g =
     (if g_closed g then Some ([], g)
      else do { (ev, p) \<leftarrow> Policy_Clear ord (g_policy g); Some (ev, g\<lparr>g_policy := p\<rparr>) })"

definition RegisterPeers :: "('e, 'n) ClientPicker \<Rightarrow> ('e, 'n, 'w) Group \<Rightarrow> ('e, 'n, 'w) Group option" where
  "RegisterPeers peers g = (if g_peers g \<noteq> None then None else Some (g\<lparr>g_peers := Some peers\<rparr>))"

text \<open>The statistics: rates as pairs of numerator and denominator, absent when the denominator is not positive.\<close>

record group_report =
  gr_name :: string
  gr_closed :: bool
  gr_expiration :: int
  gr_stats :: groupStats
  gr_hit_rate :: "(int \<times> int) option"
  gr_avg_load_time_ms :: "(int \<times> int \<times> int) option"
  gr_cache :: CacheStats

definition Group_Stats :: "('e, 'n, 'w) Group \<Rightarrow> group_report option" where
  "Group_Stats g = do {
     let st = g_stats g;
     let totalGets = wrap64 (gs_localHits st + gs_localMisses st);
     cs \<leftarrow> Policy_Stats (g_policy g);
     Some \<lparr>gr_name = g_name g, gr_closed = g_closed g, gr_expiration = g_expiration g, gr_stats = st,
           gr_hit_rate = (if totalGets > 0 then Some (gs_localHits st, totalGets) else None),
           gr_avg_load_time_ms = (if gs_loads st > 0 then Some (gs_loadDuration st, gs_loads st, 1000000) else None),
           gr_cache = cs\<rparr>
   }"

subsection \<open>The registry\<close>

record ('e, 'n, 'w) registry =
  rg_groups :: "(string, nat) gomap"
  rg_heap :: "('e, 'n, 'w) Group list"
  rg_locked :: bool

datatype 'a outcome = Returns 'a | Blocks | Panics

datatype ('e, 'n) GroupOption =
  WithExpiration int | WithPeers "('e, 'n) ClientPicker option" | WithCacheOptions CacheOptions

type_synonym sizes = "(u64 \<Rightarrow> float64 \<Rightarrow> u64) \<times> (u64 \<Rightarrow> u64 \<Rightarrow> u64)"

primrec apply_option :: "sizes \<Rightarrow> ('e, 'n) GroupOption \<Rightarrow> ('e, 'n, 'w) Group \<Rightarrow> ('e, 'n, 'w) Group" where
  "apply_option z (WithExpiration d) g = g\<lparr>g_expiration := d\<rparr>"
| "apply_option z (WithPeers peers) g = g\<lparr>g_peers := peers\<rparr>"
| "apply_option z (WithCacheOptions opts) g = g\<lparr>g_policy := NewCachePolicy (fst z) (snd z) (NewCache opts) opts\<rparr>"

definition new_group :: "sizes \<Rightarrow> string \<Rightarrow> int \<Rightarrow> 'w getter \<Rightarrow> ('e, 'n) GroupOption list \<Rightarrow> ('e, 'n, 'w) Group" where
  "new_group z name cacheBytes getter opts =
     (let cacheOpts = DefaultCacheOptions\<lparr>co_MaxBytes := cacheBytes\<rparr> in
      fold (apply_option z) opts
        \<lparr>g_name = name, g_getter = getter, g_policy = NewCachePolicy (fst z) (snd z) (NewCache cacheOpts) cacheOpts,
         g_peers = None, g_expiration = 0, g_closed = False, g_stats = zero_stats, g_syncWG = 0\<rparr>)"

definition NewGroup ::
  "sizes \<Rightarrow> string \<Rightarrow> int \<Rightarrow> 'w getter option \<Rightarrow> ('e, 'n) GroupOption list \<Rightarrow> ('e, 'n, 'w) registry
    \<Rightarrow> (nat \<times> ('e, 'n, 'w) registry) outcome" where
  "NewGroup z name cacheBytes getter opts rg =
     (case getter of
        None \<Rightarrow> Panics
      | Some f \<Rightarrow>
          if rg_locked rg then Blocks
          else let i = length (rg_heap rg) in
            Returns (i, rg\<lparr>rg_heap := rg_heap rg @ [new_group z name cacheBytes f opts],
                           rg_groups := AList.update name i (rg_groups rg)\<rparr>))"

definition GetGroup :: "string \<Rightarrow> ('e, 'n, 'w) registry \<Rightarrow> nat option outcome" where
  "GetGroup name rg = (if rg_locked rg then Blocks else Returns (map_of (rg_groups rg) name))"

definition ListGroups :: "('e, 'n, 'w) registry \<Rightarrow> string list outcome" where
  "ListGroups rg = (if rg_locked rg then Blocks else Returns (map fst (rg_groups rg)))"

text \<open>
  \<open>Close\<close> of the group at address \<open>i\<close>: the flag, the wait for the synchronisation (which ends in
  any case, by its timeout), the policy, and the entry of the registry under the group's name.
\<close>

definition Group_Close :: "nat \<Rightarrow> ('e, 'n, 'w) registry \<Rightarrow> ('e, 'n, 'w) registry outcome" where
  "Group_Close i rg =
     (let g = rg_heap rg ! i in
      if g_closed g then Returns rg
      else case Policy_Close (g_policy g) of
        None \<Rightarrow> Panics
      | Some p \<Rightarrow>
          let rg = rg\<lparr>rg_heap := (rg_heap rg)[i := g\<lparr>g_closed := True, g_policy := p\<rparr>]\<rparr> in
          if rg_locked rg then Blocks
          else Returns (rg\<lparr>rg_groups := AList.delete (g_name g) (rg_groups rg)\<rparr>))"

text \<open>\<open>destroy_one\<close>: the body shared by the two functions, run with the mutex held.\<close>

definition destroy_one :: "string \<Rightarrow> nat \<Rightarrow> ('e, 'n, 'w) registry \<Rightarrow> ('e, 'n, 'w) registry outcome" where
  "destroy_one name i rg =
     (case Group_Close i rg of
        Returns rg \<Rightarrow> Returns (rg\<lparr>rg_groups := AList.delete name (rg_groups rg)\<rparr>)
      | Blocks \<Rightarrow> Blocks
      | Panics \<Rightarrow> Panics)"

definition DestroyGroup :: "string \<Rightarrow> ('e, 'n, 'w) registry \<Rightarrow> (bool \<times> ('e, 'n, 'w) registry) outcome" where
  "DestroyGroup name rg =
     (if rg_locked rg then Blocks
      else let rg = rg\<lparr>rg_locked := True\<rparr> in
        case map_of (rg_groups rg) name of
          Some i \<Rightarrow>
            (case destroy_one name i rg of
               Returns rg \<Rightarrow> Returns (True, rg\<lparr>rg_locked := False\<rparr>)
             | Blocks \<Rightarrow> Blocks
             | Panics \<Rightarrow> Panics)
        | None \<Rightarrow> Returns (False, rg\<lparr>rg_locked := False\<rparr>))"

primrec destroy_loop :: "string list \<Rightarrow> ('e, 'n, 'w) registry \<Rightarrow> ('e, 'n, 'w) registry outcome" where
  "destroy_loop [] rg = Returns rg"
| "destroy_loop (name # names) rg =
     (case map_of (rg_groups rg) name of
        None \<Rightarrow> destroy_loop names rg
      | Some i \<Rightarrow>
          (case destroy_one name i rg of
             Returns rg \<Rightarrow> destroy_loop names rg
           | Blocks \<Rightarrow> Blocks
           | Panics \<Rightarrow> Panics))"

text \<open>\<open>names\<close> is the order in which \<open>range\<close> yields the groups.\<close>

definition DestroyAllGroups :: "string list \<Rightarrow> ('e, 'n, 'w) registry \<Rightarrow> ('e, 'n, 'w) registry outcome" where
  "DestroyAllGroups names rg =
     (if rg_locked rg then Blocks
      else case destroy_loop names (rg\<lparr>rg_locked := True\<rparr>) of
        Returns rg \<Rightarrow> Returns (rg\<lparr>rg_locked := False\<rparr>)
      | Blocks \<Rightarrow> Blocks
      | Panics \<Rightarrow> Panics)"

end
