(* ===== verification/Group_Theorems.thy ===== *)
theory Group_Theorems
  imports Cache_Group
begin

text \<open>
  Results on groups and their registry: which source a load asks and what it counts, reads
  after writes through all layers, the closed state, and the two ways in which the registry
  goes wrong (destroying a group waits for its own mutex; closing a replaced group unregisters
  its successor).
\<close>

definition peers_ok :: "string set \<Rightarrow> int \<Rightarrow> ('e, 'n) ClientPicker option \<Rightarrow> bool" where
  "peers_ok N R peers \<longleftrightarrow> (case peers of None \<Rightarrow> True | Some pk \<Rightarrow> picker_ok N R pk)"

definition group_ok :: "string set \<Rightarrow> int \<Rightarrow> ('e, 'n, 'w) Group \<Rightarrow> bool" where
  "group_ok N R g \<longleftrightarrow> policy_ok (g_policy g) \<and> peers_ok N R (g_peers g)"

text \<open>Loading keeps the picker usable.\<close>

lemma from_peer_ok:
  assumes "peers_ok N R peers"
  shows "\<exists>r st' peers' w'. from_peer rpc name key (st, peers, w) = (r, st', peers', w') \<and> peers_ok N R peers'"
proof (cases peers)
  case None
  then show ?thesis using assms by (simp add: from_peer_def)
next
  case (Some pk)
  then have "picker_ok N R pk" using assms by (simp add: peers_ok_def)
  from client_picker.pick_cases [OF this, of key] show ?thesis
  proof cases
    case (1 c pk')
    then show ?thesis using Some
      by (cases "Client_Get rpc c name key w") (auto simp: from_peer_def peers_ok_def split: sum.split)
  next
    case (2 r s pk')
    then show ?thesis using Some by (cases r) (simp_all add: from_peer_def peers_ok_def)
  qed
qed

lemma getter_ok:
  assumes "peers_ok N R peers"
  shows "\<exists>r st' peers' w'. peerAwareGetter_Get rpc getter name key (st, peers, w) = (r, st', peers', w') \<and> peers_ok N R peers'"
proof -
  obtain r st1 peers1 w1 where f: "from_peer rpc name key (st, peers, w) = (r, st1, peers1, w1)" "peers_ok N R peers1"
    using from_peer_ok [OF assms, of rpc name key st w] by blast
  then show ?thesis
    by (cases r; cases "getter key w1"; cases "fst (getter key w1)") (auto simp: peerAwareGetter_Get_def)
qed

subsection \<open>Writes and reads\<close>

text \<open>The duration that reaches the store, and whether the write expires at all.\<close>

definition expires :: "('e, 'n, 'w) Group \<Rightarrow> bool" where
  "expires g \<longleftrightarrow> 0 < g_expiration g \<or> 0 < co_DefaultTTL (p_opts (g_policy g))"

definition base_ttl :: "reads \<Rightarrow> int \<Rightarrow> ('e, 'n, 'w) Group \<Rightarrow> int" where
  "base_ttl rd now g =
     (if 0 < g_expiration g then time_Sub (now + g_expiration g) (rd_until0 rd) else co_DefaultTTL (p_opts (g_policy g)))"

definition write_ttl :: "reads \<Rightarrow> int \<Rightarrow> ('e, 'n, 'w) Group \<Rightarrow> int" where
  "write_ttl rd now g =
     (if expires g then time_Sub (rd_add rd + addJitter (rd_rand rd) (base_ttl rd now g)) (rd_until rd) else 0)"

lemma Cache_Set_get:
  assumes "cache_ok c" and "\<not> ca_closed c" and "store_fits bv_Len (the (ca_store (ensureInitialized c))) k v" and "bv_b v \<noteq> None"
  shows "\<exists>ev1 c1 ev2 c2. Cache_Set now now2 ks k v c = Some (ev1, c1) \<and> cache_ok c1 \<and>
    Cache_Get t1 t2 k c1 = Some (Inr v, ev2, c2)"
proof -
  obtain st where st: "ca_store (ensureInitialized c) = Some st" "store_ok bv_Len st" "ca_initialized (ensureInitialized c)"
    "cache_ok (ensureInitialized c)" "\<not> ca_closed (ensureInitialized c)" using ensureInitialized_ok [OF assms(1,2)] .
  obtain ev1 st' where s1: "store_SetWithExpiration bv_Len now now2 ks k (Some v) 0 st = Some (ev1, st')" "store_ok bv_Len st'"
    using store.set_totalE [OF st(2)] .
  have "store_fits bv_Len st k v" using assms(3) st(1) by simp
  from store.set_get [OF st(2) this _ _ _ s1(1), of t1 t2] obtain ev2 st'' where
    s2: "store_Get t1 t2 k st' = Some (Some (Some v), ev2, st'')" by (auto simp: in_time_def)
  have "cache_ok ((ensureInitialized c)\<lparr>ca_store := Some st'\<rparr>)" using st(3,4) s1(2) by (intro store_upd_ok)
  with s1 s2 st assms(2,4) show ?thesis by (auto simp: Cache_Set_def store_Set_eq Cache_Get_def Let_def)
qed

lemma Group_write:
  assumes "group_ok N R g" and "\<not> g_closed g" and "k \<noteq> []" and "slice_bytes val \<noteq> []" and "\<not> ca_closed (p_cache (g_policy g))"
    and "store_fits bv_Len (the (ca_store (ensureInitialized (p_cache (g_policy g))))) k (ByteView (cloneBytes val))"
    and "expires g \<Longrightarrow> 0 < base_ttl rd now g \<and> 0 < write_ttl rd now g"
    and "in_time (rd_now rd) (write_ttl rd now g) (rd_now2 rd)" and "in_time (rd_now rd) (write_ttl rd now g) t1"
    and "in_time (rd_now rd) (write_ttl rd now g) t2"
  shows "\<exists>ev tasks c ev2 c2. Group_Set rd now fp k val g = Some (None, ev, tasks, g\<lparr>g_policy := (g_policy g)\<lparr>p_cache := c\<rparr>\<rparr>) \<and>
    cache_ok c \<and> tasks = (if \<not> fp \<and> g_peers g \<noteq> None then [SyncSet k val] else []) \<and>
    Cache_Get t1 t2 k c = Some (Inr (ByteView (cloneBytes val)), ev2, c2)"
proof -
  let ?v = "ByteView (cloneBytes val)" and ?p = "g_policy g"
  have cok: "cache_ok (p_cache ?p)" using assms(1) by (simp add: group_ok_def policy_ok_def)
  have ne: "bv_b ?v \<noteq> None" by (simp add: cloneBytes_def)
  show ?thesis
  proof (cases "expires g")
    case True
    let ?e = "rd_add rd + addJitter (rd_rand rd) (base_ttl rd now g)"
    have ttl: "write_ttl rd now g = time_Sub ?e (rd_until rd)" using True by (simp add: write_ttl_def)
    from cache_layer_set_then_get [OF cok assms(5,6), of ?e "rd_until rd" "rd_now rd" "rd_now2 rd" t1 t2 "rd_ks rd"]
      assms(7-10) True ne obtain ev c ev2 c2 where
      c: "Cache_SetWithExpiration (rd_until rd) (rd_now rd) (rd_now2 rd) (rd_ks rd) k ?v ?e (p_cache ?p) = Some (ev, c)" "cache_ok c"
      "Cache_Get t1 t2 k c = Some (Inr ?v, ev2, c2)" unfolding ttl by auto
    have "(if g_expiration g > 0 then Policy_SetWithExpiration rd k ?v (now + g_expiration g) ?p else Policy_Set rd k ?v ?p)
        = Some (ev, ?p\<lparr>p_cache := c\<rparr>)"
      using c(1) assms(7) True
      by (auto simp: Policy_SetWithExpiration_def Policy_Set_def base_ttl_def expires_def Let_def)
    with assms(2-4) c(2,3) show ?thesis by (auto simp: Group_Set_def Let_def)
  next
    case False
    from Cache_Set_get [OF cok assms(5,6) ne, of "rd_now rd" "rd_now2 rd" "rd_ks rd" t1 t2] obtain ev c ev2 c2 where
      c: "Cache_Set (rd_now rd) (rd_now2 rd) (rd_ks rd) k ?v (p_cache ?p) = Some (ev, c)" "cache_ok c"
      "Cache_Get t1 t2 k c = Some (Inr ?v, ev2, c2)" by blast
    then have "Policy_Set rd k ?v ?p = Some (ev, ?p\<lparr>p_cache := c\<rparr>)" using False by (simp add: Policy_Set_def expires_def)
    with assms(2-4) c(2,3) False show ?thesis by (auto simp: Group_Set_def Let_def expires_def)
  qed
qed

subsection \<open>Every operation returns\<close>

lemma Group_Get_ok:
  assumes "group_ok N R g"
  shows "\<exists>r ev g' w'. Group_Get rd dur rpc key g w = Some (r, ev, g', w') \<and> group_ok N R g'"
proof (cases "g_closed g \<or> key = []")
  case True
  then show ?thesis using assms by (auto simp: Group_Get_def)
next
  case False
  let ?l = "peerAwareGetter_Get rpc (g_getter g) (g_name g)" and ?s = "(g_stats g, g_peers g, w)"
  have p: "policy_ok (g_policy g)" and pk: "peers_ok N R (g_peers g)" using assms by (simp_all add: group_ok_def)
  obtain r ev p' s' where g: "Policy_Get rd ?l key (g_policy g) ?s = Some (r, ev, p', s')" "policy_ok p'" "s' = ?s \<or> s' = snd (?l key ?s)"
    using Policy_Get_ok [OF p, of rd ?l key ?s] by blast
  obtain lr st1 peers1 w1 where "?l key ?s = (lr, st1, peers1, w1)" "peers_ok N R peers1"
    using getter_ok [OF pk, of rpc "g_getter g" "g_name g" key "g_stats g" w] by blast
  then obtain st2 peers2 w2 where s: "s' = (st2, peers2, w2)" "peers_ok N R peers2" using g(3) pk by auto
  show ?thesis using False g(1,2) s by (cases r) (simp_all add: Group_Get_def group_ok_def Let_def)
qed

lemma Group_Set_ok:
  assumes "group_ok N R g"
  shows "\<exists>r ev tasks g'. Group_Set rd now fp key val g = Some (r, ev, tasks, g') \<and> group_ok N R g' \<and>
    g_peers g' = g_peers g \<and> g_name g' = g_name g \<and> g_closed g' = g_closed g \<and> (fp \<longrightarrow> tasks = [])"
proof -
  have p: "policy_ok (g_policy g)" using assms by (simp add: group_ok_def)
  let ?v = "ByteView (cloneBytes val)"
  obtain ev p' where "(if g_expiration g > 0 then Policy_SetWithExpiration rd key ?v (now + g_expiration g) (g_policy g)
      else Policy_Set rd key ?v (g_policy g)) = Some (ev, p')" "policy_ok p'"
    using Policy_Set_ok [OF p, of rd key ?v] Policy_SetExp_ok [OF p, of rd key ?v "now + g_expiration g"] p
    by (cases "g_expiration g > 0") auto
  then show ?thesis using assms by (simp add: Group_Set_def group_ok_def Let_def)
qed

lemma Group_Delete_ok:
  assumes "group_ok N R g"
  shows "\<exists>r ev tasks g'. Group_Delete fp key g = Some (r, ev, tasks, g') \<and> group_ok N R g' \<and>
    g_peers g' = g_peers g \<and> g_name g' = g_name g \<and> g_closed g' = g_closed g \<and>
    tasks = (if \<not> g_closed g \<and> key \<noteq> [] \<and> \<not> fp \<and> g_peers g \<noteq> None then [SyncDelete key] else [])"
proof -
  have p: "policy_ok (g_policy g)" "cache_ok (p_cache (g_policy g))" using assms by (simp_all add: group_ok_def policy_ok_def)
  obtain r ev c where "Cache_Delete key (p_cache (g_policy g)) = Some (r, ev, c)" "cache_ok c"
    using Cache_Delete_ok [OF p(2)] by blast
  then show ?thesis using assms p(1) by (auto simp: Group_Delete_def Policy_Delete_def group_ok_def)
qed

lemma Group_Clear_ok:
  assumes "group_ok N R g"
  shows "\<exists>ev g'. Group_Clear ord g = Some (ev, g') \<and> group_ok N R g'"
proof -
  have p: "policy_ok (g_policy g)" "cache_ok (p_cache (g_policy g))" using assms by (simp_all add: group_ok_def policy_ok_def)
  obtain ev c where "Cache_Clear ord (p_cache (g_policy g)) = Some (ev, c)" "cache_ok c" using Cache_Clear_ok [OF p(2)] by blast
  then show ?thesis using assms p(1) by (auto simp: Group_Clear_def Policy_Clear_def group_ok_def)
qed

lemma Group_Stats_ok: "group_ok N R g \<Longrightarrow> \<exists>r. Group_Stats g = Some r"
  using Cache_Stats_ok [of "p_cache (g_policy g)"] by (auto simp: Group_Stats_def Policy_Stats_def group_ok_def policy_ok_def Let_def)

datatype ('n, 'w) group_op =
    GGet reads int "('n, 'w) rpc_get" string
  | GSet reads int bool string slice
  | GDelete bool string
  | GClear "string list \<Rightarrow> string list"
  | GStats

datatype group_out = GRGet "group_error + ByteView" | GRWrite "group_error option" "sync_task list" | GRDone | GRStats group_report

primrec group_step ::
  "('n, 'w) group_op \<Rightarrow> ('e, 'n, 'w) Group \<times> 'w \<Rightarrow> (group_out \<times> ('e, 'n, 'w) Group \<times> 'w) option" where
  "group_step (GGet rd dur rpc k) s = do { (r, ev, g, w) \<leftarrow> Group_Get rd dur rpc k (fst s) (snd s); Some (GRGet r, g, w) }"
| "group_step (GSet rd now fp k v) s = do { (r, ev, tasks, g) \<leftarrow> Group_Set rd now fp k v (fst s); Some (GRWrite r tasks, g, snd s) }"
| "group_step (GDelete fp k) s = do { (r, ev, tasks, g) \<leftarrow> Group_Delete fp k (fst s); Some (GRWrite r tasks, g, snd s) }"
| "group_step (GClear ord) s = do { (ev, g) \<leftarrow> Group_Clear ord (fst s); Some (GRDone, g, snd s) }"
| "group_step GStats s = do { r \<leftarrow> Group_Stats (fst s); Some (GRStats r, s) }"

lemma group_step_ok:
  assumes "group_ok N R (fst s)"
  shows "\<exists>out s'. group_step x s = Some (out, s') \<and> group_ok N R (fst s')"
proof (cases x)
  case (GGet rd dur rpc k)
  with Group_Get_ok [OF assms, of rd dur rpc k "snd s"] show ?thesis by auto
next
  case (GSet rd now fp k v)
  with Group_Set_ok [OF assms, of rd now fp k v] show ?thesis by auto
next
  case (GDelete fp k)
  with Group_Delete_ok [OF assms, of fp k] show ?thesis by auto
next
  case (GClear ord)
  with Group_Clear_ok [OF assms, of ord] show ?thesis by auto
next
  case GStats
  with Group_Stats_ok [OF assms] assms show ?thesis by (cases s) auto
qed

lemma new_group_ok:
  assumes "opts_ok (store_options (DefaultCacheOptions\<lparr>co_MaxBytes := b\<rparr>))" and "peers_ok N R peers"
    and "fst z 1000000 (co_FalsePositiveRate DefaultCacheOptions) \<noteq> 0" and "fst z 1000000 (co_FalsePositiveRate DefaultCacheOptions) \<le> - 64"
  shows "group_ok N R (new_group z name b f [WithPeers peers])" and "g_name (new_group z name b f [WithPeers peers]) = name"
proof -
  let ?o = "DefaultCacheOptions\<lparr>co_MaxBytes := b\<rparr>"
  let ?bf = "NewBloomFilter (fst z) (snd z) 1000000 (co_FalsePositiveRate DefaultCacheOptions)"
  have "bf_ok ?bf" using assms(3,4) by (rule NewBloomFilter_ok)
  moreover have "g_policy (new_group z name b f [WithPeers peers]) = \<lparr>p_cache = NewCache ?o, p_bf = Some ?bf, p_opts = ?o\<rparr>"
    "g_peers (new_group z name b f [WithPeers peers]) = peers"
    by (simp_all add: new_group_def NewCachePolicy_def DefaultCacheOptions_def Let_def)
  ultimately show "group_ok N R (new_group z name b f [WithPeers peers])"
    using assms(2) NewCache_ok [OF assms(1)] by (simp add: group_ok_def policy_ok_def)
  show "g_name (new_group z name b f [WithPeers peers]) = name" by (simp add: new_group_def Let_def)
qed

lemma group_run_ok:
  "group_ok N R (fst s) \<Longrightarrow> \<exists>outs s'. run_ops group_step ops s = Some (outs, s') \<and> group_ok N R (fst s')"
proof (induction ops arbitrary: s)
  case (Cons x ops)
  obtain out s1 where "group_step x s = Some (out, s1)" "group_ok N R (fst s1)" using group_step_ok [OF Cons.prems] by blast
  with Cons.IH [OF this(2)] show ?case by auto
qed simp

subsection \<open>The registry\<close>

definition registry_ok :: "('e, 'n, 'w) registry \<Rightarrow> bool" where
  "registry_ok rg \<longleftrightarrow> (\<forall>name i. map_of (rg_groups rg) name = Some i \<longrightarrow>
     i < length (rg_heap rg) \<and> policy_ok (g_policy (rg_heap rg ! i)))"

lemma Policy_Close_ok: "policy_ok p \<Longrightarrow> \<exists>p'. Policy_Close p = Some p' \<and> policy_ok p'"
  using Cache_Close_ok [of "p_cache p"] by (auto simp: policy_ok_def Policy_Close_def)

lemma close_locked:
  assumes "registry_ok rg" and "map_of (rg_groups rg) name = Some i" and "rg_locked rg"
  shows "Group_Close i rg = (if g_closed (rg_heap rg ! i) then Returns rg else Blocks)"
proof -
  obtain p' where "Policy_Close (g_policy (rg_heap rg ! i)) = Some p'"
    using assms(1,2) Policy_Close_ok unfolding registry_ok_def by blast
  then show ?thesis using assms(3) by (simp add: Group_Close_def Let_def)
qed

lemma registry_delete_ok: "registry_ok rg \<Longrightarrow> registry_ok (rg\<lparr>rg_groups := AList.delete name (rg_groups rg)\<rparr>)"
  by (simp add: registry_ok_def)

lemma destroy_loop_blocks:
  assumes "registry_ok rg" and "rg_locked rg" and "map_of (rg_groups rg) name = Some i" and "\<not> g_closed (rg_heap rg ! i)"
    and "name \<in> set names"
  shows "destroy_loop names rg = Blocks"
  using assms
proof (induction names arbitrary: rg)
  case (Cons n names)
  show ?case
  proof (cases "map_of (rg_groups rg) n")
    case None
    then have "n \<noteq> name" using Cons.prems(3) by auto
    with Cons None show ?thesis by simp
  next
    case (Some j)
    note cl = close_locked [OF Cons.prems(1) Some Cons.prems(2)]
    show ?thesis
    proof (cases "g_closed (rg_heap rg ! j)")
      case False
      with cl Some show ?thesis by (simp add: destroy_one_def)
    next
      case True
      then have ne: "n \<noteq> name" using Some Cons.prems(3,4) by auto
      let ?rg = "rg\<lparr>rg_groups := AList.delete n (rg_groups rg)\<rparr>"
      have "destroy_loop names ?rg = Blocks"
        using Cons.prems ne by (intro Cons.IH registry_delete_ok) simp_all
      with True cl Some show ?thesis by (simp add: destroy_one_def)
    qed
  qed
qed simp

subsection \<open>Properties\<close>

text \<open>
  Where a load looks. With a usable picker that knows a peer, the loader of a group asks
  the peer that owns the key; if the peer answers, its bytes are the result, the data source is
  not asked and a peer hit is counted; if it fails, a peer miss is counted and the result is a
  copy of what the data source yields, or its error.
\<close>

theorem group_load_order:
  assumes "picker_ok N R pk" and "map_of (pk_clients pk) a \<noteq> None" and "a \<noteq> []" and "key \<noteq> []"
  shows "\<exists>c pk'. cl_addr c = ring_owner key (pk_consHash pk) \<and> map_of (pk_clients pk) (cl_addr c) = Some c \<and> picker_ok N R pk' \<and>
    peerAwareGetter_Get rpc getter name key (st, Some pk, w) =
      (case rpc (cl_conn c) \<lparr>rq_Group = name, rq_Key = key, rq_Value = None\<rparr> w of
         (Some bytes, w) \<Rightarrow> (Some bytes, st\<lparr>gs_peerHits := wrap64 (gs_peerHits st + 1)\<rparr>, Some pk', w)
       | (None, w) \<Rightarrow>
           let st = st\<lparr>gs_peerMisses := wrap64 (gs_peerMisses st + 1)\<rparr> in
           (case getter key w of
              (None, w) \<Rightarrow> (None, st, Some pk', w)
            | (Some bytes, w) \<Rightarrow> (Some (cloneBytes bytes), st\<lparr>gs_loaderHits := wrap64 (gs_loaderHits st + 1)\<rparr>, Some pk', w)))"
proof -
  obtain c where c: "fst (PickPeer key pk) = (Some c, True, False)" "cl_addr c = ring_owner key (pk_consHash pk)"
    "map_of (pk_clients pk) (cl_addr c) = Some c" using PickPeer_found [OF assms] .
  define pk' where "pk' = snd (PickPeer key pk)"
  have "picker_ok N R pk'" unfolding pk'_def using PickPeer_ok [OF assms(1)] .
  moreover have "PickPeer key pk = ((Some c, True, False), pk')" using c(1) by (simp add: pk'_def prod_eq_iff)
  ultimately show ?thesis using c(2,3)
    by (intro exI [of _ c] exI [of _ pk'])
      (auto simp: peerAwareGetter_Get_def from_peer_def Client_Get_def Let_def split: prod.split option.split)
qed

text \<open>
  C5: reads after writes, through all layers. On an open, well-formed group, for a key the
  Bloom filter lets pass, \<open>Set\<close> of a non-empty value succeeds, and a \<open>Get\<close> before the (jittered)
  expiry returns a view of exactly these bytes: the data source and the peers are not asked, and
  the read is counted as a local hit. The write is handed to the peers unless it came from one.
\<close>

theorem group_set_then_get:
  assumes "group_ok N R g" and "\<not> g_closed g" and "\<not> ca_closed (p_cache (g_policy g))"
    and "k \<noteq> []" and "slice_bytes val \<noteq> []" and "passes k (g_policy g)"
    and "store_fits bv_Len (the (ca_store (ensureInitialized (p_cache (g_policy g))))) k (ByteView (cloneBytes val))"
    and "expires g \<Longrightarrow> 0 < base_ttl rd now g \<and> 0 < write_ttl rd now g"
    and "in_time (rd_now rd) (write_ttl rd now g) (rd_now2 rd)" and "in_time (rd_now rd) (write_ttl rd now g) (rd_t1 rd')"
    and "in_time (rd_now rd) (write_ttl rd now g) (rd_t2 rd')"
  shows "\<exists>ev g' ev' g''.
    Group_Set rd now fp k val g = Some (None, ev, if \<not> fp \<and> g_peers g \<noteq> None then [SyncSet k val] else [], g') \<and>
    Group_Get rd' dur rpc k g' w = Some (Inr (ByteView (Some (slice_bytes val))), ev', g'', w) \<and>
    gs_localHits (g_stats g'') = wrap64 (gs_localHits (g_stats g) + 1) \<and> g_peers g'' = g_peers g"
proof -
  from Group_write [OF assms(1,2,4,5,3,7-9,10,11), of fp] obtain ev tasks c ev2 c2 where
    s: "Group_Set rd now fp k val g = Some (None, ev, tasks, g\<lparr>g_policy := (g_policy g)\<lparr>p_cache := c\<rparr>\<rparr>)"
    "tasks = (if \<not> fp \<and> g_peers g \<noteq> None then [SyncSet k val] else [])"
    "Cache_Get (rd_t1 rd') (rd_t2 rd') k c = Some (Inr (ByteView (cloneBytes val)), ev2, c2)" by blast
  let ?g = "g\<lparr>g_policy := (g_policy g)\<lparr>p_cache := c\<rparr>\<rparr>"
  have pass: "(case p_bf (g_policy g) of None \<Rightarrow> Some True | Some bf \<Rightarrow> bf_Contains bf k) = Some True"
    using assms(6) by (simp add: passes_def split: option.splits)
  have "\<exists>ev' g''. Group_Get rd' dur rpc k ?g w = Some (Inr (ByteView (Some (slice_bytes val))), ev', g'', w) \<and>
      gs_localHits (g_stats g'') = wrap64 (gs_localHits (g_stats g) + 1) \<and> g_peers g'' = g_peers g"
    using assms(2,4) pass s(3) by (simp add: Group_Get_def Policy_Get_def cloneBytes_def Let_def)
  with s(1,2) show ?thesis by blast
qed

text \<open>
  A closed group stays closed. \<open>Close\<close> of a registered group returns when the registry is not
  locked; from then on \<open>Get\<close>, \<open>Set\<close> and \<open>Delete\<close> answer \<open>ErrGroupClosed\<close> and change nothing, and a
  second \<open>Close\<close> has no effect.
\<close>

theorem group_closed_rejects:
  assumes "registry_ok rg" and "map_of (rg_groups rg) name = Some i" and "\<not> rg_locked rg"
  shows "\<exists>rg'. Group_Close i rg = Returns rg' \<and> Group_Close i rg' = Returns rg' \<and>
    (let g = rg_heap rg' ! i in
      Group_Get rd dur rpc key g w = Some (Inl ErrGroupClosed, [], g, w) \<and>
      Group_Set rd now fp key val g = Some (Some ErrGroupClosed, [], [], g) \<and>
      Group_Delete fp key g = Some (Some ErrGroupClosed, [], [], g))"
proof -
  have i: "i < length (rg_heap rg)" and ok: "policy_ok (g_policy (rg_heap rg ! i))"
    using assms(1,2) unfolding registry_ok_def by blast+
  obtain p' where p': "Policy_Close (g_policy (rg_heap rg ! i)) = Some p'" using Policy_Close_ok [OF ok] by blast
  show ?thesis
  proof (cases "g_closed (rg_heap rg ! i)")
    case True
    then show ?thesis by (intro exI [of _ rg]) (simp add: Group_Close_def Group_Get_def Group_Set_def Group_Delete_def)
  next
    case False
    with assms(3) i p' show ?thesis by (simp add: Group_Close_def Group_Get_def Group_Set_def Group_Delete_def Let_def)
  qed
qed

text \<open>
  C33: destroying a group never returns. \<open>DestroyGroup\<close> and \<open>DestroyAllGroups\<close> hold \<open>groupsMu\<close> while they
  call \<open>Close\<close>, which locks \<open>groupsMu\<close> to remove the group from the registry; the mutex is not
  reentrant. So both block for ever as soon as one of their groups is still open.
\<close>

theorem destroy_group_deadlocks:
  assumes "registry_ok rg" and "\<not> rg_locked rg" and "map_of (rg_groups rg) name = Some i" and "\<not> g_closed (rg_heap rg ! i)"
  shows "DestroyGroup name rg = Blocks \<and> (name \<in> set names \<longrightarrow> DestroyAllGroups names rg = Blocks)"
proof -
  let ?rg = "rg\<lparr>rg_locked := True\<rparr>"
  have ok: "registry_ok ?rg" using assms(1) by (simp add: registry_ok_def)
  have "Group_Close i ?rg = Blocks" using close_locked [OF ok, of name i] assms(3,4) by simp
  then have "DestroyGroup name rg = Blocks" using assms(2,3) by (simp add: DestroyGroup_def destroy_one_def)
  moreover have "destroy_loop names ?rg = Blocks" if "name \<in> set names"
    using destroy_loop_blocks [OF ok _ _ _ that] assms(3,4) by simp
  ultimately show ?thesis using assms(2) by (simp add: DestroyAllGroups_def)
qed

text \<open>
  Closing a group that was replaced unregisters its successor. \<open>NewGroup\<close> replaces a group of
  the same name without closing it, and \<open>Close\<close> of the old one deletes the entry of that name: the
  new group is open but can no longer be found.
\<close>

lemma close_replaced_unregisters_successor:
  assumes "gomap_ok (rg_groups rg)" and "\<not> rg_locked rg" and "opts_ok (store_options (DefaultCacheOptions\<lparr>co_MaxBytes := b\<rparr>))"
  shows "\<exists>i rg1 j rg2 rg3. NewGroup z name b (Some f) [] rg = Returns (i, rg1) \<and> NewGroup z name b (Some f) [] rg1 = Returns (j, rg2) \<and>
    Group_Close i rg2 = Returns rg3 \<and> GetGroup name rg3 = Returns None \<and> j \<noteq> i \<and> \<not> g_closed (rg_heap rg3 ! j)"
proof -
  let ?g = "new_group z name b f [] :: ('a, 'b, 'c) Group"
  have "cache_ok (p_cache (g_policy ?g))" using NewCache_ok [OF assms(3)] by (simp add: new_group_def NewCachePolicy_def Let_def)
  then obtain c' where "Cache_Close (p_cache (g_policy ?g)) = Some c'" using Cache_Close_ok by blast
  moreover have "\<not> g_closed ?g" "g_name ?g = name" by (simp_all add: new_group_def Let_def)
  ultimately show ?thesis using assms(2)
    by (simp add: NewGroup_def Group_Close_def GetGroup_def Policy_Close_def nth_append Let_def)
qed

text \<open>
  C6: groups never panic. A group whose options are in range, with or without a picker, runs every
  sequence of \<open>Get\<close> (whatever the peers and the data source do), \<open>Set\<close>, \<open>Delete\<close>, \<open>Clear\<close> and
  \<open>Stats\<close> to its end, and its policy and picker stay well formed.
\<close>

theorem group_run_never_panics:
  assumes "opts_ok (store_options (DefaultCacheOptions\<lparr>co_MaxBytes := b\<rparr>))"
    and "fst z 1000000 (co_FalsePositiveRate DefaultCacheOptions) \<noteq> 0" and "fst z 1000000 (co_FalsePositiveRate DefaultCacheOptions) \<le> - 64"
    and "case peers of None \<Rightarrow> True | Some pk \<Rightarrow> picker_ok N R pk"
  shows "\<exists>outs g w'. run_ops group_step ops (new_group z name b f [WithPeers peers], w) = Some (outs, g, w') \<and>
    policy_ok (g_policy g) \<and> (case g_peers g of None \<Rightarrow> True | Some pk \<Rightarrow> picker_ok N R pk)"
proof -
  have "group_ok N R (new_group z name b f [WithPeers peers])"
    using assms(4) by (intro new_group_ok(1) assms(1-3)) (simp add: peers_ok_def)
  then show ?thesis
    using group_run_ok [of N R "(new_group z name b f [WithPeers peers], w)" ops] by (auto simp: group_ok_def peers_ok_def)
qed

subsection \<open>Witnesses\<close>

text \<open>A getter that counts its calls, and a group without a Bloom filter that is large enough to be empty.\<close>

definition demo_getter :: "nat getter" where
  "demo_getter key w = (Some (Some [1]), Suc w)"

definition demo_rpc :: "(nat, nat) rpc_get" where
  "demo_rpc conn rq w = (None, Suc w)"

definition demo_group :: "(unit, nat, nat) Group" where
  "demo_group = new_group (\<lambda>n p. 64, \<lambda>m n. 0) ''g'' 1000 demo_getter [WithPeers (Some demo_picker)]"

lemma demo_opts_ok: "opts_ok (store_options (DefaultCacheOptions\<lparr>co_MaxBytes := b\<rparr>))"
  by (simp add: opts_ok_def store_options_def DefaultCacheOptions_def)

lemma demo_group_ok: "group_ok {''a'', ''b'', ''c''} 2 demo_group"
proof -
  have "bf_ok (NewBloomFilter (\<lambda>n p. 64) (\<lambda>m n. 0) x y)" for x and y :: float64
    by (rule NewBloomFilter_ok) (simp_all add: word_le_nat_alt)
  then show ?thesis using NewCache_ok [OF demo_opts_ok] demo_picker_ok
    by (simp add: demo_group_def new_group_def group_ok_def peers_ok_def policy_ok_def NewCachePolicy_def Let_def)
qed

definition demo_registry :: "(unit, nat, nat) registry" where
  "demo_registry = \<lparr>rg_groups = [(''g'', 0)], rg_heap = [demo_group], rg_locked = False\<rparr>"

lemma demo_registry_ok: "registry_ok demo_registry"
  using demo_group_ok by (simp add: registry_ok_def demo_registry_def group_ok_def)

lemma demo_group_open: "\<not> g_closed demo_group"
  by (simp add: demo_group_def new_group_def Let_def)

theorem group_load_order_witness:
  "\<exists>c pk'. map_of (pk_clients demo_picker) (cl_addr c) = Some c \<and>
    peerAwareGetter_Get demo_rpc demo_getter ''g'' ''key'' (zero_stats, Some demo_picker, 0) =
      (Some (Some [1]), zero_stats\<lparr>gs_peerMisses := 1, gs_loaderHits := 1\<rparr>, Some pk', 2)"
  using group_load_order [OF demo_picker_ok, of "''a''" "''key''" demo_rpc demo_getter "''g''" zero_stats 0] demo_picker_client
  by (auto simp: demo_rpc_def demo_getter_def cloneBytes_def slice_bytes_def zero_stats_def wrap64_def)

theorem group_set_then_get_witness:
  "\<exists>ev g' ev' g''. Group_Set rd0 100 False ''k'' (Some [7]) demo_group = Some (None, ev, [SyncSet ''k'' (Some [7])], g') \<and>
    Group_Get rd0 5 demo_rpc ''k'' g' 0 = Some (Inr (ByteView (Some [7])), ev', g'', 0)"
proof -
  have pol: "g_policy demo_group = NewCachePolicy (\<lambda>n p. 64) (\<lambda>m n. 0) (NewCache (DefaultCacheOptions\<lparr>co_MaxBytes := 1000\<rparr>))
      (DefaultCacheOptions\<lparr>co_MaxBytes := 1000\<rparr>)" "g_expiration demo_group = 0" "g_peers demo_group = Some demo_picker"
    by (simp_all add: demo_group_def new_group_def Let_def)
  have ttl: "base_ttl rd0 100 demo_group = 60000000000" "write_ttl rd0 100 demo_group = 54000000000"
    by (simp_all add: base_ttl_def write_ttl_def expires_def pol NewCachePolicy_def DefaultCacheOptions_def rd0_def
        addJitter_def time_Sub_def time_Minute_def time_Second_def MaxInt64_def wrap64_def Let_def)
  have pass: "passes ''k'' (g_policy demo_group)"
    by (simp add: pol passes_def NewCachePolicy_def NewBloomFilter_def bf_Contains_def bf_seeds_def Let_def)
  have fits: "store_fits bv_Len (the (ca_store (ensureInitialized (p_cache (g_policy demo_group))))) ''k'' (ByteView (cloneBytes (Some [7])))"
    by (simp add: pol NewCachePolicy_def ensureInitialized_def NewCache_def DefaultCacheOptions_def NewStore_def)
  have "\<not> ca_closed (p_cache (g_policy demo_group))" by (simp add: pol NewCachePolicy_def NewCache_def)
  note w = group_set_then_get [OF demo_group_ok demo_group_open this _ _ pass fits, of rd0 100 rd0 False 5 demo_rpc 0]
  have "in_time (rd_now rd0) (write_ttl rd0 100 demo_group) 100" "rd_now2 rd0 = 100" "rd_t1 rd0 = 100" "rd_t2 rd0 = 100"
    unfolding ttl by (simp_all add: in_time_def rd0_def)
  with w show ?thesis by (simp add: ttl slice_bytes_def pol(3)) blast
qed

theorem group_closed_rejects_witness:
  "\<exists>rg'. Group_Close 0 demo_registry = Returns rg' \<and>
    Group_Delete False ''k'' (rg_heap rg' ! 0) = Some (Some ErrGroupClosed, [], [], rg_heap rg' ! 0)"
  using group_closed_rejects [OF demo_registry_ok, of "''g''" 0 rd0 5 demo_rpc "''k''" 0 100 False None]
  by (auto simp: demo_registry_def Let_def)

theorem destroy_group_deadlocks_witness:
  "DestroyGroup ''g'' demo_registry = Blocks \<and> DestroyAllGroups [''g''] demo_registry = Blocks"
  using destroy_group_deadlocks [OF demo_registry_ok, of "''g''" 0 "[''g'']"] demo_group_open by (simp add: demo_registry_def)

lemma close_replaced_unregisters_successor_witness:
  "\<exists>i rg1 j rg2 rg3. NewGroup (\<lambda>n p. 64, \<lambda>m n. 0) ''g'' 1000 (Some demo_getter) [] demo_registry = Returns (i, rg1) \<and>
    NewGroup (\<lambda>n p. 64, \<lambda>m n. 0) ''g'' 1000 (Some demo_getter) [] rg1 = Returns (j, rg2) \<and>
    Group_Close i rg2 = Returns rg3 \<and> GetGroup ''g'' rg3 = Returns None \<and> \<not> g_closed (rg_heap rg3 ! j)"
  using close_replaced_unregisters_successor [of demo_registry 1000 "(\<lambda>n p. 64, \<lambda>m n. 0)" "''g''" demo_getter] demo_opts_ok
  by (auto simp: demo_registry_def)

theorem group_run_never_panics_witness:
  "\<exists>outs g w'. run_ops group_step [GGet rd0 5 demo_rpc ''k'', GSet rd0 100 False ''k'' (Some [7]), GStats]
      (new_group (\<lambda>n p. 64, \<lambda>m n. 0) ''g'' 1000 demo_getter [WithPeers (Some demo_picker)], 0) = Some (outs, g, w') \<and> policy_ok (g_policy g)"
proof -
  let ?ops = "[GGet rd0 5 demo_rpc ''k'', GSet rd0 100 False ''k'' (Some [7]), GStats]"
  from group_run_never_panics [where b = 1000 and z = "(\<lambda>n p. 64, \<lambda>m n. 0)" and peers = "Some demo_picker"
      and N = "{''a'', ''b'', ''c''}" and R = 2 and ops = ?ops and name = "''g''" and f = demo_getter and w = 0]
  show ?thesis using demo_opts_ok demo_picker_ok by (auto simp: word_le_nat_alt simp del: run_ops.simps)
qed

end
