(* ===== verification/Peer_Sync.thy ===== *)
theory Peer_Sync
  imports Group_Theorems Transitions
begin

text \<open>
  The goroutine \<open>syncToPeers\<close> of \<^verbatim>\<open>group.go\<close> with the goroutines it starts, one for each
  peer, step by step. The function makes a context with a timeout, starts the goroutines in a
  loop, and on its return the deferred \<open>cancel()\<close> cancels that context. A worker makes one remote
  call: \<open>Set\<close> under this context, \<open>Delete\<close> under one of its own. gRPC does not send a call whose
  context is done; a call that was sent ends with or without an error.

  The lemmas show that all goroutines end and leave the wait group as they found it, so that \<open>Close\<close>
  of the group is not held up; and that a \<open>Set\<close> is sent only by the workers that are scheduled
  before \<open>syncToPeers\<close> returns, so that a write can reach no peer at all although every peer is up.
\<close>

datatype worker = Spawned | Calling | NotSent | Sent bool

record sync_run =
  sy_task :: sync_task
  sy_peers :: nat
  sy_returned :: bool
  sy_cancelled :: bool
  sy_wg :: int
  sy_workers :: "worker list"

text \<open>The state after \<open>PickAllPeers\<close> and \<open>context.WithTimeout\<close>; \<open>wg\<close> is the counter of the wait group.\<close>

definition sync_begin :: "sync_task \<Rightarrow> nat \<Rightarrow> int \<Rightarrow> sync_run" where
  "sync_begin task n wg = \<lparr>sy_task = task, sy_peers = n, sy_returned = (n = 0), sy_cancelled = False, sy_wg = wg, sy_workers = []\<rparr>"

fun is_set :: "sync_task \<Rightarrow> bool" where
  "is_set (SyncSet key val) = True"
| "is_set (SyncDelete key) = False"

definition worker_to :: "nat \<Rightarrow> worker \<Rightarrow> sync_run \<Rightarrow> sync_run" where
  "worker_to i w s = s\<lparr>sy_workers := (sy_workers s)[i := w]\<rparr>"

definition wg_done :: "sync_run \<Rightarrow> sync_run" where
  "wg_done s = s\<lparr>sy_wg := sy_wg s - 1\<rparr>"

inductive sync_step :: "sync_run \<Rightarrow> sync_run \<Rightarrow> bool" where
  spawn: "\<not> sy_returned s \<Longrightarrow> length (sy_workers s) < sy_peers s \<Longrightarrow>
    sync_step s (s\<lparr>sy_wg := sy_wg s + 1, sy_workers := sy_workers s @ [Spawned]\<rparr>)"
| return: "\<not> sy_returned s \<Longrightarrow> length (sy_workers s) = sy_peers s \<Longrightarrow>
    sync_step s (s\<lparr>sy_returned := True, sy_cancelled := True\<rparr>)"
| expire: "\<not> sy_cancelled s \<Longrightarrow> \<not> sy_returned s \<Longrightarrow> sync_step s (s\<lparr>sy_cancelled := True\<rparr>)"
| call: "i < length (sy_workers s) \<Longrightarrow> sy_workers s ! i = Spawned \<Longrightarrow> \<not> (is_set (sy_task s) \<and> sy_cancelled s) \<Longrightarrow>
    sync_step s (worker_to i Calling s)"
| refused: "i < length (sy_workers s) \<Longrightarrow> sy_workers s ! i = Spawned \<Longrightarrow> is_set (sy_task s) \<Longrightarrow> sy_cancelled s \<Longrightarrow>
    sync_step s (wg_done (worker_to i NotSent s))"
| finish: "i < length (sy_workers s) \<Longrightarrow> sy_workers s ! i = Calling \<Longrightarrow>
    sync_step s (wg_done (worker_to i (Sent success) s))"

inductive_cases sync_stepE: "sync_step s s'"

text \<open>The start of a run is what \<^const>\<open>syncToPeers\<close> computes: one call for each peer, and the wait group that counts them.\<close>

definition sync_of :: "string list \<Rightarrow> sync_task \<Rightarrow> ('e, 'n, 'w) Group \<Rightarrow> sync_run" where
  "sync_of ks task g = sync_begin task (length (fst (syncToPeers ks task g))) (g_syncWG g)"

subsection \<open>The wait group\<close>

fun pending :: "worker \<Rightarrow> bool" where
  "pending Spawned = True"
| "pending Calling = True"
| "pending w = False"

definition wg_ok :: "int \<Rightarrow> sync_run \<Rightarrow> bool" where
  "wg_ok wg s \<longleftrightarrow> sy_wg s = wg + int (length (filter pending (sy_workers s))) \<and> length (sy_workers s) \<le> sy_peers s \<and>
     (sy_returned s \<longrightarrow> length (sy_workers s) = sy_peers s \<and> (sy_cancelled s \<or> sy_peers s = 0))"

fun worker_rank :: "worker \<Rightarrow> nat" where
  "worker_rank Spawned = 2"
| "worker_rank Calling = 1"
| "worker_rank w = 0"

definition sync_work :: "sync_run \<Rightarrow> nat" where
  "sync_work s = 3 * (sy_peers s - length (sy_workers s)) + sum_list (map worker_rank (sy_workers s)) +
     (if sy_returned s then 0 else 1) + (if sy_cancelled s \<or> sy_returned s then 0 else 1)"

definition sync_ended :: "sync_run \<Rightarrow> bool" where
  "sync_ended s \<longleftrightarrow> sy_returned s \<and> \<not> list_ex pending (sy_workers s)"

lemmas sync_defs = worker_to_def wg_done_def

lemma pending_update:
  assumes "i < length ws" and "pending (ws ! i)"
  shows "length (filter pending ws) = length (filter pending (ws[i := w])) + (if pending w then 0 else 1)"
  using length_filter_update [OF assms(1), of pending w] assms(2) by (auto split: if_splits)

lemma rank_update:
  assumes "i < length ws" and "worker_rank w < worker_rank (ws ! i)"
  shows "sum_list (map worker_rank (ws[i := w])) < sum_list (map worker_rank ws)"
proof -
  have "worker_rank (ws ! i) \<le> sum_list (map worker_rank ws)" using assms(1) by (intro member_le_sum_list) simp_all
  then show ?thesis using assms by (simp add: map_update sum_list_update)
qed

lemma wg_ok_step:
  assumes "wg_ok wg s" and "sync_step s s'"
  shows "wg_ok wg s'"
  using assms(2,1)
proof (induction rule: sync_step.induct)
  case (call i s)
  with pending_update [of i "sy_workers s" Calling] show ?case by (auto simp: wg_ok_def sync_defs)
next
  case (refused i s)
  with pending_update [of i "sy_workers s" NotSent] show ?case by (auto simp: wg_ok_def sync_defs)
next
  case (finish i s success)
  with pending_update [of i "sy_workers s" "Sent success"] show ?case by (auto simp: wg_ok_def sync_defs)
qed (auto simp: wg_ok_def)

lemma sync_work_step:
  assumes "wg_ok wg s" and "sync_step s s'"
  shows "sync_work s' < sync_work s"
  using assms(2,1)
proof (induction rule: sync_step.induct)
  case (call i s)
  with rank_update [of i "sy_workers s" Calling] show ?case by (simp add: sync_work_def sync_defs)
next
  case (refused i s)
  with rank_update [of i "sy_workers s" NotSent] show ?case by (simp add: sync_work_def sync_defs)
next
  case (finish i s success)
  with rank_update [of i "sy_workers s" "Sent success"] show ?case by (simp add: sync_work_def sync_defs)
qed (auto simp: sync_work_def wg_ok_def)

lemma sync_progress:
  assumes "wg_ok wg s" and "\<not> sync_ended s"
  shows "\<exists>s'. sync_step s s'"
proof (cases "sy_returned s")
  case False
  then show ?thesis using assms(1) unfolding wg_ok_def by (metis le_neq_implies_less return spawn)
next
  case True
  then obtain i where i: "i < length (sy_workers s)" "pending (sy_workers s ! i)"
    using assms(2) by (auto simp: sync_ended_def list_ex_length)
  then show ?thesis
    by (cases "sy_workers s ! i"; cases "is_set (sy_task s) \<and> sy_cancelled s") (auto intro: call refused finish)
qed

interpretation sync: ending_system "\<lambda>s. s = sync_begin task n wg" sync_step "wg_ok wg" sync_work sync_ended for task n wg
proof
  show "wg_ok wg s" if "s = sync_begin task n wg" for s using that by (simp add: wg_ok_def sync_begin_def)
qed (erule (1) wg_ok_step sync_work_step sync_progress)+

subsection \<open>What is sent\<close>

text \<open>A worker that has not started when the context is done never sends a \<open>Set\<close>.\<close>

definition silent :: "nat \<Rightarrow> sync_run \<Rightarrow> bool" where
  "silent i s \<longleftrightarrow> is_set (sy_task s) \<and> sy_cancelled s \<and> i < length (sy_workers s) \<and>
     (sy_workers s ! i = Spawned \<or> sy_workers s ! i = NotSent)"

lemma silent_step: "sync_step s s' \<Longrightarrow> silent i s \<Longrightarrow> silent i s'"
  by (induction rule: sync_step.induct) (auto simp: silent_def sync_defs nth_append nth_list_update)

lemma silent_steps: "rtranclp sync_step s s' \<Longrightarrow> silent i s \<Longrightarrow> silent i s'"
  by (induction rule: rtranclp_induct) (auto intro: silent_step)

text \<open>The schedule in which \<open>syncToPeers\<close> runs to its end before any of its workers.\<close>

lemma spawn_all:
  assumes "k \<le> n" and "0 < n"
  shows "rtranclp sync_step (sync_begin task n wg)
    (sync_begin task n wg\<lparr>sy_wg := wg + int k, sy_workers := replicate k Spawned\<rparr>)"
  using assms(1)
proof (induction k)
  case 0
  have "sync_begin task n wg\<lparr>sy_wg := wg + int 0, sy_workers := replicate 0 Spawned\<rparr> = sync_begin task n wg"
    by (simp add: sync_begin_def)
  then show ?case by simp
next
  case (Suc k)
  let ?s = "sync_begin task n wg\<lparr>sy_wg := wg + int k, sy_workers := replicate k Spawned\<rparr>"
  have "sync_step ?s (?s\<lparr>sy_wg := sy_wg ?s + 1, sy_workers := sy_workers ?s @ [Spawned]\<rparr>)"
    using Suc.prems assms(2) by (intro spawn) (simp_all add: sync_begin_def)
  moreover have "?s\<lparr>sy_wg := sy_wg ?s + 1, sy_workers := sy_workers ?s @ [Spawned]\<rparr> =
      sync_begin task n wg\<lparr>sy_wg := wg + int (Suc k), sy_workers := replicate (Suc k) Spawned\<rparr>"
    by (simp add: replicate_append_same)
  ultimately show ?case using Suc by (auto intro: rtranclp.rtrancl_into_rtrancl)
qed

text \<open>A delete that ended was sent.\<close>

lemma delete_sent:
  assumes "reach (\<lambda>s. s = sync_begin (SyncDelete key) n wg) sync_step s"
  shows "sy_task s = SyncDelete key \<and> sy_peers s = n \<and> NotSent \<notin> set (sy_workers s)"
  using assms
proof (induction rule: reach.induct)
  case (reach_step s s')
  from reach_step(2,3) show ?case
  proof (induction rule: sync_step.induct)
    case (call i s)
    then show ?case using set_update_subset_insert [of "sy_workers s" i Calling] by (auto simp: sync_defs)
  next
    case (finish i s success)
    then show ?case using set_update_subset_insert [of "sy_workers s" i "Sent success"] by (auto simp: sync_defs)
  qed (auto simp: sync_defs)
qed (simp add: sync_begin_def)

lemma all_silent_run:
  assumes "0 < n" and "is_set task"
  obtains s where "reach (\<lambda>s. s = sync_begin task n wg) sync_step s" "sync_ended s" "set (sy_workers s) = {NotSent}"
proof -
  let ?i = "sync_begin task n wg" let ?a = "?i\<lparr>sy_wg := wg + int n, sy_workers := replicate n Spawned\<rparr>"
  let ?b = "?a\<lparr>sy_returned := True, sy_cancelled := True\<rparr>"
  have "rtranclp sync_step ?i ?a" using spawn_all [of n n task wg] assms(1) by simp
  moreover have "sync_step ?a ?b" using assms(1) by (intro return) (simp_all add: sync_begin_def)
  ultimately have b: "rtranclp sync_step ?i ?b" by (rule rtranclp.rtrancl_into_rtrancl)
  have start: "reach (\<lambda>s. s = ?i) sync_step ?i" by (rule reach_start) simp
  have ok: "wg_ok wg ?b" using sync.reach_ok [OF reach_steps [OF b start]] .
  obtain s where s: "rtranclp sync_step ?b s" "sync_ended s" using sync.can_end [OF ok] by blast
  have silent: "silent i s" if "i < n" for i
    using that assms(2) by (intro silent_steps [OF s(1)]) (simp add: silent_def sync_begin_def)
  have r: "reach (\<lambda>s. s = ?i) sync_step s" using reach_steps [OF s(1) reach_steps [OF b start]] .
  have "sy_peers s' = sy_peers s" if "rtranclp sync_step s s'" for s s'
    using that by (induction rule: rtranclp_induct) (auto simp: sync_defs elim!: sync_stepE)
  from this [OF s(1)] have "length (sy_workers s) = n"
    using sync.reach_ok [OF r] s(2) by (simp add: wg_ok_def sync_ended_def sync_begin_def)
  moreover from this have "sy_workers s ! i = NotSent" if "i < n" for i
    using silent [OF that] s(2) that by (auto simp: silent_def sync_ended_def list_ex_length)
  ultimately have "sy_workers s = replicate n NotSent" by (simp add: list_eq_iff_nth_eq)
  with that r s(2) assms(1) show ?thesis by simp
qed

subsection \<open>Properties\<close>

text \<open>
  C18: the goroutines of a synchronisation all end. With \<open>n\<close> peers no run has more than \<open>3 n + 2\<close> steps,
  some goroutine can move until all have ended, and every state can be completed. The wait group
  never falls below its value at the start (so \<open>Done\<close> never panics) and is back at it at the end,
  whatever the peers answer: the \<open>Wait\<close> in \<open>Close\<close> returns.
\<close>

theorem sync_goroutines_end:
  "((sync_step ^^ k) (sync_of ks task g) s \<longrightarrow> k \<le> 3 * length (fst (syncToPeers ks task g)) + 2) \<and>
   (reach (\<lambda>s. s = sync_of ks task g) sync_step s \<longrightarrow>
     (sync_ended s \<or> (\<exists>s'. sync_step s s')) \<and> (\<exists>s'. rtranclp sync_step s s' \<and> sync_ended s') \<and>
     g_syncWG g \<le> sy_wg s \<and> (sync_ended s \<longrightarrow> sy_wg s = g_syncWG g))"
proof (intro conjI impI)
  let ?n = "length (fst (syncToPeers ks task g))" and ?wg = "g_syncWG g"
  show "k \<le> 3 * ?n + 2" if "(sync_step ^^ k) (sync_of ks task g) s"
  proof -
    have ok: "wg_ok ?wg (sync_of ks task g)" and w: "sync_work (sync_of ks task g) \<le> 3 * ?n + 2"
      by (simp_all add: sync_of_def sync_begin_def wg_ok_def sync_work_def)
    from sync.steps_bounded [OF that ok] w show ?thesis by simp
  qed
  assume r: "reach (\<lambda>s. s = sync_of ks task g) sync_step s"
  have ok: "wg_ok ?wg s" using sync.reach_ok [OF r [unfolded sync_of_def]] .
  show "sync_ended s \<or> (\<exists>s'. sync_step s s')" "\<exists>s'. rtranclp sync_step s s' \<and> sync_ended s'"
    using sync.progress [OF ok] sync.can_end [OF ok] by blast+
  show "?wg \<le> sy_wg s" using ok by (simp add: wg_ok_def)
  show "sy_wg s = ?wg" if "sync_ended s"
  proof -
    have "filter pending (sy_workers s) = []" using that by (auto simp: sync_ended_def list_ex_iff filter_empty_conv)
    with ok show ?thesis by (simp add: wg_ok_def)
  qed
qed

text \<open>
  C36: a synchronised write can reach nobody. The deferred \<open>cancel()\<close> runs when \<open>syncToPeers\<close> returns, right
  after it has started its workers; a worker that is scheduled later never sends its \<open>Set\<close>. For every
  group with at least one peer there is a complete run in which no peer is sent the write. A \<open>Delete\<close>
  has a context of its own: in every complete run it is sent to all peers.
\<close>

theorem sync_set_may_reach_nobody:
  assumes "fst (syncToPeers ks (SyncSet key val) g) \<noteq> []"
  shows "(\<exists>s. reach (\<lambda>s. s = sync_of ks (SyncSet key val) g) sync_step s \<and> sync_ended s \<and> set (sy_workers s) = {NotSent}) \<and>
    (\<forall>s s' i. reach (\<lambda>s. s = sync_of ks (SyncSet key val) g) sync_step s \<longrightarrow> sy_returned s \<longrightarrow> i < length (sy_workers s) \<longrightarrow>
      sy_workers s ! i = Spawned \<longrightarrow> rtranclp sync_step s s' \<longrightarrow> sy_workers s' ! i = Spawned \<or> sy_workers s' ! i = NotSent) \<and>
    (\<forall>s. reach (\<lambda>s. s = sync_of ks (SyncDelete key) g) sync_step s \<longrightarrow> sync_ended s \<longrightarrow>
      (\<forall>w \<in> set (sy_workers s). \<exists>success. w = Sent success) \<and> length (sy_workers s) = length (fst (syncToPeers ks (SyncDelete key) g)))"
proof (intro conjI allI impI)
  let ?n = "length (fst (syncToPeers ks (SyncSet key val) g))"
  show "\<exists>s. reach (\<lambda>s. s = sync_of ks (SyncSet key val) g) sync_step s \<and> sync_ended s \<and> set (sy_workers s) = {NotSent}"
    using all_silent_run [of ?n "SyncSet key val" "g_syncWG g"] assms unfolding sync_of_def by auto
  fix s s' i
  assume r: "reach (\<lambda>s. s = sync_of ks (SyncSet key val) g) sync_step s" and ret: "sy_returned s"
    and i: "i < length (sy_workers s)" "sy_workers s ! i = Spawned" and st: "rtranclp sync_step s s'"
  have "sy_task s = SyncSet key val"
    using r by (induction rule: reach.induct) (auto simp: sync_of_def sync_begin_def sync_defs elim!: sync_stepE)
  moreover have "sy_cancelled s" using sync.reach_ok [OF r [unfolded sync_of_def]] ret i(1) by (auto simp: wg_ok_def)
  ultimately have "silent i s" using i by (simp add: silent_def)
  from silent_steps [OF st this] show "sy_workers s' ! i = Spawned \<or> sy_workers s' ! i = NotSent" by (simp add: silent_def)
next
  fix s
  assume r: "reach (\<lambda>s. s = sync_of ks (SyncDelete key) g) sync_step s" and e: "sync_ended s"
  note d = delete_sent [OF r [unfolded sync_of_def]]
  show "\<forall>w \<in> set (sy_workers s). \<exists>success. w = Sent success"
  proof
    fix w
    assume w: "w \<in> set (sy_workers s)"
    then have "\<not> pending w" using e by (auto simp: sync_ended_def list_ex_iff)
    moreover have "w \<noteq> NotSent" using d w by auto
    ultimately show "\<exists>success. w = Sent success" by (cases w) auto
  qed
  show "length (sy_workers s) = length (fst (syncToPeers ks (SyncDelete key) g))"
    using sync.reach_ok [OF r [unfolded sync_of_def]] e d by (simp add: wg_ok_def sync_ended_def)
qed

subsection \<open>Witnesses\<close>

lemma demo_sync_calls: "length (fst (syncToPeers [''a'', ''b''] task demo_group)) = 2" "g_syncWG demo_group = 0"
proof -
  have "g_peers demo_group = Some demo_picker" "g_syncWG demo_group = 0" by (simp_all add: demo_group_def new_group_def Let_def)
  moreover have "length (PickAllPeers [''a'', ''b''] demo_picker) = 2"
    by (simp add: PickAllPeers_def List.map_filter_simps demo_picker_def demo_put_def handleWatchEvents_def handle_event_def
        picker_set_def NewClient_def Let_def)
  ultimately show "length (fst (syncToPeers [''a'', ''b''] task demo_group)) = 2" "g_syncWG demo_group = 0"
    by (simp_all add: syncToPeers_def)
qed

theorem sync_goroutines_end_witness:
  "\<exists>s. rtranclp sync_step (sync_of [''a'', ''b''] (SyncDelete ''k'') demo_group) s \<and> sync_ended s \<and> sy_wg s = 0"
proof -
  let ?i = "sync_of [''a'', ''b''] (SyncDelete ''k'') demo_group"
  have r: "reach (\<lambda>s. s = ?i) sync_step ?i" by (rule reach_start) simp
  from sync_goroutines_end [of 0 "[''a'', ''b'']" "SyncDelete ''k''" demo_group ?i] r
  obtain s where s: "rtranclp sync_step ?i s" "sync_ended s" by blast
  from sync_goroutines_end [of 0 "[''a'', ''b'']" "SyncDelete ''k''" demo_group s] reach_steps [OF s(1) r] s(2)
  have "sy_wg s = g_syncWG demo_group" by blast
  with s show ?thesis by (auto simp: demo_sync_calls)
qed

theorem sync_set_may_reach_nobody_witness:
  "\<exists>s. reach (\<lambda>s. s = sync_of [''a'', ''b''] (SyncSet ''k'' (Some [7])) demo_group) sync_step s \<and> sync_ended s \<and>
     set (sy_workers s) = {NotSent}"
proof -
  have "fst (syncToPeers [''a'', ''b''] (SyncSet ''k'' (Some [7])) demo_group) \<noteq> []"
    using demo_sync_calls(1) [of "SyncSet ''k'' (Some [7])"] by auto
  from sync_set_may_reach_nobody [OF this] show ?thesis by blast
qed

end
