(* ===== verification/Registration.thy ===== *)
theory Registration
  imports Peers
begin

text \<open>
  \<^verbatim>\<open>registry/register.go\<close> and the life cycle of \<^verbatim>\<open>server.go\<close>: the options of a server,
  its registration in etcd with the goroutine that renews or revokes the lease, and \<open>Start\<close> and
  \<open>Stop\<close>. The calls to etcd and to the network are outside: their outcomes are arguments. The
  variable \<open>DefaultServerOptions\<close> points to one object for the whole program, so it is state.

  The results: the addresses a node with an address of the form \<open>:port\<close> registers is not the one
  it knows itself by, so it becomes its own peer; \<open>Stop\<close> signals a channel nobody listens to, so a
  registration outlives its server; options given to one server change the defaults of the next.
\<close>

subsection \<open>Registration\<close>

text \<open>The network interfaces: an \<open>IPNet\<close> with its text, whether it is a loopback and an IPv4 address.\<close>

datatype net_addr = IPNet string bool bool | OtherAddr

primrec first_ip :: "net_addr list \<Rightarrow> string option" where
  "first_ip [] = None"
| "first_ip (x # xs) =
     (case x of
        IPNet ip loopback is4 \<Rightarrow> (if \<not> loopback \<and> is4 then Some ip else first_ip xs)
      | OtherAddr \<Rightarrow> first_ip xs)"

definition getLocalIP :: "net_addr list option \<Rightarrow> string option" where
  "getLocalIP addrs = (case addrs of None \<Rightarrow> None | Some xs \<Rightarrow> first_ip xs)"

text \<open>The outcomes of the calls to etcd, in their order.\<close>

record etcd_env =
  en_client :: bool
  en_addrs :: "net_addr list option"
  en_grant :: "nat option"
  en_put :: bool
  en_keepAlive :: bool

datatype register_error = ErrRegClient | ErrRegLocalIP | ErrRegLease | ErrRegPut | ErrRegKeepAlive

record registration =
  re_key :: string
  re_value :: string
  re_lease :: nat

text \<open>\<open>None\<close>: the panic of \<open>addr[0]\<close> on the empty address.\<close>

definition full_addr :: "string \<Rightarrow> string \<Rightarrow> string option" where
  "full_addr localIP addr =
     (case addr of [] \<Rightarrow> None | c # _ \<Rightarrow> Some (if c = CHR '':'' then localIP @ addr else addr))"

definition Register :: "etcd_env \<Rightarrow> string \<Rightarrow> string \<Rightarrow> (register_error + registration) option" where
  "Register env svcName addr =
     (if \<not> en_client env then Some (Inl ErrRegClient)
      else case getLocalIP (en_addrs env) of
        None \<Rightarrow> Some (Inl ErrRegLocalIP)
      | Some localIP \<Rightarrow> do {
          addr \<leftarrow> full_addr localIP addr;
          Some (case en_grant env of
            None \<Rightarrow> Inl ErrRegLease
          | Some lease \<Rightarrow>
              if \<not> en_put env then Inl ErrRegPut
              else if \<not> en_keepAlive env then Inl ErrRegKeepAlive
              else Inr \<lparr>re_key = service_key svcName addr, re_value = addr, re_lease = lease\<rparr>)
        })"

lemma Register_returns: "addr \<noteq> [] \<Longrightarrow> \<exists>r. Register env svcName addr = Some r"
  by (cases addr; cases "getLocalIP (en_addrs env)"; cases "en_client env") (auto simp: Register_def full_addr_def)

text \<open>The goroutine of a registration: it revokes the lease when its channel is closed, and ends when the lease is lost.\<close>

datatype lease_state = Renewing | Revoked | Lost

datatype lease_event = KeepAliveReply | KeepAliveClosed | StopSeen

definition lease_step :: "bool \<Rightarrow> lease_event \<Rightarrow> lease_state \<Rightarrow> lease_state" where
  "lease_step stopCh_closed ev st =
     (if st \<noteq> Renewing then st
      else case ev of
        KeepAliveReply \<Rightarrow> Renewing
      | KeepAliveClosed \<Rightarrow> Lost
      | StopSeen \<Rightarrow> (if stopCh_closed then Revoked else Renewing))"

subsection \<open>Options\<close>

record ServerOptions =
  so_EtcdEndpoints :: "string list"
  so_DialTimeout :: int
  so_MaxMsgSize :: int
  so_TLS :: bool
  so_CertFile :: string
  so_KeyFile :: string

definition DefaultServerOptions :: ServerOptions where
  "DefaultServerOptions = \<lparr>so_EtcdEndpoints = [''localhost:2379''], so_DialTimeout = 5000000000, so_MaxMsgSize = 4 * 2 ^ 20,
     so_TLS = False, so_CertFile = [], so_KeyFile = []\<rparr>"

datatype ServerOption = WithEtcdEndpoints "string list" | WithDialTimeout int | WithTLS string string

primrec apply_server_option :: "ServerOption \<Rightarrow> ServerOptions \<Rightarrow> ServerOptions" where
  "apply_server_option (WithEtcdEndpoints es) opts = opts\<lparr>so_EtcdEndpoints := es\<rparr>"
| "apply_server_option (WithDialTimeout d) opts = opts\<lparr>so_DialTimeout := d\<rparr>"
| "apply_server_option (WithTLS cert key) opts = opts\<lparr>so_TLS := True, so_CertFile := cert, so_KeyFile := key\<rparr>"

subsection \<open>Life cycle\<close>

text \<open>
  The gRPC server as far as \<open>NewServer\<close> sets it up: the message limit, the certificates (of an
  arbitrary type \<open>'c\<close>) of its TLS configuration, the registered services and the states its health
  service reports.
\<close>

datatype grpc_service = SaokaCacheService | HealthService

datatype serving_status = SERVING | NOT_SERVING

record 'c grpc_server =
  gp_MaxRecvMsgSize :: int
  gp_Certificates :: "'c list option"
  gp_services :: "grpc_service list"
  gp_health :: "(string, serving_status) gomap"
  gp_stopped :: bool

text \<open>\<open>load\<close> is \<open>tls.LoadX509KeyPair\<close>.\<close>

definition loadTLSCredentials :: "(string \<Rightarrow> string \<Rightarrow> 'c option) \<Rightarrow> string \<Rightarrow> string \<Rightarrow> 'c list option" where
  "loadTLSCredentials load certFile keyFile = (case load certFile keyFile of None \<Rightarrow> None | Some cert \<Rightarrow> Some [cert])"

text \<open>
  One registration per \<open>Start\<close>, with the channel made there: whether it is closed, and the state of
  its goroutine once \<open>Register\<close> has succeeded.
\<close>

record 'c Server =
  sv_addr :: string
  sv_svcName :: string
  sv_grpcServer :: "'c grpc_server"
  sv_opts :: ServerOptions
  sv_stopCh_closed :: bool
  sv_etcd_closed :: bool
  sv_registrations :: "(bool \<times> (registration \<times> lease_state) option) list"

datatype server_new_error = ErrServerEtcd | ErrServerTLS

text \<open>
  \<open>defaults\<close> is the object \<open>DefaultServerOptions\<close> points to, before and after; \<open>etcd\<close> is the outcome of
  creating the etcd client for the options.
\<close>

definition grpc_credentials :: "(string \<Rightarrow> string \<Rightarrow> 'c option) \<Rightarrow> ServerOptions \<Rightarrow> server_new_error + 'c list option" where
  "grpc_credentials load options =
     (if so_TLS options then
        (case loadTLSCredentials load (so_CertFile options) (so_KeyFile options) of
           None \<Rightarrow> Inl ErrServerTLS
         | Some creds \<Rightarrow> Inr (Some creds))
      else Inr None)"

definition NewServer ::
  "(ServerOptions \<Rightarrow> bool) \<Rightarrow> (string \<Rightarrow> string \<Rightarrow> 'c option) \<Rightarrow> string \<Rightarrow> string \<Rightarrow> ServerOption list \<Rightarrow> ServerOptions
    \<Rightarrow> (server_new_error + 'c Server) \<times> ServerOptions" where
  "NewServer etcd load addr svcName opts defaults =
     (let options = fold apply_server_option opts defaults in
      (if \<not> etcd options then Inl ErrServerEtcd
       else case grpc_credentials load options of
         Inl err \<Rightarrow> Inl err
       | Inr creds \<Rightarrow>
           Inr \<lparr>sv_addr = addr, sv_svcName = svcName,
                sv_grpcServer = \<lparr>gp_MaxRecvMsgSize = so_MaxMsgSize options, gp_Certificates = creds,
                  gp_services = [SaokaCacheService, HealthService], gp_health = [(svcName, SERVING)], gp_stopped = False\<rparr>,
                sv_opts = options, sv_stopCh_closed = False, sv_etcd_closed = False, sv_registrations = []\<rparr>,
       options))"

text \<open>
  \<open>Start\<close>: \<open>None\<close> is the panic of \<open>Register\<close> in its goroutine. The result tells whether the server
  serves; \<open>Serve\<close> of a stopped server returns an error at once, when the registration has started.
\<close>

definition Server_Start :: "bool \<Rightarrow> etcd_env \<Rightarrow> 'c Server \<Rightarrow> (bool \<times> 'c Server) option" where
  "Server_Start listen env s =
     (if \<not> listen then Some (False, s)
      else do {
        r \<leftarrow> Register env (sv_svcName s) (sv_addr s);
        Some (\<not> gp_stopped (sv_grpcServer s), s\<lparr>sv_registrations := sv_registrations s @
          [case r of Inl err \<Rightarrow> (True, None) | Inr reg \<Rightarrow> (False, Some (reg, Renewing))]\<rparr>)
      })"

text \<open>\<open>None\<close>: closing a closed channel panics.\<close>

definition Server_Stop :: "'c Server \<Rightarrow> 'c Server option" where
  "Server_Stop s =
     (if sv_stopCh_closed s then None
      else Some (s\<lparr>sv_stopCh_closed := True, sv_grpcServer := (sv_grpcServer s)\<lparr>gp_stopped := True\<rparr>, sv_etcd_closed := True\<rparr>))"

definition renew :: "nat \<Rightarrow> lease_event \<Rightarrow> 'c Server \<Rightarrow> 'c Server" where
  "renew j ev s =
     (if j < length (sv_registrations s) then
        (case sv_registrations s ! j of
           (closed, Some (reg, st)) \<Rightarrow> s\<lparr>sv_registrations := (sv_registrations s)[j := (closed, Some (reg, lease_step closed ev st))]\<rparr>
         | _ \<Rightarrow> s)
      else s)"

datatype server_op = OStart bool etcd_env | OStop | ORenew nat lease_event

primrec server_step :: "server_op \<Rightarrow> 'c Server \<Rightarrow> (unit \<times> 'c Server) option" where
  "server_step (OStart listen env) s = map_option (\<lambda>(_, s). ((), s)) (Server_Start listen env s)"
| "server_step OStop s = map_option (Pair ()) (Server_Stop s)"
| "server_step (ORenew j ev) s = Some ((), renew j ev s)"

subsection \<open>Registrations outlive their server\<close>

text \<open>The channel of a registration that succeeded is open, and its lease was not revoked.\<close>

fun reg_open :: "bool \<times> (registration \<times> lease_state) option \<Rightarrow> bool" where
  "reg_open (closed, None) = True"
| "reg_open (closed, Some (reg, st)) = (\<not> closed \<and> st \<noteq> Revoked)"

definition never_revoked :: "'c Server \<Rightarrow> bool" where
  "never_revoked s \<longleftrightarrow> (\<forall>r \<in> set (sv_registrations s). reg_open r)"

lemma reg_open_step: "reg_open (closed, Some (reg, st)) \<Longrightarrow> reg_open (closed, Some (reg, lease_step closed ev st))"
  by (auto simp: lease_step_def split: lease_event.split)

lemma never_revoked_renew:
  assumes "never_revoked s"
  shows "never_revoked (renew j ev s)"
proof (cases "j < length (sv_registrations s) \<and> snd (sv_registrations s ! j) \<noteq> None")
  case True
  then obtain closed reg st where r: "sv_registrations s ! j = (closed, Some (reg, st))"
    by (cases "sv_registrations s ! j") auto
  have "sv_registrations s ! j \<in> set (sv_registrations s)" using True by simp
  then have "reg_open (closed, Some (reg, st))" using assms unfolding r never_revoked_def by blast
  then have "reg_open (closed, Some (reg, lease_step closed ev st))" by (rule reg_open_step)
  moreover have "renew j ev s = s\<lparr>sv_registrations := (sv_registrations s)[j := (closed, Some (reg, lease_step closed ev st))]\<rparr>"
    using True r by (simp add: renew_def)
  ultimately show ?thesis using assms set_update_subset_insert [of "sv_registrations s" j] unfolding never_revoked_def by fastforce
next
  case False
  then have "renew j ev s = s"
    by (cases "sv_registrations s ! j"; cases "snd (sv_registrations s ! j)") (auto simp: renew_def)
  with assms show ?thesis by simp
qed

lemma never_revoked_step:
  assumes "never_revoked s" and "server_step x s = Some (u, s')"
  shows "never_revoked s'"
proof (cases x)
  case (OStart listen env)
  with assms show ?thesis
    by (auto simp: Server_Start_def never_revoked_def split: if_splits sum.splits bind_splits)
next
  case OStop
  with assms show ?thesis by (auto simp: Server_Stop_def never_revoked_def split: if_splits)
next
  case (ORenew j ev)
  with assms(2) never_revoked_renew [OF assms(1), of j ev] show ?thesis by simp
qed

lemma never_revoked_run: "never_revoked s \<Longrightarrow> run_ops server_step ops s = Some (outs, s') \<Longrightarrow> never_revoked s'"
proof (induction ops arbitrary: s outs)
  case (Cons x ops)
  then obtain u s1 outs' where s1: "server_step x s = Some (u, s1)" "run_ops server_step ops s1 = Some (outs', s')"
    by (auto split: bind_splits)
  show ?case using Cons.IH [OF never_revoked_step [OF Cons.prems(1) s1(1)] s1(2)] .
qed simp

subsection \<open>Properties\<close>

text \<open>
  C40: a registration is never revoked. \<open>Stop\<close> closes the channel of the server, but \<open>Start\<close> gave
  \<open>Register\<close> a channel of its own, which is closed only when \<open>Register\<close> fails. After every sequence
  of starts, stops and messages of etcd the lease of a successful registration is renewing or
  lost, never revoked: the goroutine goes on renewing the entry of a stopped server.
\<close>

theorem stop_never_revokes:
  assumes "NewServer etcd load addr svcName opts defaults = (Inr s, defaults')" and "run_ops server_step ops s = Some (outs, s')"
    and "j < length (sv_registrations s')" and "sv_registrations s' ! j = (closed, Some (reg, st))"
  shows "st \<noteq> Revoked \<and> (\<forall>s'' ev. Server_Stop s' = Some s'' \<longrightarrow> ev \<noteq> KeepAliveClosed \<longrightarrow> st = Renewing \<longrightarrow>
    snd (sv_registrations (renew j ev s'') ! j) = Some (reg, Renewing))"
proof -
  have "never_revoked s" using assms(1) by (auto simp: NewServer_def never_revoked_def Let_def split: if_splits sum.splits)
  then have "never_revoked s'" using assms(2) by (rule never_revoked_run)
  then have "reg_open (sv_registrations s' ! j)" using assms(3) by (simp add: never_revoked_def)
  then have "\<not> closed \<and> st \<noteq> Revoked" by (simp add: assms(4))
  then show ?thesis using assms(3,4)
    by (auto simp: Server_Stop_def renew_def lease_step_def split: if_splits lease_event.split)
qed

definition demo_env :: etcd_env where
  "demo_env = \<lparr>en_client = True, en_addrs = Some [IPNet ''127.0.0.1'' True True, IPNet ''10.0.0.1'' False True], en_grant = Some 7,
     en_put = True, en_keepAlive = True\<rparr>"

definition demo_server :: "unit Server" where
  "demo_server = \<lparr>sv_addr = '':8001'', sv_svcName = ''saoka-cache'',
     sv_grpcServer = \<lparr>gp_MaxRecvMsgSize = 4 * 2 ^ 20, gp_Certificates = None, gp_services = [SaokaCacheService, HealthService],
       gp_health = [(''saoka-cache'', SERVING)], gp_stopped = False\<rparr>,
     sv_opts = DefaultServerOptions, sv_stopCh_closed = False, sv_etcd_closed = False, sv_registrations = []\<rparr>"

theorem stop_never_revokes_witness:
  "\<exists>outs s'. run_ops server_step [OStart True demo_env, OStop, ORenew 0 StopSeen] demo_server = Some (outs, s') \<and>
     (\<exists>closed reg st. sv_registrations s' ! 0 = (closed, Some (reg, st)) \<and> re_value reg = ''10.0.0.1:8001'' \<and> st \<noteq> Revoked)"
proof -
  let ?reg = "\<lparr>re_key = service_key ''saoka-cache'' ''10.0.0.1:8001'', re_value = ''10.0.0.1:8001'', re_lease = 7\<rparr>"
  let ?s = "demo_server\<lparr>sv_stopCh_closed := True, sv_grpcServer := (sv_grpcServer demo_server)\<lparr>gp_stopped := True\<rparr>, sv_etcd_closed := True,
    sv_registrations := [(False, Some (?reg, Renewing))]\<rparr>"
  have 1: "NewServer (\<lambda>_. True) (\<lambda>_ _. None) '':8001'' ''saoka-cache'' [] DefaultServerOptions = (Inr demo_server, DefaultServerOptions)"
    by (simp add: NewServer_def grpc_credentials_def demo_server_def DefaultServerOptions_def Let_def)
  have 2: "run_ops server_step [OStart True demo_env, OStop, ORenew 0 StopSeen] demo_server = Some ([(), (), ()], ?s)"
    by (simp add: demo_server_def demo_env_def Server_Start_def Server_Stop_def Register_def getLocalIP_def full_addr_def renew_def lease_step_def)
  from stop_never_revokes [OF 1 2, of 0 False ?reg Renewing] 2 show ?thesis by auto
qed

text \<open>
  A node with an address of the form \<open>:port\<close> becomes its own peer. \<open>Register\<close> completes the address with
  the local IP address before it writes it to etcd, but the picker recognises its own node by the
  address it was given: the event of its own registration makes it dial itself and put itself on
  the ring and among the peers it synchronises writes to.
\<close>

theorem node_becomes_own_peer:
  assumes "Register env svcName (CHR '':'' # port) = Some (Inr reg)" and "getLocalIP (en_addrs env) = Some ip" and "ip \<noteq> []" and "hd ip \<noteq> CHR '':''"
    and "picker_ok N R p" and "pk_selfAddr p = CHR '':'' # port" and "re_value reg \<in> N" and "map_of (pk_clients p) (re_value reg) = None"
  shows "\<exists>c. let p' = handleWatchEvents [(\<lparr>ev_Type = EventTypePut, ev_Key = re_key reg, ev_Value = re_value reg\<rparr>, Some conn)] p in
    re_value reg = ip @ CHR '':'' # port \<and> picker_ok N R p' \<and> map_of (pk_clients p') (re_value reg) = Some c \<and>
    (re_value reg \<in> set ks \<longrightarrow> c \<in> set (PickAllPeers ks p'))"
proof -
  let ?ev = "(\<lparr>ev_Type = EventTypePut, ev_Key = re_key reg, ev_Value = re_value reg\<rparr>, Some conn)"
  have v: "re_value reg = ip @ CHR '':'' # port"
    using assms(1,2) by (auto simp: Register_def full_addr_def split: if_splits option.splits)
  have ne: "re_value reg \<noteq> pk_selfAddr p" unfolding v assms(6) using assms(3,4) by (cases ip) auto
  let ?p = "handleWatchEvents [?ev] p"
  have p: "?p = picker_set (Some conn) (re_value reg) p" using ne assms(8) by (simp add: handleWatchEvents_def handle_event_def Let_def)
  have "map_of (pk_clients ?p) (re_value reg) = Some \<lparr>cl_addr = re_value reg, cl_svcName = pk_svcName p, cl_etcdCli = pk_etcdCli p, cl_conn = conn\<rparr>"
    unfolding p by (simp add: picker_set_def NewClient_def)
  moreover have "picker_ok N R ?p" using handleWatchEvents_ok [OF assms(5), of "[?ev]"] assms(7) by simp
  moreover have "re_value reg \<noteq> pk_selfAddr ?p" using ne by simp
  ultimately show ?thesis using v unfolding Let_def mem_PickAllPeers by blast
qed

theorem node_becomes_own_peer_witness:
  "\<exists>reg c. Register demo_env ''saoka-cache'' '':8001'' = Some (Inr reg) \<and> re_value reg = ''10.0.0.1:8001'' \<and>
    c \<in> set (PickAllPeers [''10.0.0.1:8001'']
      (handleWatchEvents [(\<lparr>ev_Type = EventTypePut, ev_Key = re_key reg, ev_Value = re_value reg\<rparr>, Some (0::nat))]
        \<lparr>pk_selfAddr = '':8001'', pk_svcName = ''saoka-cache'', pk_consHash = Map_New demo_cfg, pk_clients = [], pk_etcdCli = (), pk_cancelled = False, pk_closed = []\<rparr>))"
proof -
  let ?a = "''10.0.0.1:8001''"
  let ?reg = "\<lparr>re_key = service_key ''saoka-cache'' ?a, re_value = ?a, re_lease = 7\<rparr>"
  let ?p = "\<lparr>pk_selfAddr = '':8001'', pk_svcName = ''saoka-cache'', pk_consHash = Map_New demo_cfg, pk_clients = [], pk_etcdCli = (), pk_cancelled = False, pk_closed = []\<rparr>
    :: (unit, nat) ClientPicker"
  have r: "Register demo_env ''saoka-cache'' '':8001'' = Some (Inr ?reg)" "getLocalIP (en_addrs demo_env) = Some ''10.0.0.1''"
    by (simp_all add: demo_env_def Register_def getLocalIP_def full_addr_def)
  have "distinct (map (\<lambda>(n, i). vhash demo_cfg n i) [(?a, 0), (?a, 1)])" by code_simp
  moreover have "{?a} \<times> {..<nat 2} = set [(?a, 0), (?a, 1)]" by (auto simp: numeral_2_eq_2 less_Suc_eq)
  ultimately have "no_collision demo_cfg {?a} 2" unfolding no_collision_def by (simp only: distinct_map)
  then have "picker_ok {?a} 2 ?p" using demo_config_ok by (rule empty_picker_ok)
  from node_becomes_own_peer [OF r(1,2) _ _ this, of 0 "[?a]"] r(1) show ?thesis by (auto simp: Let_def)
qed

text \<open>
  Options leak into later servers. \<open>NewServer\<close> applies its options to the object that
  \<open>DefaultServerOptions\<close> points to: after a server with TLS was created, a server created without
  options requires the same certificates.
\<close>

lemma server_options_leak:
  assumes "load cert key = None"
  shows "fst (NewServer etcd load addr2 svc2 [] (snd (NewServer etcd' load' addr svc [WithTLS cert key] DefaultServerOptions))) =
     Inl (if etcd (DefaultServerOptions\<lparr>so_TLS := True, so_CertFile := cert, so_KeyFile := key\<rparr>) then ErrServerTLS else ErrServerEtcd)"
  using assms by (simp add: NewServer_def DefaultServerOptions_def grpc_credentials_def loadTLSCredentials_def Let_def)

end
