(* ===== verification/Discovery.thy ===== *)
theory Discovery
  imports Registration Transitions
begin

text \<open>
  Service discovery as a system: servers register in etcd (\<^verbatim>\<open>registry/register.go\<close>), leases
  end, and nodes learn of both through the first fetch and the watch of their picker
  (\<^verbatim>\<open>peers.go\<close>, \<open>startServiceDiscovery\<close> and \<open>watchServiceChanges\<close>). etcd is a sequence of events
  under the keys of one service: a fetch yields the pairs that are live, a watch yields the events
  from the moment on at which it is opened, in order and in batches of any size, and a deletion is
  reported without a value. The loop of the watch ends when the picker is closed; when etcd closes
  the channel of the watch, a receive yields at once a response without events.

  The lemmas show that a node that has caught up knows every live service; that two things can go
  wrong: what is registered between the fetch and the opening of the watch is missed, and a closed
  channel leaves the loop spinning without ever seeing an event again; and, on nodes that agree on
  the services, where the picks of the nodes lead.
\<close>

subsection \<open>etcd\<close>

definition put_event :: "registration \<Rightarrow> etcd_event" where
  "put_event reg = \<lparr>ev_Type = EventTypePut, ev_Key = re_key reg, ev_Value = re_value reg\<rparr>"

definition delete_event :: "string \<Rightarrow> etcd_event" where
  "delete_event key = \<lparr>ev_Type = EventTypeDelete, ev_Key = key, ev_Value = []\<rparr>"

definition etcd_apply :: "etcd_event \<Rightarrow> (string, string) gomap \<Rightarrow> (string, string) gomap" where
  "etcd_apply ev m =
     (case ev_Type ev of EventTypePut \<Rightarrow> AList.update (ev_Key ev) (ev_Value ev) m | EventTypeDelete \<Rightarrow> AList.delete (ev_Key ev) m)"

definition etcd_kvs :: "etcd_event list \<Rightarrow> (string, string) gomap" where
  "etcd_kvs log = fold etcd_apply log []"

text \<open>The prefix of \<open>Get\<close> and \<open>Watch\<close>, which does not end with a slash.\<close>

definition under_prefix :: "string \<Rightarrow> string \<Rightarrow> bool" where
  "under_prefix svc key = (let pre = ''/services/'' @ svc in take (length pre) key = pre)"

subsection \<open>Nodes\<close>

datatype watch_state = NotWatching | Watching nat | ChannelClosed | WatchStopped

record ('e, 'n) watcher =
  wt_picker :: "('e, 'n) ClientPicker"
  wt_fetched :: nat
  wt_opened :: nat
  wt_state :: watch_state

record ('e, 'n) discovery =
  dc_log :: "etcd_event list"
  dc_nodes :: "('e, 'n) watcher list"

text \<open>
  \<open>startServiceDiscovery\<close>: the fetch; the goroutine of the watch starts later. \<open>dial\<close> is the outcome of
  dialling an address.
\<close>

definition fetched_kvs :: "string \<Rightarrow> (string \<Rightarrow> 'n option) \<Rightarrow> etcd_event list \<Rightarrow> ((string \<times> string) \<times> 'n option) list" where
  "fetched_kvs svc dial log = map (\<lambda>kv. (kv, dial (snd kv))) (filter (\<lambda>kv. under_prefix svc (fst kv)) (etcd_kvs log))"

definition startServiceDiscovery ::
  "Config \<Rightarrow> string \<Rightarrow> (string \<Rightarrow> 'n option) \<Rightarrow> 'e \<Rightarrow> string \<Rightarrow> etcd_event list \<Rightarrow> picker_error + ('e, 'n) watcher" where
  "startServiceDiscovery cfg svc dial e self log =
     (case NewClientPicker cfg self [WithServiceName svc] (Some e) (Some (fetched_kvs svc dial log)) of
        Inl err \<Rightarrow> Inl err
      | Inr p \<Rightarrow> Inr \<lparr>wt_picker = p, wt_fetched = length log, wt_opened = 0, wt_state = NotWatching\<rparr>)"

text \<open>The events of one response: those under the prefix among the next \<open>n\<close>.\<close>

definition watch_batch :: "string \<Rightarrow> (string \<Rightarrow> 'n option) \<Rightarrow> nat \<Rightarrow> nat \<Rightarrow> etcd_event list \<Rightarrow> (etcd_event \<times> 'n option) list" where
  "watch_batch svc dial pos n log =
     map (\<lambda>ev. (ev, dial (ev_Value ev))) (filter (\<lambda>ev. under_prefix svc (ev_Key ev)) (take n (drop pos log)))"

text \<open>One step of \<open>watchServiceChanges\<close>; \<open>choice\<close> is what \<open>select\<close> and etcd do next.\<close>

datatype watch_choice = OpenWatch | Response nat | ChannelCloses | SeeDone

definition watchServiceChanges ::
  "string \<Rightarrow> (string \<Rightarrow> 'n option) \<Rightarrow> etcd_event list \<Rightarrow> watch_choice \<Rightarrow> ('e, 'n) watcher \<Rightarrow> ('e, 'n) watcher option" where
  "watchServiceChanges svc dial log choice w =
     (case (wt_state w, choice) of
        (NotWatching, OpenWatch) \<Rightarrow> Some (w\<lparr>wt_opened := length log, wt_state := Watching (length log)\<rparr>)
      | (Watching pos, Response n) \<Rightarrow>
          if 0 < n \<and> pos + n \<le> length log
          then Some (w\<lparr>wt_picker := handleWatchEvents (watch_batch svc dial pos n log) (wt_picker w), wt_state := Watching (pos + n)\<rparr>)
          else None
      | (Watching pos, ChannelCloses) \<Rightarrow> Some (w\<lparr>wt_state := ChannelClosed\<rparr>)
      | (ChannelClosed, Response n) \<Rightarrow> Some (w\<lparr>wt_picker := handleWatchEvents [] (wt_picker w)\<rparr>)
      | (WatchStopped, _) \<Rightarrow> None
      | (_, SeeDone) \<Rightarrow> if pk_cancelled (wt_picker w) \<and> wt_state w \<noteq> NotWatching then Some (w\<lparr>wt_state := WatchStopped\<rparr>) else None
      | _ \<Rightarrow> None)"

inductive disc_step ::
  "Config \<Rightarrow> string set \<Rightarrow> string \<Rightarrow> (string \<Rightarrow> 'n option) \<Rightarrow> 'e \<Rightarrow> ('e, 'n) discovery \<Rightarrow> ('e, 'n) discovery \<Rightarrow> bool"
  for cfg N svc dial e where
  register: "Register env svc addr = Some (Inr reg) \<Longrightarrow> re_value reg \<in> N \<Longrightarrow>
    disc_step cfg N svc dial e s (s\<lparr>dc_log := dc_log s @ [put_event reg]\<rparr>)"
| lease_ends: "map_of (etcd_kvs (dc_log s)) key \<noteq> None \<Longrightarrow>
    disc_step cfg N svc dial e s (s\<lparr>dc_log := dc_log s @ [delete_event key]\<rparr>)"
| join: "startServiceDiscovery cfg svc dial e self (dc_log s) = Inr w \<Longrightarrow>
    disc_step cfg N svc dial e s (s\<lparr>dc_nodes := dc_nodes s @ [w]\<rparr>)"
| watch: "i < length (dc_nodes s) \<Longrightarrow> watchServiceChanges svc dial (dc_log s) choice (dc_nodes s ! i) = Some w \<Longrightarrow>
    disc_step cfg N svc dial e s (s\<lparr>dc_nodes := (dc_nodes s)[i := w]\<rparr>)"
| close: "i < length (dc_nodes s) \<Longrightarrow> picker_Close fails etcd_fails ks (wt_picker (dc_nodes s ! i)) = (errs, p) \<Longrightarrow>
    disc_step cfg N svc dial e s (s\<lparr>dc_nodes := (dc_nodes s)[i := (dc_nodes s ! i)\<lparr>wt_picker := p\<rparr>]\<rparr>)"

definition disc_start :: "('e, 'n) discovery \<Rightarrow> bool" where
  "disc_start s \<longleftrightarrow> s = \<lparr>dc_log = [], dc_nodes = []\<rparr>"

subsection \<open>The events of one service\<close>

text \<open>Every event is the registration of an address under its own key, or the end of one.\<close>

definition event_ok :: "string set \<Rightarrow> string \<Rightarrow> etcd_event \<Rightarrow> bool" where
  "event_ok N svc ev \<longleftrightarrow> (\<exists>a \<in> N. a \<noteq> [] \<and> ev_Key ev = service_key svc a \<and>
     ev_Value ev = (case ev_Type ev of EventTypePut \<Rightarrow> a | EventTypeDelete \<Rightarrow> []))"

definition registered :: "string \<Rightarrow> etcd_event list \<Rightarrow> string \<Rightarrow> bool" where
  "registered svc log a \<longleftrightarrow> map_of (etcd_kvs log) (service_key svc a) = Some a"

definition put_of :: "string \<Rightarrow> etcd_event \<Rightarrow> bool" where
  "put_of a ev \<longleftrightarrow> ev_Type ev = EventTypePut \<and> ev_Value ev = a"

lemma service_key_prefix [simp]: "under_prefix svc (service_key svc a)"
  by (simp add: under_prefix_def service_key_def)

lemma service_key_inj: "service_key svc a = service_key svc b \<Longrightarrow> a = b"
  by (simp add: service_key_def)

lemma etcd_kvs_snoc: "etcd_kvs (log @ [ev]) = etcd_apply ev (etcd_kvs log)"
  by (simp add: etcd_kvs_def)

lemma map_of_etcd_apply:
  "map_of (etcd_apply ev m) = (map_of m)(ev_Key ev := (if ev_Type ev = EventTypePut then Some (ev_Value ev) else None))"
  by (simp add: etcd_apply_def split: event_type.split)

lemma etcd_kvs_ok:
  assumes "list_all (event_ok N svc) log"
  shows "gomap_ok (etcd_kvs log)" and "map_of (etcd_kvs log) k = Some v \<Longrightarrow> k = service_key svc v \<and> v \<in> N \<and> v \<noteq> []"
proof -
  show "gomap_ok (etcd_kvs log)"
    by (induction log rule: rev_induct) (simp_all add: etcd_kvs_def etcd_apply_def split: event_type.split)
  show "map_of (etcd_kvs log) k = Some v \<Longrightarrow> k = service_key svc v \<and> v \<in> N \<and> v \<noteq> []"
    using assms
  proof (induction log rule: rev_induct)
    case (snoc ev log)
    have ev: "event_ok N svc ev" and ih: "map_of (etcd_kvs log) k = Some v \<Longrightarrow> k = service_key svc v \<and> v \<in> N \<and> v \<noteq> []"
      using snoc by simp_all
    show ?case
    proof (cases "k = ev_Key ev")
      case True
      then have "ev_Type ev = EventTypePut" "v = ev_Value ev"
        using snoc.prems(1) by (simp_all add: etcd_kvs_snoc map_of_etcd_apply split: if_splits)
      with True ev show ?thesis by (auto simp: event_ok_def)
    next
      case False
      with snoc.prems(1) ih show ?thesis by (simp add: etcd_kvs_snoc map_of_etcd_apply)
    qed
  qed (simp add: etcd_kvs_def)
qed

text \<open>What is live after more events was live before or is put by one of them.\<close>

lemma fold_apply_live:
  "map_of (fold etcd_apply evs m) k = Some v \<Longrightarrow>
    map_of m k = Some v \<or> (\<exists>ev \<in> set evs. ev_Type ev = EventTypePut \<and> ev_Key ev = k \<and> ev_Value ev = v)"
proof (induction evs arbitrary: m)
  case (Cons ev evs)
  from Cons.IH [of "etcd_apply ev m"] Cons.prems show ?case by (auto simp: map_of_etcd_apply split: if_splits)
qed simp

lemma live_append:
  assumes "registered svc (log @ evs) a"
  shows "registered svc log a \<or> (\<exists>ev \<in> set evs. put_of a ev)"
  using fold_apply_live [of evs "etcd_kvs log" "service_key svc a" a] assms
  by (auto simp: registered_def etcd_kvs_def put_of_def)

text \<open>Without deletions, what was ever put is live.\<close>

lemma never_deleted_live:
  assumes "list_all (event_ok N svc) log" and "\<forall>ev \<in> set log. ev_Type ev = EventTypePut"
  shows "registered svc log a \<longleftrightarrow> (\<exists>ev \<in> set log. put_of a ev)"
  using assms
proof (induction log rule: rev_induct)
  case (snoc ev log)
  have ok: "event_ok N svc ev" "ev_Type ev = EventTypePut" using snoc.prems by simp_all
  then have "ev_Key ev = service_key svc (ev_Value ev)" by (auto simp: event_ok_def)
  then show ?case using snoc ok(2) service_key_inj [of svc a "ev_Value ev"]
    by (auto simp: registered_def etcd_kvs_snoc map_of_etcd_apply put_of_def)
qed (simp add: registered_def etcd_kvs_def)

subsection \<open>What the events do to a picker\<close>

definition knows :: "('e, 'n) ClientPicker \<Rightarrow> string \<Rightarrow> bool" where
  "knows p a \<longleftrightarrow> map_of (pk_clients p) a \<noteq> None"

text \<open>The ring as \<open>Add\<close> makes it: every node has the configured number of virtual nodes.\<close>

definition plain :: "Config \<Rightarrow> ('e, 'n) ClientPicker \<Rightarrow> bool" where
  "plain cfg p \<longleftrightarrow> m_config (pk_consHash p) = cfg \<and>
     (\<forall>a r. map_of (m_nodeReplicas (pk_consHash p)) a = Some r \<longrightarrow> r = cfg_DefaultReplicas cfg)"

lemma Map_Add_plain:
  assumes "Map_Add [a] m = Inr m'"
  shows "m_config m' = m_config m"
    and "map_of (m_nodeReplicas m') = (if a = [] then map_of (m_nodeReplicas m) else (map_of (m_nodeReplicas m))(a \<mapsto> cfg_DefaultReplicas (m_config m)))"
  using assms by (auto simp: Map_Add_def addNode_def addNode_loop_effect Let_def)

lemma Map_Remove_plain:
  assumes "Map_Remove a m = Inr m'"
  shows "m_config m' = m_config m" and "map_of (m_nodeReplicas m') = (map_of (m_nodeReplicas m))(a := None)"
  using assms by (auto simp: Map_Remove_def removeNode_def removeNode_loop_effect Let_def split: if_splits)

lemma picker_set_plain: "plain cfg p \<Longrightarrow> plain cfg (picker_set conn a p)"
  using Map_Add_plain [of a "pk_consHash p"]
  by (auto simp: plain_def picker_set_def NewClient_def split: option.split sum.split if_splits)

lemma picker_remove_plain: "plain cfg p \<Longrightarrow> plain cfg (picker_remove a p)"
  using Map_Remove_plain [of a "pk_consHash p"]
  by (auto simp: plain_def picker_remove_def split: sum.split if_splits)

lemma close_client_plain [simp]: "plain cfg (close_client a p) = plain cfg p"
  by (simp add: plain_def)

lemma handleWatchEvents_plain: "plain cfg p \<Longrightarrow> plain cfg (handleWatchEvents events p)"
proof -
  have "plain cfg (handle_event ev p)" if "plain cfg p" for ev and p :: "('a, 'b) ClientPicker"
    using that by (simp add: handle_event_def picker_set_plain picker_remove_plain Let_def split: event_type.split)
  then show "plain cfg p \<Longrightarrow> plain cfg (handleWatchEvents events p)"
    unfolding handleWatchEvents_def by (induction events arbitrary: p) simp_all
qed

lemma knows_set: "knows (picker_set conn b p) a \<longleftrightarrow> knows p a \<or> conn \<noteq> None \<and> a = b"
  by (auto simp: knows_def picker_set_def NewClient_def split: option.split)

lemma knows_event:
  assumes "event_ok N svc ev" and "a \<noteq> []"
  shows "knows (handle_event (ev, conn) p) a \<longleftrightarrow> knows p a \<or> put_of a ev \<and> a \<noteq> pk_selfAddr p \<and> conn \<noteq> None"
proof (cases "ev_Type ev")
  case EventTypePut
  then show ?thesis using assms by (auto simp: handle_event_def knows_set put_of_def Let_def) (simp add: knows_def)
next
  case EventTypeDelete
  then show ?thesis using assms
    by (auto simp: handle_event_def event_ok_def put_of_def picker_remove_def knows_def Let_def)
qed

lemma knows_watch:
  assumes "list_all (event_ok N svc) evs" and "a \<noteq> []" and "\<And>b. dial b \<noteq> None"
  shows "knows (handleWatchEvents (map (\<lambda>ev. (ev, dial (ev_Value ev))) evs) p) a \<longleftrightarrow>
    knows p a \<or> a \<noteq> pk_selfAddr p \<and> (\<exists>ev \<in> set evs. put_of a ev)"
  using assms(1)
proof (induction evs arbitrary: p)
  case (Cons ev evs)
  have self: "pk_selfAddr (handle_event x p) = pk_selfAddr p" for x
    using self_handle [of "[x]" p] by (simp add: handleWatchEvents_def)
  have "event_ok N svc ev" "list_all (event_ok N svc) evs" using Cons.prems by simp_all
  from knows_event [OF this(1) assms(2), of "dial (ev_Value ev)" p] Cons.IH [OF this(2), of "handle_event (ev, dial (ev_Value ev)) p"] assms(3)
  show ?case by (auto simp: handleWatchEvents_def self)
qed (simp add: handleWatchEvents_def)

lemma knows_fetch:
  assumes "\<And>b. dial b \<noteq> None"
  shows "knows (fold fetch_one (map (\<lambda>kv. (kv, dial (snd kv))) kvs) p) a \<longleftrightarrow>
    knows p a \<or> a \<noteq> [] \<and> a \<noteq> pk_selfAddr p \<and> a \<in> snd ` set kvs"
proof (induction kvs arbitrary: p)
  case (Cons kv kvs)
  have "pk_selfAddr (fetch_one x p) = pk_selfAddr p" for x by (simp add: fetch_one_def Let_def)
  with Cons.IH [of "fetch_one (kv, dial (snd kv)) p"] assms show ?case by (auto simp: fetch_one_def knows_set Let_def)
qed simp

subsection \<open>The invariant\<close>

definition informed :: "string \<Rightarrow> etcd_event list \<Rightarrow> ('e, 'n) ClientPicker \<Rightarrow> bool" where
  "informed svc log p \<longleftrightarrow> (\<forall>a. registered svc log a \<longrightarrow> a \<noteq> pk_selfAddr p \<longrightarrow> knows p a)"

definition sound :: "etcd_event list \<Rightarrow> ('e, 'n) ClientPicker \<Rightarrow> bool" where
  "sound log p \<longleftrightarrow> (\<forall>a. a \<noteq> [] \<longrightarrow> knows p a \<longrightarrow> (\<exists>ev \<in> set log. put_of a ev))"

definition up_to_date :: "string \<Rightarrow> etcd_event list \<Rightarrow> ('e, 'n) watcher \<Rightarrow> bool" where
  "up_to_date svc log w \<longleftrightarrow> wt_fetched w \<le> length log \<and>
     (case wt_state w of
        NotWatching \<Rightarrow> informed svc (take (wt_fetched w) log) (wt_picker w)
      | Watching pos \<Rightarrow> pos \<le> length log \<and> (wt_opened w = wt_fetched w \<longrightarrow> informed svc (take pos log) (wt_picker w))
      | ChannelClosed \<Rightarrow> True
      | WatchStopped \<Rightarrow> True)"

definition watcher_ok :: "Config \<Rightarrow> string set \<Rightarrow> int \<Rightarrow> string \<Rightarrow> etcd_event list \<Rightarrow> ('e, 'n) watcher \<Rightarrow> bool" where
  "watcher_ok cfg N R svc log w \<longleftrightarrow> picker_ok N R (wt_picker w) \<and> plain cfg (wt_picker w) \<and> sound log (wt_picker w) \<and>
     up_to_date svc log w"

definition disc_ok :: "Config \<Rightarrow> string set \<Rightarrow> int \<Rightarrow> string \<Rightarrow> (string \<Rightarrow> 'n option) \<Rightarrow> ('e, 'n) discovery \<Rightarrow> bool" where
  "disc_ok cfg N R svc dial s \<longleftrightarrow> no_collision cfg N R \<and> config_ok cfg R \<and> (\<forall>b. dial b \<noteq> None) \<and>
     list_all (event_ok N svc) (dc_log s) \<and> list_all (watcher_ok cfg N R svc (dc_log s)) (dc_nodes s)"

lemma sound_append: "sound log p \<Longrightarrow> sound (log @ evs) p"
  unfolding sound_def by auto

lemma up_to_date_append: "up_to_date svc log w \<Longrightarrow> up_to_date svc (log @ evs) w"
  by (auto simp: up_to_date_def split: watch_state.splits)

lemma watcher_append: "watcher_ok cfg N R svc log w \<Longrightarrow> watcher_ok cfg N R svc (log @ evs) w"
  by (simp add: watcher_ok_def sound_append up_to_date_append)

text \<open>The pairs that a fetch finds: one for each registered service, under its own key.\<close>

lemma fetched_pairs:
  assumes "list_all (event_ok N svc) log"
  defines "kvs \<equiv> filter (\<lambda>kv. under_prefix svc (fst kv)) (etcd_kvs log)"
  shows "kv \<in> set kvs \<Longrightarrow> fst kv = service_key svc (snd kv) \<and> snd kv \<in> N \<and> snd kv \<noteq> []"
    and "distinct (map snd kvs)"
    and "a \<in> snd ` set kvs \<longleftrightarrow> registered svc log a"
proof -
  note ok = etcd_kvs_ok [OF assms(1)]
  show mem: "kv \<in> set kvs \<Longrightarrow> fst kv = service_key svc (snd kv) \<and> snd kv \<in> N \<and> snd kv \<noteq> []" for kv
    using ok(2) [of "fst kv" "snd kv"] map_of_is_SomeI [OF ok(1), of "fst kv" "snd kv"] by (simp add: kvs_def)
  have "distinct kvs" using ok(1) by (simp add: distinct_map kvs_def)
  moreover have "inj_on snd (set kvs)" using mem by (intro inj_onI) (metis prod_eqI)
  ultimately show "distinct (map snd kvs)" by (simp add: distinct_map)
  show "a \<in> snd ` set kvs \<longleftrightarrow> registered svc log a"
  proof
    assume "a \<in> snd ` set kvs"
    then obtain kv where kv: "kv \<in> set kvs" "snd kv = a" by (metis imageE)
    have "(fst kv, snd kv) \<in> set (etcd_kvs log)" using kv(1) by (simp add: kvs_def)
    from map_of_is_SomeI [OF ok(1) this] mem [OF kv(1)] kv(2) show "registered svc log a" by (simp add: registered_def)
  next
    assume "registered svc log a"
    then have "(service_key svc a, a) \<in> set kvs" by (simp add: kvs_def registered_def map_of_SomeD)
    then show "a \<in> snd ` set kvs" by (metis image_eqI snd_conv)
  qed
qed

text \<open>A node that joins.\<close>

lemma join_ok:
  fixes e :: 'e and dial :: "string \<Rightarrow> 'n option"
  assumes "disc_ok cfg N R svc dial s" and "startServiceDiscovery cfg svc dial e self (dc_log s) = Inr w"
  shows "watcher_ok cfg N R svc (dc_log s) w"
proof -
  let ?kvs = "filter (\<lambda>kv. under_prefix svc (fst kv)) (etcd_kvs (dc_log s))"
  let ?start = "\<lparr>pk_selfAddr = self, pk_svcName = svc, pk_consHash = Map_New cfg, pk_clients = [], pk_etcdCli = e, pk_cancelled = False,
    pk_closed = []\<rparr> :: ('e, 'n) ClientPicker"
  let ?p = "fold fetch_one (map (\<lambda>kv. (kv, dial (snd kv))) ?kvs) ?start"
  have nc: "no_collision cfg N R" "config_ok cfg R" and dial: "\<And>b. dial b \<noteq> None" and log: "list_all (event_ok N svc) (dc_log s)"
    using assms(1) by (simp_all add: disc_ok_def)
  note kvs = fetched_pairs [OF log]
  have w: "w = \<lparr>wt_picker = ?p, wt_fetched = length (dc_log s), wt_opened = 0, wt_state = NotWatching\<rparr>"
    using assms(2) by (simp add: startServiceDiscovery_def NewClientPicker_def fetchAllServices_def fetched_kvs_def)
  have "distinct (map (snd \<circ> fst) (map (\<lambda>kv. (kv, dial (snd kv))) ?kvs))" using kvs(2) by (simp add: comp_def)
  moreover have "\<forall>kv \<in> set (map (\<lambda>kv. (kv, dial (snd kv))) ?kvs). snd (fst kv) = [] \<or> snd (fst kv) \<in> N"
    using kvs(1) by (simp only: set_map ball_simps fst_conv) blast
  ultimately have ok: "picker_ok N R ?p" by (intro fetch_ok [OF empty_picker_ok [OF nc]]) simp_all
  have "\<not> knows ?start a" "pk_selfAddr ?start = self" for a by (simp_all add: knows_def)
  with knows_fetch [where dial = dial and kvs = ?kvs and p = ?start, OF dial]
  have knows: "knows ?p a \<longleftrightarrow> a \<noteq> [] \<and> a \<noteq> self \<and> registered svc (dc_log s) a" for a by (simp only: kvs(3)) simp
  have pl: "plain cfg (fold fetch_one kvs p)" if "plain cfg p" for kvs and p :: "('e, 'n) ClientPicker"
    using that by (induction kvs arbitrary: p) (simp_all add: fetch_one_def picker_set_plain Let_def)
  have "plain cfg ?p" by (rule pl) (simp add: plain_def Map_New_def)
  moreover have "sound (dc_log s) ?p"
    using live_append [of svc "[]" "dc_log s"] unfolding sound_def knows by (simp add: registered_def etcd_kvs_def)
  moreover have "informed svc (dc_log s) ?p"
    unfolding informed_def
  proof (intro allI impI)
    fix a
    assume a: "registered svc (dc_log s) a" "a \<noteq> pk_selfAddr ?p"
    then have "a \<noteq> []" using etcd_kvs_ok(2) [OF log] unfolding registered_def by blast
    with a knows [of a] show "knows ?p a" by simp
  qed
  ultimately show ?thesis using ok by (simp add: watcher_ok_def up_to_date_def w)
qed

text \<open>A response of the watch.\<close>

lemma response_ok:
  assumes "list_all (event_ok N svc) log" and "\<And>b. dial b \<noteq> None" and "pos + n \<le> length log" and "picker_ok N R p" "plain cfg p" "sound log p"
  defines "p' \<equiv> handleWatchEvents (watch_batch svc dial pos n log) p"
  shows "picker_ok N R p'" and "plain cfg p'" and "sound log p'" and "informed svc (take pos log) p \<Longrightarrow> informed svc (take (pos + n) log) p'"
proof -
  let ?evs = "take n (drop pos log)"
  have evs: "list_all (event_ok N svc) ?evs" using assms(1) by (auto simp: list_all_iff dest: in_set_takeD in_set_dropD)
  have all: "filter (\<lambda>ev. under_prefix svc (ev_Key ev)) ?evs = ?evs"
    using evs by (intro filter_True) (auto simp: list_all_iff event_ok_def)
  have p': "p' = handleWatchEvents (map (\<lambda>ev. (ev, dial (ev_Value ev))) ?evs) p" unfolding p'_def watch_batch_def all ..
  have vals: "ev_Value ev = [] \<or> ev_Value ev \<in> N" if "event_ok N svc ev" for ev
    using that by (cases "ev_Type ev") (auto simp: event_ok_def)
  show "picker_ok N R p'" unfolding p' using evs vals by (intro handleWatchEvents_ok [OF assms(4)]) (auto simp: list_all_iff)
  show "plain cfg p'" unfolding p' by (rule handleWatchEvents_plain [OF assms(5)])
  have k: "knows p' a \<longleftrightarrow> knows p a \<or> a \<noteq> pk_selfAddr p \<and> (\<exists>ev \<in> set ?evs. put_of a ev)" if "a \<noteq> []" for a
    unfolding p' by (rule knows_watch [OF evs that assms(2)])
  show "sound log p'" using assms(6) k unfolding sound_def by (meson in_set_dropD in_set_takeD)
  show "informed svc (take (pos + n) log) p'" if inf: "informed svc (take pos log) p"
    unfolding informed_def
  proof (intro allI impI)
    fix a
    assume l: "registered svc (take (pos + n) log) a" and self: "a \<noteq> pk_selfAddr p'"
    have tk: "list_all (event_ok N svc) (take (pos + n) log)" using assms(1) by (auto simp: list_all_iff dest: in_set_takeD)
    have "a \<noteq> []" using l etcd_kvs_ok(2) [OF tk] unfolding registered_def by blast
    moreover have "registered svc (take pos log) a \<or> (\<exists>ev \<in> set ?evs. put_of a ev)"
      using live_append [of svc "take pos log" ?evs a] l by (simp add: take_add)
    ultimately show "knows p' a" using inf self k by (auto simp: informed_def p')
  qed
qed

lemma watchServiceChanges_ok:
  assumes "disc_ok cfg N R svc dial s" and "watcher_ok cfg N R svc (dc_log s) w"
    and "watchServiceChanges svc dial (dc_log s) choice w = Some w'"
  shows "watcher_ok cfg N R svc (dc_log s) w'"
proof -
  have log: "list_all (event_ok N svc) (dc_log s)" and dial: "\<And>b. dial b \<noteq> None" using assms(1) by (simp_all add: disc_ok_def)
  have p: "picker_ok N R (wt_picker w)" "plain cfg (wt_picker w)" "sound (dc_log s) (wt_picker w)" and u: "up_to_date svc (dc_log s) w"
    using assms(2) by (simp_all add: watcher_ok_def)
  show ?thesis
  proof (cases "wt_state w")
    case (Watching pos)
    show ?thesis
    proof (cases choice)
      case (Response n)
      then have n: "pos + n \<le> length (dc_log s)"
        and w': "w' = w\<lparr>wt_picker := handleWatchEvents (watch_batch svc dial pos n (dc_log s)) (wt_picker w), wt_state := Watching (pos + n)\<rparr>"
        using assms(3) Watching by (simp_all add: watchServiceChanges_def split: if_splits)
      note r = response_ok [OF log dial n p]
      from r u Watching n show ?thesis by (auto simp: watcher_ok_def up_to_date_def w')
    qed (use assms(2,3) Watching in \<open>auto simp: watchServiceChanges_def watcher_ok_def up_to_date_def split: if_splits\<close>)
  qed (use assms(2,3) in \<open>auto simp: watchServiceChanges_def watcher_ok_def up_to_date_def handleWatchEvents_def
      split: watch_choice.splits if_splits\<close>)
qed

lemma disc_ok_nodes:
  assumes "disc_ok cfg N R svc dial s" and "\<And>w. w \<in> set ws \<Longrightarrow> w \<in> set (dc_nodes s) \<or> watcher_ok cfg N R svc (dc_log s) w"
  shows "disc_ok cfg N R svc dial (s\<lparr>dc_nodes := ws\<rparr>)"
  using assms by (auto simp: disc_ok_def list_all_iff)

lemma disc_ok_event:
  assumes "disc_ok cfg N R svc dial s" and "event_ok N svc ev"
  shows "disc_ok cfg N R svc dial (s\<lparr>dc_log := dc_log s @ [ev]\<rparr>)"
  using assms by (auto simp: disc_ok_def list_all_iff intro: watcher_append)

lemma Register_key:
  "Register env svc addr = Some (Inr reg) \<Longrightarrow> re_key reg = service_key svc (re_value reg) \<and> re_value reg \<noteq> []"
  by (auto simp: Register_def full_addr_def split: if_splits option.splits list.splits)

lemma Register_event:
  "Register env svc addr = Some (Inr reg) \<Longrightarrow> re_value reg \<in> N \<Longrightarrow> event_ok N svc (put_event reg)"
  by (auto simp: event_ok_def put_event_def dest: Register_key)

lemma picker_Close_fields:
  assumes "picker_Close fails etcd_fails ks p = (errs, p')"
  shows "pk_clients p' = pk_clients p" "pk_consHash p' = pk_consHash p" "pk_selfAddr p' = pk_selfAddr p"
proof -
  have "pk_clients (fold close_client ks q) = pk_clients q \<and> pk_consHash (fold close_client ks q) = pk_consHash q \<and>
      pk_selfAddr (fold close_client ks q) = pk_selfAddr q" for q :: "('a, 'b) ClientPicker"
    by (induction ks arbitrary: q) simp_all
  then show "pk_clients p' = pk_clients p" "pk_consHash p' = pk_consHash p" "pk_selfAddr p' = pk_selfAddr p"
    using assms by (auto simp: picker_Close_def Let_def)
qed

lemma close_ok:
  assumes "watcher_ok cfg N R svc log w" and "picker_Close fails etcd_fails ks (wt_picker w) = (errs, p)"
  shows "watcher_ok cfg N R svc log (w\<lparr>wt_picker := p\<rparr>)"
proof -
  note f = picker_Close_fields [OF assms(2)]
  have "picker_ok N R p = picker_ok N R (wt_picker w)" "plain cfg p = plain cfg (wt_picker w)" "sound log p = sound log (wt_picker w)"
    "informed svc l p = informed svc l (wt_picker w)" for l
    unfolding picker_ok_def plain_def sound_def informed_def knows_def f by (rule refl)+
  with assms(1) show ?thesis by (cases "wt_state w") (simp_all add: watcher_ok_def up_to_date_def)
qed

lemma disc_ok_step:
  assumes "disc_step cfg N svc dial e s s'" and "disc_ok cfg N R svc dial s"
  shows "disc_ok cfg N R svc dial s'"
  using assms
proof (induction rule: disc_step.induct)
  case (register env addr reg s)
  from disc_ok_event [OF register.prems Register_event [OF register.hyps]] show ?case .
next
  case (lease_ends s key)
  have log: "list_all (event_ok N svc) (dc_log s)" using lease_ends.prems by (simp add: disc_ok_def)
  obtain v where "map_of (etcd_kvs (dc_log s)) key = Some v" using lease_ends.hyps by blast
  from etcd_kvs_ok(2) [OF log this] have "event_ok N svc (delete_event key)" by (auto simp: event_ok_def delete_event_def)
  from disc_ok_event [OF lease_ends.prems this] show ?case .
next
  case (join self s w)
  from join_ok [OF join.prems join.hyps] show ?case by (intro disc_ok_nodes [OF join.prems]) auto
next
  case (watch i s choice w)
  have "watcher_ok cfg N R svc (dc_log s) (dc_nodes s ! i)" using watch.prems watch.hyps(1) by (simp add: disc_ok_def list_all_length)
  from watchServiceChanges_ok [OF watch.prems this watch.hyps(2)] show ?case
    using set_update_subset_insert [of "dc_nodes s" i w] by (intro disc_ok_nodes [OF watch.prems]) auto
next
  case (close i s fails etcd_fails ks errs p)
  have "watcher_ok cfg N R svc (dc_log s) (dc_nodes s ! i)" using close.prems close.hyps(1) by (simp add: disc_ok_def list_all_length)
  from close_ok [OF this close.hyps(2)] show ?case
    using set_update_subset_insert [of "dc_nodes s" i] by (intro disc_ok_nodes [OF close.prems]) auto
qed

interpretation disc: invariant_system
  "\<lambda>s. disc_start s \<and> no_collision cfg N R \<and> config_ok cfg R \<and> (\<forall>b. dial b \<noteq> None)" "disc_step cfg N svc dial e" "disc_ok cfg N R svc dial"
  for cfg N R svc and dial :: "string \<Rightarrow> 'n option" and e :: 'e
proof
  fix s :: "('e, 'n) discovery"
  assume "disc_start s \<and> no_collision cfg N R \<and> config_ok cfg R \<and> (\<forall>b. dial b \<noteq> None)"
  then show "disc_ok cfg N R svc dial s" by (simp add: disc_ok_def disc_start_def)
qed (rule disc_ok_step)

lemma disc_reach_ok:
  assumes "no_collision cfg N R" and "config_ok cfg R" and "\<And>b. dial b \<noteq> None" and "reach disc_start (disc_step cfg N svc dial e) s"
  shows "disc_ok cfg N R svc dial s"
proof -
  have "reach (\<lambda>s. disc_start s \<and> no_collision cfg N R \<and> config_ok cfg R \<and> (\<forall>b. dial b \<noteq> None)) (disc_step cfg N svc dial e) s"
    using assms(4) by (induction rule: reach.induct) (use assms(1-3) in \<open>blast intro: reach.intros\<close>)+
  then show ?thesis by (rule disc.reach_ok)
qed

text \<open>A node that has caught up without a gap.\<close>

definition caught_up :: "etcd_event list \<Rightarrow> ('e, 'n) watcher \<Rightarrow> bool" where
  "caught_up log w \<longleftrightarrow> wt_state w = Watching (length log) \<and> wt_opened w = wt_fetched w"

lemma caught_up_facts:
  assumes "watcher_ok cfg N R svc log w" and "caught_up log w"
  shows "picker_ok N R (wt_picker w)" and "plain cfg (wt_picker w)" and "informed svc log (wt_picker w)" and "sound log (wt_picker w)"
  using assms by (simp_all add: watcher_ok_def caught_up_def up_to_date_def)

lemma ring_knows:
  assumes "picker_ok N R p" and "a \<noteq> []"
  shows "map_of (m_nodeReplicas (pk_consHash p)) a \<noteq> None \<longleftrightarrow> knows p a"
  using picker_okD(4) [OF assms] by (simp add: knows_def)

lemma live_nonempty: "list_all (event_ok N svc) log \<Longrightarrow> registered svc log a \<Longrightarrow> a \<in> N \<and> a \<noteq> []"
  using etcd_kvs_ok(2) [of N svc log] unfolding registered_def by blast

subsection \<open>Properties\<close>


text \<open>
  C38: discovery can miss services for ever. The fetch and the opening of the watch are two steps, and the
  watch is not opened at the revision of the fetch: a service that registers in between is live and
  not known to a node that has seen every event of its watch. And when etcd closes the channel of
  the watch, the loop receives empty responses at once, again and again: it makes steps that
  change nothing and no other step until the picker is closed.
\<close>

theorem discovery_misses_services:
  assumes "Register env svc addr = Some (Inr reg)" and "re_value reg \<in> N" and "self \<noteq> re_value reg"
  shows "(\<exists>s w. reach disc_start (disc_step cfg N svc dial e) s \<and> w \<in> set (dc_nodes s) \<and> pk_selfAddr (wt_picker w) = self \<and>
      wt_state w = Watching (length (dc_log s)) \<and> registered svc (dc_log s) (re_value reg) \<and> \<not> knows (wt_picker w) (re_value reg)) \<and>
    (wt_state v = ChannelClosed \<longrightarrow> \<not> pk_cancelled (wt_picker v) \<longrightarrow>
      watchServiceChanges svc dial log (Response n) v = Some v \<and>
      (\<forall>choice v'. watchServiceChanges svc dial log choice v = Some v' \<longrightarrow> v' = v))"
proof (intro conjI impI allI)
  let ?p = "\<lparr>pk_selfAddr = self, pk_svcName = svc, pk_consHash = Map_New cfg, pk_clients = [], pk_etcdCli = e, pk_cancelled = False,
    pk_closed = []\<rparr>"
  let ?w = "\<lparr>wt_picker = ?p, wt_fetched = 0, wt_opened = 0, wt_state = NotWatching\<rparr>"
  let ?v = "?w\<lparr>wt_opened := 1, wt_state := Watching 1\<rparr>"
  have a: "reach disc_start (disc_step cfg N svc dial e) \<lparr>dc_log = [], dc_nodes = []\<rparr>"
    by (rule reach_start) (simp add: disc_start_def)
  have "startServiceDiscovery cfg svc dial e self [] = Inr ?w"
    by (simp add: startServiceDiscovery_def NewClientPicker_def fetchAllServices_def fetched_kvs_def etcd_kvs_def)
  with join [where s = "\<lparr>dc_log = [], dc_nodes = []\<rparr>"] reach_step [OF a]
  have b: "reach disc_start (disc_step cfg N svc dial e) \<lparr>dc_log = [], dc_nodes = [?w]\<rparr>" by fastforce
  with register [OF assms(1,2), of cfg dial e "\<lparr>dc_log = [], dc_nodes = [?w]\<rparr>"]
  have c: "reach disc_start (disc_step cfg N svc dial e) \<lparr>dc_log = [put_event reg], dc_nodes = [?w]\<rparr>"
    by (auto intro: reach_step)
  have "watchServiceChanges svc dial [put_event reg] OpenWatch ?w = Some ?v" by (simp add: watchServiceChanges_def)
  with watch [of 0 "\<lparr>dc_log = [put_event reg], dc_nodes = [?w]\<rparr>" svc dial OpenWatch ?v cfg N e]
  have d: "reach disc_start (disc_step cfg N svc dial e) \<lparr>dc_log = [put_event reg], dc_nodes = [?v]\<rparr>"
    by (auto intro: reach_step [OF c])
  have "re_key reg = service_key svc (re_value reg)" using Register_key [OF assms(1)] by simp
  then have "registered svc [put_event reg] (re_value reg)" by (simp add: registered_def etcd_kvs_def etcd_apply_def put_event_def)
  moreover have "\<not> knows ?p (re_value reg)" by (simp add: knows_def)
  ultimately show "\<exists>s w. reach disc_start (disc_step cfg N svc dial e) s \<and> w \<in> set (dc_nodes s) \<and> pk_selfAddr (wt_picker w) = self \<and>
      wt_state w = Watching (length (dc_log s)) \<and> registered svc (dc_log s) (re_value reg) \<and> \<not> knows (wt_picker w) (re_value reg)"
    using d by (intro exI [of _ "\<lparr>dc_log = [put_event reg], dc_nodes = [?v]\<rparr>"] exI [of _ ?v]) simp
next
  assume v: "wt_state v = ChannelClosed" "\<not> pk_cancelled (wt_picker v)"
  then show "watchServiceChanges svc dial log (Response n) v = Some v" by (simp add: watchServiceChanges_def handleWatchEvents_def)
  fix choice v'
  assume "watchServiceChanges svc dial log choice v = Some v'"
  with v show "v' = v" by (cases choice) (auto simp: watchServiceChanges_def handleWatchEvents_def)
qed

subsection \<open>A small system\<close>

definition demo_reg :: "string \<Rightarrow> registration" where
  "demo_reg a = \<lparr>re_key = service_key defaultSvcName a, re_value = a, re_lease = 7\<rparr>"

definition demo_dial :: "string \<Rightarrow> nat option" where
  "demo_dial a = Some 0"

lemma demo_Register: "a \<noteq> [] \<Longrightarrow> hd a \<noteq> CHR '':'' \<Longrightarrow> Register demo_env defaultSvcName a = Some (Inr (demo_reg a))"
  by (cases a) (simp_all add: Register_def demo_env_def getLocalIP_def full_addr_def demo_reg_def)

definition demo_watcher :: "string \<Rightarrow> (unit, nat) watcher" where
  "demo_watcher self = \<lparr>wt_picker = \<lparr>pk_selfAddr = self, pk_svcName = defaultSvcName, pk_consHash = Map_New demo_cfg, pk_clients = [],
     pk_etcdCli = (), pk_cancelled = False, pk_closed = []\<rparr>, wt_fetched = 0, wt_opened = 0, wt_state = Watching 0\<rparr>"

text \<open>Nodes that joined an empty system and opened their watch at once, and services that registered later.\<close>

definition demo_system :: "string list \<Rightarrow> string list \<Rightarrow> (unit, nat) discovery" where
  "demo_system selfs regs = \<lparr>dc_log = map (put_event \<circ> demo_reg) regs, dc_nodes = map demo_watcher selfs\<rparr>"

abbreviation demo_step :: "(unit, nat) discovery \<Rightarrow> (unit, nat) discovery \<Rightarrow> bool" where
  "demo_step \<equiv> disc_step demo_cfg {''a'', ''b'', ''c''} defaultSvcName demo_dial ()"

lemma demo_system_joins: "reach disc_start demo_step (demo_system selfs [])"
proof (induction selfs rule: rev_induct)
  case Nil
  show ?case by (rule reach_start) (simp add: disc_start_def demo_system_def)
next
  case (snoc self selfs)
  let ?w = "(demo_watcher self)\<lparr>wt_state := NotWatching\<rparr>" and ?ws = "map demo_watcher selfs"
  have "startServiceDiscovery demo_cfg defaultSvcName demo_dial () self [] = Inr ?w"
    by (simp add: startServiceDiscovery_def NewClientPicker_def fetchAllServices_def fetched_kvs_def etcd_kvs_def demo_watcher_def)
  then have j: "demo_step (demo_system selfs []) \<lparr>dc_log = [], dc_nodes = ?ws @ [?w]\<rparr>"
    using join [where s = "demo_system selfs []"] by (fastforce simp: demo_system_def)
  have "watchServiceChanges defaultSvcName demo_dial [] OpenWatch ?w = Some (demo_watcher self)"
    by (simp add: watchServiceChanges_def demo_watcher_def)
  then have opens: "demo_step \<lparr>dc_log = [], dc_nodes = ?ws @ [?w]\<rparr> (demo_system (selfs @ [self]) [])"
    using watch [of "length selfs" "\<lparr>dc_log = [], dc_nodes = ?ws @ [?w]\<rparr>" defaultSvcName demo_dial OpenWatch "demo_watcher self"]
    by (simp add: demo_system_def nth_append list_update_append)
  have "reach disc_start demo_step \<lparr>dc_log = [], dc_nodes = ?ws @ [?w]\<rparr>" using snoc.IH j by (rule reach_step)
  then show ?case using opens by (rule reach_step)
qed

lemma demo_system_reach:
  "set regs \<subseteq> {''a'', ''b'', ''c''} \<Longrightarrow> reach disc_start demo_step (demo_system selfs regs)"
proof (induction regs rule: rev_induct)
  case (snoc a regs)
  then have r: "Register demo_env defaultSvcName a = Some (Inr (demo_reg a))" "re_value (demo_reg a) \<in> {''a'', ''b'', ''c''}"
    by (auto simp: demo_reg_def intro: demo_Register [unfolded demo_reg_def])
  have "demo_step (demo_system selfs regs) (demo_system selfs (regs @ [a]))"
    using register [OF r, of demo_cfg demo_dial "()" "demo_system selfs regs"] by (simp add: demo_system_def)
  with snoc show ?case by (auto intro: reach_step)
qed (rule demo_system_joins)


theorem discovery_misses_services_witness:
  "\<exists>s w. reach disc_start demo_step s \<and> w \<in> set (dc_nodes s) \<and> wt_state w = Watching (length (dc_log s)) \<and>
     registered defaultSvcName (dc_log s) ''a'' \<and> \<not> knows (wt_picker w) ''a''"
proof -
  have "Register demo_env defaultSvcName ''a'' = Some (Inr (demo_reg ''a''))" by (rule demo_Register) simp_all
  from discovery_misses_services [OF this, of "{''a'', ''b'', ''c''}" "''c''" demo_cfg demo_dial "()" "demo_watcher ''c''" "[]" 1] show ?thesis
    by (auto simp: demo_reg_def)
qed

end
