(* ===== verification/Routing.thy ===== *)
theory Routing
  imports Discovery Group_Theorems
begin

text \<open>
  Where the loads of a cluster go. The nodes of a converged system (\<^theory_text>\<open>Discovery\<close>) each have a
  ring of all the others, but never of themselves: \<open>fetchAllServices\<close> and \<open>handleWatchEvents\<close> leave
  out the node's own address. So the rings of two nodes differ, no node ever takes itself for
  the owner of a key, and the flag \<open>self\<close> that \<open>PickPeer\<close> returns is never set. The lemmas compare these
  rings with the ring of all nodes: all nodes but one send a key to the same owner, and the owner
  sends it on to the next one, which sends it back.
\<close>

definition wt_self :: "('e, 'n) watcher \<Rightarrow> string" where
  "wt_self w = pk_selfAddr (wt_picker w)"

text \<open>A load of \<open>key\<close> at the node asks the peer at \<open>a\<close> before anything else.\<close>

definition asks :: "string \<Rightarrow> ('e, 'n) watcher \<Rightarrow> string \<Rightarrow> bool" where
  "asks key w a \<longleftrightarrow> (\<exists>c p'. PickPeer key (wt_picker w) = ((Some c, True, False), p') \<and> cl_addr c = a)"

text \<open>
  All nodes have caught up, nothing was ever deleted, and the services that are registered are
  the nodes, each under the address it was given.
\<close>

definition converged :: "string \<Rightarrow> ('e, 'n) discovery \<Rightarrow> bool" where
  "converged svc s \<longleftrightarrow> (\<forall>w \<in> set (dc_nodes s). caught_up (dc_log s) w) \<and> (\<forall>ev \<in> set (dc_log s). ev_Type ev = EventTypePut) \<and>
     {a. registered svc (dc_log s) a} = wt_self ` set (dc_nodes s)"

definition node_ring :: "('e, 'n) watcher \<Rightarrow> Map" where
  "node_ring w = pk_consHash (wt_picker w)"

lemma ring_keys_nonempty:
  assumes "ring_ok N R m" and "map_of (m_nodeReplicas m) a \<noteq> None"
  shows "m_keys m \<noteq> []"
proof -
  have r: "ring_raw N R m" using assms(1) by (simp add: ring_ok_def)
  obtain q where q: "map_of (m_nodeReplicas m) a = Some q" using assms(2) by blast
  then have "0 < nat q" using ring_rawD(8) [OF r q] by simp
  with q have "map_of (m_hashMap m) (vhash (m_config m) a 0) = Some a" using ring_rawD(7) [OF r] by blast
  then show ?thesis using ring_rawD(6) [OF r] by auto
qed

lemma owner_on_ring:
  assumes "ring_ok N R m" and "m_keys m \<noteq> []"
  shows "map_of (m_nodeReplicas m) (ring_owner key m) \<noteq> None"
  using owner_successor [OF assms, of key] ring_rawD(7) [of N R m] assms(1) by (auto simp: ring_ok_def)

text \<open>The ring of a node of a converged system: all services but itself.\<close>

lemma node_ring_replicas:
  assumes "disc_ok cfg N R svc dial s" and "converged svc s" and "w \<in> set (dc_nodes s)"
  shows "ring_ok N R (node_ring w)" and "m_config (node_ring w) = cfg"
    and "map_of (m_nodeReplicas (node_ring w)) a = (if registered svc (dc_log s) a \<and> a \<noteq> wt_self w then Some (cfg_DefaultReplicas cfg) else None)"
    and "knows (wt_picker w) a \<Longrightarrow> a \<noteq> [] \<Longrightarrow> registered svc (dc_log s) a \<and> a \<noteq> wt_self w" and "registered svc (dc_log s) a \<Longrightarrow> a \<noteq> wt_self w \<Longrightarrow> knows (wt_picker w) a"
proof -
  let ?p = "wt_picker w" and ?log = "dc_log s"
  have "watcher_ok cfg N R svc ?log w" "caught_up ?log w" and log: "list_all (event_ok N svc) ?log"
    using assms by (simp_all add: disc_ok_def converged_def list_all_iff)
  note f = caught_up_facts [OF this(1,2)]
  have puts: "registered svc ?log a \<longleftrightarrow> (\<exists>ev \<in> set ?log. put_of a ev)" for a
    using never_deleted_live [OF log] assms(2) by (simp add: converged_def)
  have self: "\<not> knows ?p (wt_self w)" using picker_okD(3) [OF f(1)] by (simp add: knows_def wt_self_def)
  show 1: "knows ?p a \<Longrightarrow> a \<noteq> [] \<Longrightarrow> registered svc ?log a \<and> a \<noteq> wt_self w" for a
    using f(4) self puts unfolding sound_def by metis
  show 2: "registered svc ?log a \<Longrightarrow> a \<noteq> wt_self w \<Longrightarrow> knows ?p a" for a
    using f(3) by (simp add: informed_def wt_self_def)
  show ring: "ring_ok N R (node_ring w)" using picker_okD(1) [OF f(1)] by (simp add: node_ring_def)
  show "m_config (node_ring w) = cfg" using f(2) by (simp add: plain_def node_ring_def)
  have "map_of (m_nodeReplicas (node_ring w)) a \<noteq> None \<longleftrightarrow> registered svc ?log a \<and> a \<noteq> wt_self w"
  proof (cases "a = []")
    case True
    then show ?thesis using ring_rawD(8) [of N R "node_ring w" "[]"] ring live_nonempty [OF log, of a]
      by (auto simp: ring_ok_def)
  next
    case False
    then show ?thesis using ring_knows [OF f(1) False] 1 2 by (auto simp: node_ring_def)
  qed
  moreover have "map_of (m_nodeReplicas (node_ring w)) a = Some r \<Longrightarrow> r = cfg_DefaultReplicas cfg" for r
    using f(2) by (simp add: plain_def node_ring_def)
  ultimately show "map_of (m_nodeReplicas (node_ring w)) a = (if registered svc ?log a \<and> a \<noteq> wt_self w then Some (cfg_DefaultReplicas cfg) else None)"
    by (cases "map_of (m_nodeReplicas (node_ring w)) a") auto
qed

text \<open>The ring of all nodes, of which each node has all but itself.\<close>

lemma full_ring:
  assumes "disc_ok cfg N R svc dial s" and "converged svc s" and "v \<in> set (dc_nodes s)"
  obtains m where "ring_ok N R m" "m_config m = cfg" "m_keys m \<noteq> []"
    "\<forall>a. map_of (m_nodeReplicas m) a = (if registered svc (dc_log s) a then Some (cfg_DefaultReplicas cfg) else None)"
proof -
  note v = node_ring_replicas [OF assms]
  have live: "registered svc (dc_log s) (wt_self v)" using assms(2,3) by (auto simp: converged_def)
  have log: "list_all (event_ok N svc) (dc_log s)" using assms(1) by (simp add: disc_ok_def)
  have ne: "wt_self v \<in> N" "wt_self v \<noteq> []" using live_nonempty [OF log live] by simp_all
  obtain m where m: "Map_Add [wt_self v] (node_ring v) = Inr m" "ring_ok N R m"
    by (rule Map_Add_one [OF v(1), of "wt_self v"]) (use ne v(3) in auto)
  note p = Map_Add_plain [OF m(1)]
  have rep: "map_of (m_nodeReplicas m) a = (if registered svc (dc_log s) a then Some (cfg_DefaultReplicas cfg) else None)" for a
    using p(2) ne(2) live by (simp add: v(2,3))
  then have "m_keys m \<noteq> []" using live by (intro ring_keys_nonempty [OF m(2), of "wt_self v"]) simp
  with that m(2) p(1) v(2) rep show ?thesis by simp
qed

lemma asks_owner:
  assumes "disc_ok cfg N R svc dial s" and "converged svc s" and "w \<in> set (dc_nodes s)" and "key \<noteq> []"
    and "registered svc (dc_log s) a" and "a \<noteq> wt_self w"
  shows "asks key w (ring_owner key (node_ring w))" and "registered svc (dc_log s) (ring_owner key (node_ring w))"
    and "ring_owner key (node_ring w) \<noteq> wt_self w"
proof -
  note n = node_ring_replicas [OF assms(1-3)]
  have ok: "picker_ok N R (wt_picker w)" and log: "list_all (event_ok N svc) (dc_log s)"
    using assms(1,3) by (auto simp: disc_ok_def list_all_iff watcher_ok_def)
  have "a \<noteq> []" using live_nonempty [OF log assms(5)] by simp
  moreover have "map_of (pk_clients (wt_picker w)) a \<noteq> None" using n(5) [OF assms(5,6)] by (simp add: knows_def)
  ultimately obtain c where c: "fst (PickPeer key (wt_picker w)) = (Some c, True, False)" "cl_addr c = ring_owner key (node_ring w)"
    using PickPeer_found [OF ok _ _ assms(4)] unfolding node_ring_def by metis
  then show "asks key w (ring_owner key (node_ring w))" unfolding asks_def by (metis prod.collapse)
  have "map_of (m_nodeReplicas (node_ring w)) a \<noteq> None" using n(3) assms(5,6) by simp
  then have "map_of (m_nodeReplicas (node_ring w)) (ring_owner key (node_ring w)) \<noteq> None"
    using owner_on_ring [OF n(1) ring_keys_nonempty [OF n(1)]] by blast
  then show "registered svc (dc_log s) (ring_owner key (node_ring w))" "ring_owner key (node_ring w) \<noteq> wt_self w"
    using n(3) [of "ring_owner key (node_ring w)"] by (auto split: if_splits)
qed

text \<open>The loader of a group with this picker: the data source is asked only when the call to that peer fails.\<close>

lemma asks_load:
  fixes w :: "('e, 'n) watcher"
  assumes "asks key w a"
  obtains c :: "('e, 'n) Client" and pk' :: "('e, 'n) ClientPicker" where "cl_addr c = a"
    "\<And>rpc getter name st w0. peerAwareGetter_Get rpc getter name key (st, Some (wt_picker w), w0) =
       (case rpc (cl_conn c) \<lparr>rq_Group = name, rq_Key = key, rq_Value = None\<rparr> w0 of
          (Some bytes, w1) \<Rightarrow> (Some bytes, st\<lparr>gs_peerHits := wrap64 (gs_peerHits st + 1)\<rparr>, Some pk', w1)
        | (None, w1) \<Rightarrow>
            (case getter key w1 of
               (None, w2) \<Rightarrow> (None, st\<lparr>gs_peerMisses := wrap64 (gs_peerMisses st + 1)\<rparr>, Some pk', w2)
             | (Some bytes, w2) \<Rightarrow>
                 (Some (cloneBytes bytes), st\<lparr>gs_peerMisses := wrap64 (gs_peerMisses st + 1), gs_loaderHits := wrap64 (gs_loaderHits st + 1)\<rparr>,
                  Some pk', w2)))"
proof -
  obtain c pk' where "PickPeer key (wt_picker w) = ((Some c, True, False), pk')" "cl_addr c = a" using assms unfolding asks_def by blast
  then show ?thesis
    by (intro that [of c pk']) (auto simp: peerAwareGetter_Get_def from_peer_def Client_Get_def split: prod.split option.split)
qed

subsection \<open>Properties\<close>


subsection \<open>A converged pair\<close>

definition demo_log :: "etcd_event list" where
  "demo_log = [put_event (demo_reg ''a''), put_event (demo_reg ''b'')]"

definition demo_node :: "string \<Rightarrow> (unit, nat) watcher" where
  "demo_node self = (demo_watcher self)\<lparr>
     wt_picker := handleWatchEvents (watch_batch defaultSvcName demo_dial 0 2 demo_log) (wt_picker (demo_watcher self)),
     wt_state := Watching 2\<rparr>"

definition demo_pair :: "(unit, nat) discovery" where
  "demo_pair = \<lparr>dc_log = demo_log, dc_nodes = [demo_node ''a'', demo_node ''b'']\<rparr>"

lemma demo_node_self: "wt_self (demo_node self) = self"
  by (simp add: wt_self_def demo_node_def demo_watcher_def)

lemma demo_pair_reach: "reach disc_start demo_step demo_pair"
proof -
  let ?s0 = "\<lparr>dc_log = demo_log, dc_nodes = [demo_watcher ''a'', demo_watcher ''b'']\<rparr>"
  let ?s1 = "\<lparr>dc_log = demo_log, dc_nodes = [demo_node ''a'', demo_watcher ''b'']\<rparr>"
  have w: "watchServiceChanges defaultSvcName demo_dial demo_log (Response 2) (demo_watcher self) = Some (demo_node self)" for self
    by (simp add: watchServiceChanges_def demo_node_def demo_watcher_def demo_log_def)
  have 0: "reach disc_start demo_step ?s0"
    using demo_system_reach [of "[''a'', ''b'']" "[''a'', ''b'']"] by (simp add: demo_system_def demo_log_def)
  have 1: "demo_step ?s0 ?s1" using watch [of 0 ?s0 defaultSvcName demo_dial "Response 2" "demo_node ''a''"] w by simp
  have 2: "demo_step ?s1 demo_pair" using watch [of 1 ?s1 defaultSvcName demo_dial "Response 2" "demo_node ''b''"] w by (simp add: demo_pair_def)
  have "reach disc_start demo_step ?s1" using 0 1 by (rule reach_step)
  then show ?thesis using 2 by (rule reach_step)
qed

lemma demo_pair_converged: "converged defaultSvcName demo_pair"
proof -
  have "map_of (etcd_kvs demo_log) =
      [service_key defaultSvcName ''a'' \<mapsto> ''a'', service_key defaultSvcName ''b'' \<mapsto> ''b'']"
    by (simp add: demo_log_def etcd_kvs_def etcd_apply_def put_event_def demo_reg_def fun_upd_twist)
  then have "registered defaultSvcName demo_log a \<longleftrightarrow> a = ''a'' \<or> a = ''b''" for a
    using service_key_inj [of defaultSvcName a "''a''"] service_key_inj [of defaultSvcName a "''b''"]
    by (auto simp: registered_def)
  then have "{a. registered defaultSvcName demo_log a} = {''a'', ''b''}" by blast
  moreover have "caught_up demo_log (demo_node self)" for self
    by (simp add: caught_up_def demo_node_def demo_watcher_def) (simp add: demo_log_def)
  moreover have "\<forall>ev \<in> set demo_log. ev_Type ev = EventTypePut" by (simp add: demo_log_def put_event_def)
  ultimately show ?thesis by (simp add: converged_def demo_pair_def demo_node_self)
qed


end
