(* ===== verification/Cluster.thy ===== *)
theory Cluster
  imports Group_Theorems
begin

text \<open>
  \<^verbatim>\<open>server.go\<close>: the gRPC handlers of a node, and a cluster of nodes that exchange the
  remote writes of \<open>syncToPeers\<close>. A message in flight is a call that one goroutine of the sender
  is making; delivering it runs the handler at its destination, starts the goroutines of the
  handler, and ends the call at the sender. A context value does not cross the network, so a
  handler starts with a context that does not carry \<open>fromPeerKey\<close>.

  The results: a write reaches the peers and is not passed on by them, so the network falls
  silent; a delete is passed on by every node that receives it, so a cluster of two or more
  nodes never falls silent again.
\<close>

subsection \<open>Handlers\<close>

datatype server_error = ErrGroupNotFound | ErrHandler group_error

definition put_group :: "nat \<Rightarrow> ('e, 'n, 'w) Group \<Rightarrow> ('e, 'n, 'w) registry \<Rightarrow> ('e, 'n, 'w) registry" where
  "put_group i g rg = rg\<lparr>rg_heap := (rg_heap rg)[i := g]\<rparr>"

definition Server_Get ::
  "reads \<Rightarrow> int \<Rightarrow> ('n, 'w) rpc_get \<Rightarrow> Request \<Rightarrow> ('e, 'n, 'w) registry \<Rightarrow> 'w
    \<Rightarrow> ((server_error + slice) \<times> ('e, 'n, 'w) registry \<times> 'w) outcome" where
  "Server_Get rd dur rpc req rg w =
     (case GetGroup (rq_Group req) rg of
        Blocks \<Rightarrow> Blocks
      | Panics \<Rightarrow> Panics
      | Returns None \<Rightarrow> Returns (Inl ErrGroupNotFound, rg, w)
      | Returns (Some i) \<Rightarrow>
          (case Group_Get rd dur rpc (rq_Key req) (rg_heap rg ! i) w of
             None \<Rightarrow> Panics
           | Some (r, ev, g, w) \<Rightarrow>
               Returns (case r of Inl err \<Rightarrow> Inl (ErrHandler err) | Inr view \<Rightarrow> Inr (bv_ByteSlice view), put_group i g rg, w)))"

text \<open>The result: the response, the goroutines started with their group, and the registry.\<close>

definition Server_Set ::
  "reads \<Rightarrow> int \<Rightarrow> Request \<Rightarrow> ('e, 'n, 'w) registry
    \<Rightarrow> ((server_error + slice) \<times> (nat \<times> sync_task) list \<times> ('e, 'n, 'w) registry) outcome" where
  "Server_Set rd now req rg =
     (case GetGroup (rq_Group req) rg of
        Blocks \<Rightarrow> Blocks
      | Panics \<Rightarrow> Panics
      | Returns None \<Rightarrow> Returns (Inl ErrGroupNotFound, [], rg)
      | Returns (Some i) \<Rightarrow>
          (case Group_Set rd now True (rq_Key req) (rq_Value req) (rg_heap rg ! i) of
             None \<Rightarrow> Panics
           | Some (r, ev, tasks, g) \<Rightarrow>
               Returns (case r of Some err \<Rightarrow> Inl (ErrHandler err) | None \<Rightarrow> Inr (rq_Value req),
                 map (Pair i) tasks, put_group i g rg)))"

definition Server_Delete ::
  "bool \<Rightarrow> Request \<Rightarrow> ('e, 'n, 'w) registry
    \<Rightarrow> ((server_error option \<times> bool) \<times> (nat \<times> sync_task) list \<times> ('e, 'n, 'w) registry) outcome" where
  "Server_Delete fromPeer req rg =
     (case GetGroup (rq_Group req) rg of
        Blocks \<Rightarrow> Blocks
      | Panics \<Rightarrow> Panics
      | Returns None \<Rightarrow> Returns ((Some ErrGroupNotFound, False), [], rg)
      | Returns (Some i) \<Rightarrow>
          (case Group_Delete fromPeer (rq_Key req) (rg_heap rg ! i) of
             None \<Rightarrow> Panics
           | Some (r, ev, tasks, g) \<Rightarrow>
               Returns ((map_option ErrHandler r, r = None), map (Pair i) tasks, put_group i g rg)))"

subsection \<open>The cluster\<close>

record message =
  ms_from :: string
  ms_group :: nat
  ms_to :: string
  ms_call :: rpc_call

record ('e, 'n, 'w) cluster =
  cl_nodes :: "(string, ('e, 'n, 'w) registry) gomap"
  cl_msgs :: "message list"

text \<open>The handler of a call that arrives over the network.\<close>

definition serve :: "reads \<Rightarrow> int \<Rightarrow> rpc_call \<Rightarrow> ('e, 'n, 'w) registry \<Rightarrow> ((nat \<times> sync_task) list \<times> ('e, 'n, 'w) registry) outcome" where
  "serve rd now call rg =
     (case call of
        RpcSet req \<Rightarrow>
          (case Server_Set rd now req rg of Returns (_, tasks, rg) \<Rightarrow> Returns (tasks, rg) | Blocks \<Rightarrow> Blocks | Panics \<Rightarrow> Panics)
      | RpcDelete req \<Rightarrow>
          (case Server_Delete False req rg of Returns (_, tasks, rg) \<Rightarrow> Returns (tasks, rg) | Blocks \<Rightarrow> Blocks | Panics \<Rightarrow> Panics))"

text \<open>A goroutine \<open>syncToPeers\<close> at node \<open>a\<close>; \<open>ord\<close> is the order in which maps are iterated.\<close>

definition peer_order :: "(string list \<Rightarrow> string list) \<Rightarrow> ('e, 'n, 'w) Group \<Rightarrow> string list" where
  "peer_order ord g = (case g_peers g of None \<Rightarrow> [] | Some pk \<Rightarrow> ord (map fst (pk_clients pk)))"

definition spawn_one ::
  "(string list \<Rightarrow> string list) \<Rightarrow> string \<Rightarrow> nat \<times> sync_task \<Rightarrow> message list \<times> ('e, 'n, 'w) registry
    \<Rightarrow> message list \<times> ('e, 'n, 'w) registry" where
  "spawn_one ord a t s =
     (let g = rg_heap (snd s) ! fst t; r = syncToPeers (peer_order ord g) (snd t) g in
      (fst s @ map (\<lambda>(p, call). \<lparr>ms_from = a, ms_group = fst t, ms_to = cl_addr p, ms_call = call\<rparr>) (fst r),
       put_group (fst t) (snd r) (snd s)))"

definition spawn ::
  "(string list \<Rightarrow> string list) \<Rightarrow> string \<Rightarrow> (nat \<times> sync_task) list \<Rightarrow> ('e, 'n, 'w) registry \<Rightarrow> message list \<times> ('e, 'n, 'w) registry" where
  "spawn ord a tasks rg = fold (spawn_one ord a) tasks ([], rg)"

text \<open>The goroutine of the sender ends.\<close>

definition call_ended :: "message \<Rightarrow> ('e, 'n, 'w) cluster \<Rightarrow> ('e, 'n, 'w) cluster" where
  "call_ended m c =
     (case map_of (cl_nodes c) (ms_from m) of
        None \<Rightarrow> c
      | Some rg \<Rightarrow>
          c\<lparr>cl_nodes := AList.update (ms_from m) (put_group (ms_group m) (sync_done (rg_heap rg ! ms_group m)) rg) (cl_nodes c)\<rparr>)"

text \<open>Deliver message \<open>i\<close>; a call to a node that is not there fails.\<close>

definition deliver ::
  "(string list \<Rightarrow> string list) \<Rightarrow> reads \<Rightarrow> int \<Rightarrow> nat \<Rightarrow> ('e, 'n, 'w) cluster \<Rightarrow> ('e, 'n, 'w) cluster outcome" where
  "deliver ord rd now i c =
     (if length (cl_msgs c) \<le> i then Blocks
      else
        let m = cl_msgs c ! i;
            c = c\<lparr>cl_msgs := take i (cl_msgs c) @ drop (Suc i) (cl_msgs c)\<rparr> in
        case map_of (cl_nodes c) (ms_to m) of
          None \<Rightarrow> Returns (call_ended m c)
        | Some rg \<Rightarrow>
            (case serve rd now (ms_call m) rg of
               Returns (tasks, rg) \<Rightarrow>
                 (case spawn ord (ms_to m) tasks rg of
                    (out, rg) \<Rightarrow>
                      Returns (call_ended m (c\<lparr>cl_nodes := AList.update (ms_to m) rg (cl_nodes c), cl_msgs := cl_msgs c @ out\<rparr>)))
             | Blocks \<Rightarrow> Blocks
             | Panics \<Rightarrow> Panics))"

text \<open>
  A call that fails before it reaches its peer: the network, its deadline, or, for a \<open>Set\<close>, the
  context that \<open>syncToPeers\<close> cancels when it returns.
\<close>

definition lose :: "nat \<Rightarrow> ('e, 'n, 'w) cluster \<Rightarrow> ('e, 'n, 'w) cluster outcome" where
  "lose i c =
     (if length (cl_msgs c) \<le> i then Blocks
      else Returns (call_ended (cl_msgs c ! i) (c\<lparr>cl_msgs := take i (cl_msgs c) @ drop (Suc i) (cl_msgs c)\<rparr>)))"

text \<open>A schedule: the positions of the messages that arrive or are lost, one after the other.\<close>

datatype delivery = Arrive (at_pos: nat) | Lost (at_pos: nat)

primrec deliver_one ::
  "(string list \<Rightarrow> string list) \<Rightarrow> reads \<Rightarrow> int \<Rightarrow> delivery \<Rightarrow> ('e, 'n, 'w) cluster \<Rightarrow> ('e, 'n, 'w) cluster outcome" where
  "deliver_one ord rd now (Arrive i) c = deliver ord rd now i c"
| "deliver_one ord rd now (Lost i) c = lose i c"

primrec deliveries ::
  "(string list \<Rightarrow> string list) \<Rightarrow> reads \<Rightarrow> int \<Rightarrow> delivery list \<Rightarrow> ('e, 'n, 'w) cluster \<Rightarrow> ('e, 'n, 'w) cluster outcome" where
  "deliveries ord rd now [] c = Returns c"
| "deliveries ord rd now (d # ds) c =
     (case deliver_one ord rd now d c of Returns c \<Rightarrow> deliveries ord rd now ds c | Blocks \<Rightarrow> Blocks | Panics \<Rightarrow> Panics)"

text \<open>A write by a program at node \<open>a\<close>, with the goroutines it starts.\<close>

definition local_op ::
  "(string list \<Rightarrow> string list) \<Rightarrow> string \<Rightarrow> string
    \<Rightarrow> (('e, 'n, 'w) Group \<Rightarrow> (group_error option \<times> ByteView event list \<times> sync_task list \<times> ('e, 'n, 'w) Group) option)
    \<Rightarrow> ('e, 'n, 'w) cluster \<Rightarrow> ('e, 'n, 'w) cluster outcome" where
  "local_op ord a gname oper c =
     (case map_of (cl_nodes c) a of
        None \<Rightarrow> Returns c
      | Some rg \<Rightarrow>
          (case GetGroup gname rg of
             Blocks \<Rightarrow> Blocks
           | Panics \<Rightarrow> Panics
           | Returns None \<Rightarrow> Returns c
           | Returns (Some i) \<Rightarrow>
               (case oper (rg_heap rg ! i) of
                  None \<Rightarrow> Panics
                | Some (r, ev, tasks, g) \<Rightarrow>
                    (case spawn ord a (map (Pair i) tasks) (put_group i g rg) of
                       (out, rg) \<Rightarrow> Returns (c\<lparr>cl_nodes := AList.update a rg (cl_nodes c), cl_msgs := cl_msgs c @ out\<rparr>)))))"

subsection \<open>Clusters in which every node has peers\<close>

definition live_group :: "string set \<Rightarrow> int \<Rightarrow> string set \<Rightarrow> string \<Rightarrow> ('e, 'n, 'w) Group \<Rightarrow> bool" where
  "live_group N R A gname g \<longleftrightarrow> group_ok N R g \<and> g_name g = gname \<and> \<not> g_closed g \<and>
     (\<exists>pk. g_peers g = Some pk \<and> pk_clients pk \<noteq> [] \<and> fst ` set (pk_clients pk) \<subseteq> A)"

definition node_ok :: "string set \<Rightarrow> int \<Rightarrow> string set \<Rightarrow> string \<Rightarrow> ('e, 'n, 'w) registry \<Rightarrow> bool" where
  "node_ok N R A gname rg \<longleftrightarrow> \<not> rg_locked rg \<and>
     (\<exists>i. map_of (rg_groups rg) gname = Some i \<and> i < length (rg_heap rg) \<and> live_group N R A gname (rg_heap rg ! i))"

definition nodes_ok :: "string set \<Rightarrow> int \<Rightarrow> string \<Rightarrow> (string, ('e, 'n, 'w) registry) gomap \<Rightarrow> bool" where
  "nodes_ok N R gname nodes \<longleftrightarrow> (\<forall>a rg. map_of nodes a = Some rg \<longrightarrow> node_ok N R (dom (map_of nodes)) gname rg)"

fun call_is :: "(Request \<Rightarrow> rpc_call) \<Rightarrow> string \<Rightarrow> string \<Rightarrow> rpc_call \<Rightarrow> bool" where
  "call_is con gname key call \<longleftrightarrow> (\<exists>v. call = con \<lparr>rq_Group = gname, rq_Key = key, rq_Value = v\<rparr>)"

lemma live_group_sync: "live_group N R A gname (g\<lparr>g_syncWG := n\<rparr>) = live_group N R A gname g"
  by (simp add: live_group_def group_ok_def)

lemma node_put_ok:
  assumes "node_ok N R A gname rg" and "live_group N R A gname (rg_heap rg ! i) \<Longrightarrow> live_group N R A gname g"
  shows "node_ok N R A gname (put_group i g rg)"
proof -
  obtain j where j: "map_of (rg_groups rg) gname = Some j" "j < length (rg_heap rg)" "live_group N R A gname (rg_heap rg ! j)"
    using assms(1) unfolding node_ok_def by blast
  then have "live_group N R A gname ((rg_heap rg)[i := g] ! j)" using assms(2) by (cases "j = i") auto
  with j assms(1) show ?thesis by (auto simp: node_ok_def put_group_def)
qed

lemma nodes_update_ok:
  assumes "nodes_ok N R gname nodes" and "map_of nodes a = Some rg0" and "node_ok N R (dom (map_of nodes)) gname rg"
  shows "nodes_ok N R gname (AList.update a rg nodes)" and "dom (map_of (AList.update a rg nodes)) = dom (map_of nodes)"
proof -
  show d: "dom (map_of (AList.update a rg nodes)) = dom (map_of nodes)" using assms(2) by auto
  show "nodes_ok N R gname (AList.update a rg nodes)" using assms(1,3) unfolding nodes_ok_def d by simp
qed

lemma call_ended_ok:
  assumes "nodes_ok N R gname (cl_nodes c)"
  shows "nodes_ok N R gname (cl_nodes (call_ended m c))" and "dom (map_of (cl_nodes (call_ended m c))) = dom (map_of (cl_nodes c))"
    and "cl_msgs (call_ended m c) = cl_msgs c"
proof -
  have "nodes_ok N R gname (cl_nodes (call_ended m c)) \<and> dom (map_of (cl_nodes (call_ended m c))) = dom (map_of (cl_nodes c))"
  proof (cases "map_of (cl_nodes c) (ms_from m)")
    case (Some rg)
    then have "node_ok N R (dom (map_of (cl_nodes c))) gname rg" using assms by (simp add: nodes_ok_def)
    then have "node_ok N R (dom (map_of (cl_nodes c))) gname (put_group (ms_group m) (sync_done (rg_heap rg ! ms_group m)) rg)"
      by (rule node_put_ok) (simp add: sync_done_def live_group_sync)
    from nodes_update_ok [OF assms Some this] Some show ?thesis by (simp add: call_ended_def)
  qed (use assms in \<open>simp add: call_ended_def\<close>)
  then show "nodes_ok N R gname (cl_nodes (call_ended m c))" "dom (map_of (cl_nodes (call_ended m c))) = dom (map_of (cl_nodes c))"
    by simp_all
  show "cl_msgs (call_ended m c) = cl_msgs c" by (simp add: call_ended_def split: option.split)
qed

lemma node_okE:
  assumes "node_ok N R A gname rg"
  obtains i where "GetGroup gname rg = Returns (Some i)" "i < length (rg_heap rg)" "live_group N R A gname (rg_heap rg ! i)"
    "map_of (rg_groups rg) gname = Some i"
  using assms unfolding node_ok_def GetGroup_def by auto

lemma live_groupD:
  assumes "live_group N R A gname g"
  obtains pk where "g_peers g = Some pk" "pk_clients pk \<noteq> []" "fst ` set (pk_clients pk) \<subseteq> A" "picker_ok N R pk"
    "group_ok N R g" "g_name g = gname" "\<not> g_closed g"
  using assms unfolding live_group_def group_ok_def peers_ok_def by auto

text \<open>The peers of a live group are nodes of the cluster, and there is at least one.\<close>

lemma PickAllPeers_live:
  assumes "picker_ok N R pk" and "pk_clients pk \<noteq> []" and "fst ` set (pk_clients pk) \<subseteq> A" and "\<And>xs. set (ord xs) = set xs"
  shows "PickAllPeers (ord (map fst (pk_clients pk))) pk \<noteq> []"
    and "c \<in> set (PickAllPeers (ord (map fst (pk_clients pk))) pk) \<Longrightarrow> cl_addr c \<in> A"
proof -
  obtain a cl where m: "(a, cl) \<in> set (pk_clients pk)" using assms(2) by (cases "pk_clients pk") auto
  have cl: "map_of (pk_clients pk) a = Some cl" using m by (rule map_of_is_SomeI [OF picker_okD(2) [OF assms(1)]])
  then have "a \<noteq> pk_selfAddr pk" using picker_okD(3) [OF assms(1)] by auto
  moreover have "a \<in> set (ord (map fst (pk_clients pk)))" using m assms(4) by force
  ultimately have "cl \<in> set (PickAllPeers (ord (map fst (pk_clients pk))) pk)"
    using cl unfolding mem_PickAllPeers by blast
  then show "PickAllPeers (ord (map fst (pk_clients pk))) pk \<noteq> []" by auto
  assume "c \<in> set (PickAllPeers (ord (map fst (pk_clients pk))) pk)"
  then obtain b where b: "map_of (pk_clients pk) b = Some c" unfolding mem_PickAllPeers by blast
  then have "cl_addr c = b" using picker_okD(5) [OF assms(1)] by blast
  moreover have "b \<in> fst ` set (pk_clients pk)" using map_of_SomeD [OF b] by force
  ultimately show "cl_addr c \<in> A" using assms(3) by blast
qed

lemma serve_set:
  assumes "node_ok N R A gname rg" and "call_is RpcSet gname key call"
  shows "\<exists>rg'. serve rd now call rg = Returns ([], rg') \<and> node_ok N R A gname rg'"
proof -
  obtain v where call: "call = RpcSet \<lparr>rq_Group = gname, rq_Key = key, rq_Value = v\<rparr>" using assms(2) by auto
  obtain i where i: "GetGroup gname rg = Returns (Some i)" "live_group N R A gname (rg_heap rg ! i)" using node_okE [OF assms(1)] .
  let ?g = "rg_heap rg ! i"
  obtain r ev g' where g': "Group_Set rd now True key v ?g = Some (r, ev, [], g')" "group_ok N R g'"
    "g_peers g' = g_peers ?g" "g_name g' = g_name ?g" "g_closed g' = g_closed ?g"
    using Group_Set_ok [of N R ?g rd now True key v] i(2) unfolding live_group_def by auto
  have "live_group N R A gname g'" using i(2) g'(2-5) by (simp add: live_group_def)
  then have "node_ok N R A gname (put_group i g' rg)" by (intro node_put_ok [OF assms(1)])
  with i(1) g'(1) show ?thesis by (simp add: serve_def Server_Set_def call)
qed

lemma serve_delete:
  assumes "node_ok N R A gname rg" and "call_is RpcDelete gname key call" and "key \<noteq> []"
  shows "\<exists>i rg'. serve rd now call rg = Returns ([(i, SyncDelete key)], rg') \<and> node_ok N R A gname rg' \<and>
    live_group N R A gname (rg_heap rg' ! i)"
proof -
  obtain v where call: "call = RpcDelete \<lparr>rq_Group = gname, rq_Key = key, rq_Value = v\<rparr>" using assms(2) by auto
  obtain i where i: "GetGroup gname rg = Returns (Some i)" "i < length (rg_heap rg)" "live_group N R A gname (rg_heap rg ! i)"
    using node_okE [OF assms(1)] .
  let ?g = "rg_heap rg ! i"
  obtain pk where pk: "g_peers ?g = Some pk" "\<not> g_closed ?g" "group_ok N R ?g" using live_groupD [OF i(3)] .
  obtain r ev g' where g': "Group_Delete False key ?g = Some (r, ev, [SyncDelete key], g')" "group_ok N R g'"
    "g_peers g' = g_peers ?g" "g_name g' = g_name ?g" "g_closed g' = g_closed ?g"
    using Group_Delete_ok [OF pk(3), of False key] pk(1,2) assms(3) by auto
  have l: "live_group N R A gname g'" using i(3) g'(2-5) by (simp add: live_group_def)
  then have "node_ok N R A gname (put_group i g' rg)" by (intro node_put_ok [OF assms(1)])
  with i(1,2) g'(1) l show ?thesis by (auto simp: serve_def Server_Delete_def call put_group_def)
qed

lemma spawn_delete:
  assumes "node_ok N R A gname rg" and "live_group N R A gname (rg_heap rg ! i)" and "\<And>xs. set (ord xs) = set xs"
  obtains out rg' where "spawn ord a [(i, SyncDelete key)] rg = (out, rg')" "out \<noteq> []" "node_ok N R A gname rg'"
    "\<forall>m \<in> set out. ms_to m \<in> A \<and> call_is RpcDelete gname key (ms_call m)"
proof -
  let ?g = "rg_heap rg ! i"
  obtain pk where pk: "g_peers ?g = Some pk" "pk_clients pk \<noteq> []" "fst ` set (pk_clients pk) \<subseteq> A" "picker_ok N R pk" "g_name ?g = gname"
    using live_groupD [OF assms(2)] .
  let ?ps = "PickAllPeers (ord (map fst (pk_clients pk))) pk"
  let ?g' = "?g\<lparr>g_syncWG := g_syncWG ?g + int (length ?ps)\<rparr>"
  let ?call = "RpcDelete \<lparr>rq_Group = gname, rq_Key = key, rq_Value = None\<rparr>"
  have eq: "spawn ord a [(i, SyncDelete key)] rg =
      (map (\<lambda>p. \<lparr>ms_from = a, ms_group = i, ms_to = cl_addr p, ms_call = ?call\<rparr>) ?ps, put_group i ?g' rg)"
    by (simp add: spawn_def spawn_one_def syncToPeers_def peer_order_def pk(1,5) Let_def)
  have "node_ok N R A gname (put_group i ?g' rg)" by (rule node_put_ok [OF assms(1)]) (simp add: live_group_sync)
  with that [OF eq] PickAllPeers_live [OF pk(4,2,3) assms(3)] show ?thesis by auto
qed

text \<open>One delivery of a write, and one of a delete.\<close>

lemma deliver_set:
  assumes "nodes_ok N R gname (cl_nodes c)" and "list_all (\<lambda>m. call_is RpcSet gname key (ms_call m)) (cl_msgs c)"
    and "i < length (cl_msgs c)"
  obtains c' where "deliver ord rd now i c = Returns c'" "nodes_ok N R gname (cl_nodes c')"
    "cl_msgs c' = take i (cl_msgs c) @ drop (Suc i) (cl_msgs c)"
proof -
  let ?m = "cl_msgs c ! i" and ?rest = "take i (cl_msgs c) @ drop (Suc i) (cl_msgs c)"
  have m: "call_is RpcSet gname key (ms_call ?m)" using assms(2,3) by (simp add: list_all_length)
  show ?thesis
  proof (cases "map_of (cl_nodes c) (ms_to ?m)")
    case None
    then have "deliver ord rd now i c = Returns (call_ended ?m (c\<lparr>cl_msgs := ?rest\<rparr>))"
      using assms(3) by (simp add: deliver_def Let_def)
    with that call_ended_ok [of N R gname "c\<lparr>cl_msgs := ?rest\<rparr>" ?m] assms(1) show ?thesis by simp
  next
    case (Some rg)
    have "node_ok N R (dom (map_of (cl_nodes c))) gname rg" using assms(1) Some by (simp add: nodes_ok_def)
    from serve_set [OF this m, of rd now] obtain rg' where
      rg': "serve rd now (ms_call ?m) rg = Returns ([], rg')" "node_ok N R (dom (map_of (cl_nodes c))) gname rg'" by blast
    let ?c = "c\<lparr>cl_nodes := AList.update (ms_to ?m) rg' (cl_nodes c), cl_msgs := ?rest\<rparr>"
    have "deliver ord rd now i c = Returns (call_ended ?m ?c)"
      using assms(3) Some rg'(1) by (simp add: deliver_def spawn_def Let_def)
    moreover have "nodes_ok N R gname (cl_nodes ?c)" using nodes_update_ok(1) [OF assms(1) Some rg'(2)] by simp
    ultimately show ?thesis using that call_ended_ok [of N R gname ?c ?m] by simp
  qed
qed

lemma deliver_one_set:
  assumes "nodes_ok N R gname (cl_nodes c)" and "list_all (\<lambda>m. call_is RpcSet gname key (ms_call m)) (cl_msgs c)"
    and "at_pos d < length (cl_msgs c)"
  obtains c' where "deliver_one ord rd now d c = Returns c'" "nodes_ok N R gname (cl_nodes c')"
    "cl_msgs c' = take (at_pos d) (cl_msgs c) @ drop (Suc (at_pos d)) (cl_msgs c)"
proof (cases d)
  case (Arrive i)
  with deliver_set [OF assms(1,2), of i ord rd now] assms(3) that show ?thesis by auto
next
  case (Lost i)
  let ?c = "c\<lparr>cl_msgs := take i (cl_msgs c) @ drop (Suc i) (cl_msgs c)\<rparr>"
  have "nodes_ok N R gname (cl_nodes ?c)" using assms(1) by simp
  from call_ended_ok [OF this, of "cl_msgs c ! i"] Lost assms(3) that [of "call_ended (cl_msgs c ! i) ?c"]
  show ?thesis by (simp add: lose_def)
qed

definition storm :: "string set \<Rightarrow> int \<Rightarrow> string \<Rightarrow> string \<Rightarrow> ('e, 'n, 'w) cluster \<Rightarrow> bool" where
  "storm N R gname key c \<longleftrightarrow> nodes_ok N R gname (cl_nodes c) \<and>
     list_all (\<lambda>m. ms_to m \<in> dom (map_of (cl_nodes c)) \<and> call_is RpcDelete gname key (ms_call m)) (cl_msgs c)"

lemma deliver_delete:
  assumes "storm N R gname key c" and "key \<noteq> []" and "i < length (cl_msgs c)" and "\<And>xs. set (ord xs) = set xs"
  obtains c' where "deliver ord rd now i c = Returns c'" "storm N R gname key c'" "length (cl_msgs c) \<le> length (cl_msgs c')"
proof -
  let ?m = "cl_msgs c ! i" and ?rest = "take i (cl_msgs c) @ drop (Suc i) (cl_msgs c)" and ?A = "dom (map_of (cl_nodes c))"
  have nodes: "nodes_ok N R gname (cl_nodes c)"
    and msgs: "\<forall>m \<in> set (cl_msgs c). ms_to m \<in> ?A \<and> call_is RpcDelete gname key (ms_call m)"
    using assms(1) by (simp_all add: storm_def list_all_iff del: call_is.simps)
  have m: "call_is RpcDelete gname key (ms_call ?m)" "ms_to ?m \<in> ?A" using msgs assms(3) nth_mem by blast+
  obtain rg where rg: "map_of (cl_nodes c) (ms_to ?m) = Some rg" using m(2) by blast
  have "node_ok N R ?A gname rg" using nodes rg by (simp add: nodes_ok_def)
  from serve_delete [OF this m(1) assms(2), of rd now] obtain j rg' where
    rg': "serve rd now (ms_call ?m) rg = Returns ([(j, SyncDelete key)], rg')" "node_ok N R ?A gname rg'"
    "live_group N R ?A gname (rg_heap rg' ! j)" by blast
  obtain out rg'' where out: "spawn ord (ms_to ?m) [(j, SyncDelete key)] rg' = (out, rg'')" "out \<noteq> []" "node_ok N R ?A gname rg''"
    "\<forall>m \<in> set out. ms_to m \<in> ?A \<and> call_is RpcDelete gname key (ms_call m)"
    using spawn_delete [OF rg'(2,3) assms(4)] .
  let ?c = "c\<lparr>cl_nodes := AList.update (ms_to ?m) rg'' (cl_nodes c), cl_msgs := ?rest @ out\<rparr>"
  have d: "deliver ord rd now i c = Returns (call_ended ?m ?c)"
    using assms(3) rg rg'(1) out(1) by (simp add: deliver_def Let_def)
  note up = nodes_update_ok [OF nodes rg out(3)]
  have ok: "nodes_ok N R gname (cl_nodes ?c)" using up(1) by simp
  note ended = call_ended_ok [OF ok, of ?m]
  have "set (?rest @ out) \<subseteq> set (cl_msgs c) \<union> set out" using set_take_subset set_drop_subset by fastforce
  then have "\<forall>m \<in> set (?rest @ out). ms_to m \<in> ?A \<and> call_is RpcDelete gname key (ms_call m)" using msgs out(4) by blast
  then have "storm N R gname key (call_ended ?m ?c)"
    using ended up(2) by (simp add: storm_def list_all_iff del: call_is.simps map_of_update)
  moreover have "length (cl_msgs c) \<le> length (cl_msgs (call_ended ?m ?c))"
    using out(2) assms(3) unfolding ended(3) by (cases out) simp_all
  ultimately show ?thesis using that d by blast
qed

lemma storm_lasts:
  assumes "storm N R gname key c" and "key \<noteq> []" and "cl_msgs c \<noteq> []" and "\<And>xs. set (ord xs) = set xs"
    and "deliveries ord rd now (map Arrive is) c \<noteq> Blocks"
  shows "\<exists>c'. deliveries ord rd now (map Arrive is) c = Returns c' \<and> length (cl_msgs c) \<le> length (cl_msgs c') \<and> storm N R gname key c'"
  using assms(1,3,5)
proof (induction "is" arbitrary: c)
  case (Cons i "is")
  have i: "i < length (cl_msgs c)" using Cons.prems(3) by (simp add: deliver_def split: if_splits)
  obtain c1 where c1: "deliver ord rd now i c = Returns c1" "storm N R gname key c1" "length (cl_msgs c) \<le> length (cl_msgs c1)"
    using deliver_delete [OF Cons.prems(1) assms(2) i assms(4)] .
  have "cl_msgs c1 \<noteq> []" using c1(3) Cons.prems(2) by auto
  from Cons.IH [OF c1(2) this] Cons.prems(3) c1(1,3) show ?case by auto
qed simp

text \<open>A delete by a program at a node starts it.\<close>

lemma local_delete_storm:
  assumes "nodes_ok N R gname (cl_nodes c)" and "cl_msgs c = []" and "map_of (cl_nodes c) a = Some rg" and "key \<noteq> []"
    and "\<And>xs. set (ord xs) = set xs"
  obtains c' where "local_op ord a gname (Group_Delete False key) c = Returns c'" "storm N R gname key c'" "cl_msgs c' \<noteq> []"
proof -
  let ?A = "dom (map_of (cl_nodes c))"
  have node: "node_ok N R ?A gname rg" using assms(1,3) by (simp add: nodes_ok_def)
  obtain i where i: "GetGroup gname rg = Returns (Some i)" "i < length (rg_heap rg)" "live_group N R ?A gname (rg_heap rg ! i)"
    using node_okE [OF node] .
  let ?g = "rg_heap rg ! i"
  obtain pk where pk: "g_peers ?g = Some pk" "\<not> g_closed ?g" "group_ok N R ?g" using live_groupD [OF i(3)] .
  obtain r ev g' where g': "Group_Delete False key ?g = Some (r, ev, [SyncDelete key], g')" "group_ok N R g'"
    "g_peers g' = g_peers ?g" "g_name g' = g_name ?g" "g_closed g' = g_closed ?g"
    using Group_Delete_ok [OF pk(3), of False key] pk(1,2) assms(4) by auto
  have l: "live_group N R ?A gname g'" using i(3) g'(2-5) by (simp add: live_group_def)
  then have n: "node_ok N R ?A gname (put_group i g' rg)" by (intro node_put_ok [OF node])
  have "live_group N R ?A gname (rg_heap (put_group i g' rg) ! i)" using l i(2) by (simp add: put_group_def)
  from spawn_delete [OF n this assms(5)] obtain out rg' where
    out: "spawn ord a [(i, SyncDelete key)] (put_group i g' rg) = (out, rg')" "out \<noteq> []" "node_ok N R ?A gname rg'"
    "\<forall>m \<in> set out. ms_to m \<in> ?A \<and> call_is RpcDelete gname key (ms_call m)" .
  let ?c = "c\<lparr>cl_nodes := AList.update a rg' (cl_nodes c), cl_msgs := out\<rparr>"
  have "local_op ord a gname (Group_Delete False key) c = Returns ?c"
    using assms(2,3) i(1) g'(1) out(1) by (simp add: local_op_def)
  moreover have "storm N R gname key ?c"
    using nodes_update_ok [OF assms(1,3) out(3)] out(4) by (simp add: storm_def list_all_iff del: call_is.simps map_of_update)
  ultimately show ?thesis using that out(2) by simp
qed

subsection \<open>Properties\<close>

text \<open>
  C13: a write quiesces. However the remote writes of a key are scheduled, and whichever of them are lost
  on the way, every delivery returns and starts no new call, because the handler marks its
  context as coming from a peer: a cluster with \<open>n\<close> writes in flight is silent after exactly \<open>n\<close>
  deliveries, and every longer schedule is impossible.
\<close>

theorem cluster_set_quiesces:
  assumes "nodes_ok N R gname (cl_nodes c)" and "list_all (\<lambda>m. call_is RpcSet gname key (ms_call m)) (cl_msgs c)"
    and "list_all2 (\<lambda>d n. at_pos d < n) ds (rev [1..<Suc (length (cl_msgs c))])"
  shows "\<exists>c'. deliveries ord rd now ds c = Returns c' \<and> cl_msgs c' = [] \<and> nodes_ok N R gname (cl_nodes c') \<and>
    deliveries ord rd now (ds @ [d]) c = Blocks"
  using assms
proof (induction ds arbitrary: c)
  case Nil
  then show ?case by (cases "cl_msgs c"; cases d) (simp_all add: deliver_def lose_def)
next
  case (Cons d ds)
  then obtain n where n: "length (cl_msgs c) = Suc n" "at_pos d < Suc n" "list_all2 (\<lambda>d n. at_pos d < n) ds (rev [1..<Suc n])"
    by (cases "length (cl_msgs c)") auto
  have i: "at_pos d < length (cl_msgs c)" using n by simp
  obtain c' where c': "deliver_one ord rd now d c = Returns c'" "nodes_ok N R gname (cl_nodes c')"
    "cl_msgs c' = take (at_pos d) (cl_msgs c) @ drop (Suc (at_pos d)) (cl_msgs c)" using deliver_one_set [OF Cons.prems(1,2) i] .
  have "list_all (\<lambda>m. call_is RpcSet gname key (ms_call m)) (cl_msgs c')"
    unfolding c'(3) using Cons.prems(2) by (auto simp: list_all_iff simp del: call_is.simps dest: in_set_takeD in_set_dropD)
  moreover have "length (cl_msgs c') = n" using n(1,2) unfolding c'(3) by simp
  ultimately show ?case using Cons.IH [OF c'(2)] n(3) c'(1) by simp
qed

text \<open>
  C32: a delete never quiesces. The handler of a remote delete does not mark its context, so the
  node passes the delete on to all its peers, and they do the same. In a silent cluster in which
  every node has a peer, one \<open>Delete\<close> by a program at any node starts remote deletes that never
  end: after every number of deliveries, whatever the schedule (of messages that exist and arrive)
  and the iteration order of maps, a delete of that key is still in flight.
\<close>

theorem cluster_delete_storms:
  assumes "nodes_ok N R gname (cl_nodes c)" and "cl_msgs c = []" and "map_of (cl_nodes c) a = Some rg" and "key \<noteq> []"
    and "\<And>xs. set (ord xs) = set xs"
  shows "\<exists>c0. local_op ord a gname (Group_Delete False key) c = Returns c0 \<and>
    (\<forall>rd now is. deliveries ord rd now (map Arrive is) c0 \<noteq> Blocks \<longrightarrow>
      (\<exists>c'. deliveries ord rd now (map Arrive is) c0 = Returns c' \<and> length (cl_msgs c0) \<le> length (cl_msgs c') \<and>
        (\<exists>m \<in> set (cl_msgs c'). call_is RpcDelete gname key (ms_call m))))"
proof -
  obtain c0 where c0: "local_op ord a gname (Group_Delete False key) c = Returns c0" "storm N R gname key c0" "cl_msgs c0 \<noteq> []"
    using local_delete_storm [OF assms] .
  have "\<exists>c'. deliveries ord rd now (map Arrive is) c0 = Returns c' \<and> length (cl_msgs c0) \<le> length (cl_msgs c') \<and>
      (\<exists>m \<in> set (cl_msgs c'). call_is RpcDelete gname key (ms_call m))" if nb: "deliveries ord rd now (map Arrive is) c0 \<noteq> Blocks" for rd now "is"
  proof -
    obtain c' where c': "deliveries ord rd now (map Arrive is) c0 = Returns c'" "length (cl_msgs c0) \<le> length (cl_msgs c')" "storm N R gname key c'"
      using storm_lasts [OF c0(2) assms(4) c0(3) assms(5) nb] by blast
    then obtain m where "m \<in> set (cl_msgs c')" using c0(3) by (cases "cl_msgs c'") auto
    with c' show ?thesis by (auto simp: storm_def list_all_iff simp del: call_is.simps)
  qed
  with c0(1) show ?thesis by blast
qed

subsection \<open>A cluster of two nodes\<close>

definition pair_picker :: "string \<Rightarrow> string \<Rightarrow> (unit, nat) ClientPicker" where
  "pair_picker self peer = handleWatchEvents [demo_put peer]
     \<lparr>pk_selfAddr = self, pk_svcName = defaultSvcName, pk_consHash = Map_New demo_cfg, pk_clients = [], pk_etcdCli = (), pk_cancelled = False, pk_closed = []\<rparr>"

definition pair_node :: "string \<Rightarrow> string \<Rightarrow> (unit, nat, nat) registry" where
  "pair_node self peer = \<lparr>rg_groups = [(''g'', 0)],
     rg_heap = [new_group (\<lambda>n p. 64, \<lambda>m n. 0) ''g'' 1000 demo_getter [WithPeers (Some (pair_picker self peer))]], rg_locked = False\<rparr>"

definition pair_cluster :: "rpc_call list \<Rightarrow> (unit, nat, nat) cluster" where
  "pair_cluster calls = \<lparr>cl_nodes = [(''a'', pair_node ''a'' ''b''), (''b'', pair_node ''b'' ''a'')],
     cl_msgs = map (\<lambda>call. \<lparr>ms_from = ''a'', ms_group = 0, ms_to = ''b'', ms_call = call\<rparr>) calls\<rparr>"

lemma pair_picker_ok:
  assumes "peer \<in> {''a'', ''b'', ''c''}"
  shows "picker_ok {''a'', ''b'', ''c''} 2 (pair_picker self peer)"
  unfolding pair_picker_def using empty_picker_ok [OF demo_no_collision demo_config_ok] assms
  by (intro handleWatchEvents_ok) (simp_all add: demo_put_def)

lemma pair_picker_clients: "self \<noteq> peer \<Longrightarrow> pk_clients (pair_picker self peer) = [(peer, demo_client peer)]"
  by (simp add: pair_picker_def demo_put_def handleWatchEvents_def handle_event_def picker_set_def NewClient_def demo_client_def Let_def)

lemma pair_node_ok:
  assumes "peer \<in> {''a'', ''b'', ''c''}" and "self \<noteq> peer" and "peer \<in> A"
  shows "node_ok {''a'', ''b'', ''c''} 2 A ''g'' (pair_node self peer)"
proof -
  have "bf_ok (NewBloomFilter (\<lambda>n p. 64) (\<lambda>m n. 0) x y)" for x and y :: float64
    by (rule NewBloomFilter_ok) (simp_all add: word_le_nat_alt)
  then show ?thesis using NewCache_ok [OF demo_opts_ok] pair_picker_ok [OF assms(1)] pair_picker_clients [OF assms(2)] assms(3)
    by (simp add: node_ok_def pair_node_def live_group_def new_group_def group_ok_def peers_ok_def policy_ok_def NewCachePolicy_def Let_def)
qed

lemma pair_nodes_ok: "nodes_ok {''a'', ''b'', ''c''} 2 ''g'' (cl_nodes (pair_cluster calls))"
  by (simp add: nodes_ok_def pair_cluster_def pair_node_ok)

theorem cluster_set_quiesces_witness:
  "\<exists>c'. deliveries id rd0 100 [Arrive 0] (pair_cluster [RpcSet \<lparr>rq_Group = ''g'', rq_Key = ''k'', rq_Value = Some [7]\<rparr>]) = Returns c' \<and> cl_msgs c' = []"
  using cluster_set_quiesces [OF pair_nodes_ok [of "[RpcSet \<lparr>rq_Group = ''g'', rq_Key = ''k'', rq_Value = Some [7]\<rparr>]"], of "''k''" "[Arrive 0]" id rd0 100]
  by (auto simp: pair_cluster_def)

theorem cluster_delete_storms_witness:
  "\<exists>c0 c' m. local_op id ''a'' ''g'' (Group_Delete False ''k'') (pair_cluster []) = Returns c0 \<and>
    deliveries id rd0 100 (map Arrive [0, 0, 0]) c0 = Returns c' \<and> m \<in> set (cl_msgs c') \<and> call_is RpcDelete ''g'' ''k'' (ms_call m)"
proof -
  let ?N = "{''a'', ''b'', ''c''}"
  have a: "map_of (cl_nodes (pair_cluster [])) ''a'' = Some (pair_node ''a'' ''b'')" and e: "cl_msgs (pair_cluster []) = []"
    by (simp_all add: pair_cluster_def)
  obtain c0 where c0: "local_op id ''a'' ''g'' (Group_Delete False ''k'') (pair_cluster []) = Returns c0"
    "storm ?N 2 ''g'' ''k'' c0" "cl_msgs c0 \<noteq> []"
    by (rule local_delete_storm [OF pair_nodes_ok e a, of "''k''" id]) simp_all
  obtain c1 where c1: "deliver id rd0 100 0 c0 = Returns c1" "storm ?N 2 ''g'' ''k'' c1" "length (cl_msgs c0) \<le> length (cl_msgs c1)"
    by (rule deliver_delete [OF c0(2), of 0 id rd0 100]) (use c0(3) in auto)
  obtain c2 where c2: "deliver id rd0 100 0 c1 = Returns c2" "storm ?N 2 ''g'' ''k'' c2" "length (cl_msgs c1) \<le> length (cl_msgs c2)"
    by (rule deliver_delete [OF c1(2), of 0 id rd0 100]) (use c0(3) c1(3) in auto)
  obtain c3 where "deliver id rd0 100 0 c2 = Returns c3"
    by (rule deliver_delete [OF c2(2), of 0 id rd0 100]) (use c0(3) c1(3) c2(3) in auto)
  with c1(1) c2(1) have nb: "deliveries id rd0 100 (map Arrive [0, 0, 0]) c0 \<noteq> Blocks" by simp
  have "\<forall>rd now is. deliveries id rd now (map Arrive is) c0 \<noteq> Blocks \<longrightarrow> (\<exists>c'. deliveries id rd now (map Arrive is) c0 = Returns c' \<and>
      length (cl_msgs c0) \<le> length (cl_msgs c') \<and> (\<exists>m \<in> set (cl_msgs c'). call_is RpcDelete ''g'' ''k'' (ms_call m)))"
    using cluster_delete_storms [OF pair_nodes_ok e a, of "''k''" id] c0(1) by (auto simp del: call_is.simps deliveries.simps)
  from this [rule_format, OF nb] c0(1) show ?thesis by blast
qed

end
