(* ===== verification/Server_Calls.thy ===== *)
theory Server_Calls
  imports Cluster
begin

text \<open>
  The node as its callers see it: the handlers of \<^verbatim>\<open>server.go\<close> and the functions of
  \<^verbatim>\<open>group.go\<close> that create, list and close groups, in any order on one registry. The functions that
  destroy groups are left out here: they block (\<open>Group_Theorems\<close>).

  The result: on a well-formed registry every call returns an answer of its own kind, and the
  registry stays well formed.
\<close>

subsection \<open>Calls\<close>

datatype ('n, 'w) handler_call =
    HGet reads int "('n, 'w) rpc_get" Request
  | HSet reads int Request
  | HDelete Request

datatype answer =
    AGet "server_error + slice"
  | ASet "server_error + slice" "(nat \<times> sync_task) list"
  | ADelete "server_error option \<times> bool" "(nat \<times> sync_task) list"
  | ANew nat
  | AList "string list"
  | AClosed bool

primrec map_outcome :: "('a \<Rightarrow> 'b) \<Rightarrow> 'a outcome \<Rightarrow> 'b outcome" where
  "map_outcome f (Returns x) = Returns (f x)"
| "map_outcome f Blocks = Blocks"
| "map_outcome f Panics = Panics"

primrec bind_outcome :: "'a outcome \<Rightarrow> ('a \<Rightarrow> 'b outcome) \<Rightarrow> 'b outcome" where
  "bind_outcome (Returns x) f = f x"
| "bind_outcome Blocks f = Blocks"
| "bind_outcome Panics f = Panics"

primrec handle ::
  "('n, 'w) handler_call \<Rightarrow> ('e, 'n, 'w) registry \<times> 'w \<Rightarrow> (answer \<times> ('e, 'n, 'w) registry \<times> 'w) outcome" where
  "handle (HGet rd dur rpc req) s = map_outcome (\<lambda>(r, rg, w). (AGet r, rg, w)) (Server_Get rd dur rpc req (fst s) (snd s))"
| "handle (HSet rd now req) s = map_outcome (\<lambda>(r, tasks, rg). (ASet r tasks, rg, snd s)) (Server_Set rd now req (fst s))"
| "handle (HDelete req) s = map_outcome (\<lambda>(r, tasks, rg). (ADelete r tasks, rg, snd s)) (Server_Delete False req (fst s))"

text \<open>A program at the node closes a group that it finds in the registry; the answer tells whether it was there.\<close>

datatype ('e, 'n, 'w) service_call =
    Handle "('n, 'w) handler_call"
  | New sizes string int "'w getter" "('e, 'n) ClientPicker option"
  | ListAll
  | CloseNamed string

primrec service_step ::
  "('e, 'n, 'w) service_call \<Rightarrow> ('e, 'n, 'w) registry \<times> 'w \<Rightarrow> (answer \<times> ('e, 'n, 'w) registry \<times> 'w) outcome" where
  "service_step (Handle h) s = handle h s"
| "service_step (New z name b f peers) s =
     map_outcome (\<lambda>(i, rg). (ANew i, rg, snd s)) (NewGroup z name b (Some f) [WithPeers peers] (fst s))"
| "service_step ListAll s = map_outcome (\<lambda>names. (AList names, s)) (ListGroups (fst s))"
| "service_step (CloseNamed name) s =
     bind_outcome (GetGroup name (fst s)) (\<lambda>found.
       case found of
         None \<Rightarrow> Returns (AClosed False, s)
       | Some i \<Rightarrow> map_outcome (\<lambda>rg. (AClosed True, rg, snd s)) (Group_Close i (fst s)))"

primrec run_outcome :: "('op \<Rightarrow> 's \<Rightarrow> ('o \<times> 's) outcome) \<Rightarrow> 'op list \<Rightarrow> 's \<Rightarrow> ('o list \<times> 's) outcome" where
  "run_outcome step [] s = Returns ([], s)"
| "run_outcome step (x # xs) s =
     bind_outcome (step x s) (\<lambda>(out, s). map_outcome (\<lambda>(outs, s). (out # outs, s)) (run_outcome step xs s))"

subsection \<open>Well-formed registries\<close>

definition registry_wf :: "string set \<Rightarrow> int \<Rightarrow> ('e, 'n, 'w) registry \<Rightarrow> bool" where
  "registry_wf N R rg \<longleftrightarrow> \<not> rg_locked rg \<and> gomap_ok (rg_groups rg) \<and>
     (\<forall>name i. map_of (rg_groups rg) name = Some i \<longrightarrow> i < length (rg_heap rg) \<and> g_name (rg_heap rg ! i) = name) \<and>
     (\<forall>g \<in> set (rg_heap rg). group_ok N R g)"

text \<open>What a caller has to respect: groups are created with sizes in range and a usable picker.\<close>

fun service_ok :: "string set \<Rightarrow> int \<Rightarrow> ('e, 'n, 'w) service_call \<Rightarrow> bool" where
  "service_ok N R (New z name b f peers) \<longleftrightarrow>
     opts_ok (store_options (DefaultCacheOptions\<lparr>co_MaxBytes := b\<rparr>)) \<and> peers_ok N R peers \<and>
     fst z 1000000 (co_FalsePositiveRate DefaultCacheOptions) \<noteq> 0 \<and> fst z 1000000 (co_FalsePositiveRate DefaultCacheOptions) \<le> - 64"
| "service_ok N R _ \<longleftrightarrow> True"

fun answers :: "('e, 'n, 'w) service_call \<Rightarrow> answer \<Rightarrow> bool" where
  "answers (Handle (HGet rd dur rpc req)) (AGet r) \<longleftrightarrow> True"
| "answers (Handle (HSet rd now req)) (ASet r tasks) \<longleftrightarrow> tasks = [] \<and> (\<forall>v. r = Inr v \<longrightarrow> v = rq_Value req)"
| "answers (Handle (HDelete req)) (ADelete r tasks) \<longleftrightarrow> snd r = (fst r = None) \<and> (tasks \<noteq> [] \<longrightarrow> fst r = None)"
| "answers (New z name b f peers) (ANew i) \<longleftrightarrow> True"
| "answers ListAll (AList names) \<longleftrightarrow> distinct names"
| "answers (CloseNamed name) (AClosed b) \<longleftrightarrow> True"
| "answers _ _ \<longleftrightarrow> False"

lemma registry_wf_put:
  assumes "registry_wf N R rg" and "group_ok N R g" and "g_name g = g_name (rg_heap rg ! i)"
  shows "registry_wf N R (put_group i g rg)"
proof -
  have n: "g_name ((rg_heap rg)[i := g] ! j) = g_name (rg_heap rg ! j)" if "j < length (rg_heap rg)" for j
    using that assms(3) by (cases "j = i") simp_all
  have "set ((rg_heap rg)[i := g]) \<subseteq> insert g (set (rg_heap rg))" by (rule set_update_subset_insert)
  then have "\<forall>g' \<in> set ((rg_heap rg)[i := g]). group_ok N R g'" using assms(1,2) unfolding registry_wf_def by blast
  then show ?thesis using assms(1) n by (simp add: registry_wf_def put_group_def)
qed

lemma registry_wf_group:
  assumes "registry_wf N R rg" and "map_of (rg_groups rg) name = Some i"
  shows "group_ok N R (rg_heap rg ! i)" and "g_name (rg_heap rg ! i) = name" and "i < length (rg_heap rg)"
  using assms by (auto simp: registry_wf_def)

lemma registry_wf_open: "registry_wf N R rg \<Longrightarrow> GetGroup name rg = Returns (map_of (rg_groups rg) name)"
  by (simp add: registry_wf_def GetGroup_def)

lemma Group_Get_name: "Group_Get rd dur rpc key g w = Some (r, ev, g', w') \<Longrightarrow> g_name g' = g_name g"
  by (auto simp: Group_Get_def Let_def split: if_splits bind_splits sum.splits)

subsection \<open>Each call\<close>

definition good ::
  "string set \<Rightarrow> int \<Rightarrow> ('e, 'n, 'w) service_call \<Rightarrow> (answer \<times> ('e, 'n, 'w) registry \<times> 'w) outcome \<Rightarrow> bool" where
  "good N R x res \<longleftrightarrow> (\<exists>out rg w. res = Returns (out, rg, w) \<and> registry_wf N R rg \<and> answers x out)"

lemma good_Returns [simp]: "good N R x (Returns (out, rg, w)) \<longleftrightarrow> registry_wf N R rg \<and> answers x out"
  by (simp add: good_def)

lemma Server_Get_good:
  assumes "registry_wf N R rg"
  shows "good N R (Handle (HGet rd dur rpc req)) (handle (HGet rd dur rpc req) (rg, w))"
proof (cases "map_of (rg_groups rg) (rq_Group req)")
  case None
  with assms show ?thesis by (simp add: Server_Get_def registry_wf_open [OF assms])
next
  case (Some i)
  obtain r ev g' w' where g: "Group_Get rd dur rpc (rq_Key req) (rg_heap rg ! i) w = Some (r, ev, g', w')" "group_ok N R g'"
    using Group_Get_ok [OF registry_wf_group(1) [OF assms Some], of rd dur rpc "rq_Key req" w] by blast
  from Some g registry_wf_put [OF assms g(2) Group_Get_name [OF g(1)]]
  show ?thesis by (simp add: Server_Get_def registry_wf_open [OF assms])
qed

lemma Server_Set_good:
  assumes "registry_wf N R rg"
  shows "good N R (Handle (HSet rd now req)) (handle (HSet rd now req) (rg, w))"
proof (cases "map_of (rg_groups rg) (rq_Group req)")
  case None
  with assms show ?thesis by (simp add: Server_Set_def registry_wf_open [OF assms])
next
  case (Some i)
  obtain r ev g' where g: "Group_Set rd now True (rq_Key req) (rq_Value req) (rg_heap rg ! i) = Some (r, ev, [], g')"
    "group_ok N R g'" "g_name g' = g_name (rg_heap rg ! i)"
    using Group_Set_ok [OF registry_wf_group(1) [OF assms Some], of rd now True "rq_Key req" "rq_Value req"] by blast
  from Some g(1) registry_wf_put [OF assms g(2,3)]
  show ?thesis by (simp add: Server_Set_def registry_wf_open [OF assms] split: option.split)
qed

lemma Server_Delete_good:
  assumes "registry_wf N R rg"
  shows "good N R (Handle (HDelete req)) (handle (HDelete req) (rg, w))"
proof (cases "map_of (rg_groups rg) (rq_Group req)")
  case None
  with assms show ?thesis by (simp add: Server_Delete_def registry_wf_open [OF assms])
next
  case (Some i)
  obtain r ev tasks g' where g: "Group_Delete False (rq_Key req) (rg_heap rg ! i) = Some (r, ev, tasks, g')"
    "group_ok N R g'" "g_name g' = g_name (rg_heap rg ! i)"
    using Group_Delete_ok [OF registry_wf_group(1) [OF assms Some], of False "rq_Key req"] by blast
  have "tasks \<noteq> [] \<longrightarrow> r = None" using g(1) by (auto simp: Group_Delete_def split: if_splits bind_splits)
  with Some g(1) registry_wf_put [OF assms g(2,3)]
  show ?thesis by (simp add: Server_Delete_def registry_wf_open [OF assms])
qed

lemma handle_good:
  assumes "registry_wf N R rg"
  shows "good N R (Handle h) (handle h (rg, w))"
  by (cases h) (simp_all only: Server_Get_good [OF assms] Server_Set_good [OF assms] Server_Delete_good [OF assms])

lemma registry_wf_new:
  assumes "registry_wf N R rg" and "group_ok N R g" and "g_name g = name"
  shows "registry_wf N R (rg\<lparr>rg_heap := rg_heap rg @ [g], rg_groups := AList.update name (length (rg_heap rg)) (rg_groups rg)\<rparr>)"
  using assms by (auto simp: registry_wf_def nth_append distinct_update less_SucI)

lemma registry_wf_delete: "registry_wf N R rg \<Longrightarrow> registry_wf N R (rg\<lparr>rg_groups := AList.delete name (rg_groups rg)\<rparr>)"
  by (simp add: registry_wf_def distinct_delete)

lemma close_good:
  assumes "registry_wf N R rg" and "map_of (rg_groups rg) name = Some i"
  shows "\<exists>rg'. Group_Close i rg = Returns rg' \<and> registry_wf N R rg'"
proof (cases "g_closed (rg_heap rg ! i)")
  case False
  let ?g = "rg_heap rg ! i"
  have g: "group_ok N R ?g" by (rule registry_wf_group [OF assms])
  then obtain p where p: "Policy_Close (g_policy ?g) = Some p" "policy_ok p" using Policy_Close_ok [of "g_policy ?g"] by (auto simp: group_ok_def)
  then have "registry_wf N R (put_group i (?g\<lparr>g_closed := True, g_policy := p\<rparr>) rg)"
    using g by (intro registry_wf_put [OF assms(1)]) (simp_all add: group_ok_def)
  from registry_wf_delete [OF this, of "g_name ?g"] show ?thesis
    using False p(1) assms(1) by (simp add: Group_Close_def put_group_def registry_wf_def Let_def)
qed (use assms in \<open>simp add: Group_Close_def Let_def\<close>)

lemma service_good:
  assumes "registry_wf N R rg" and "service_ok N R x"
  shows "good N R x (service_step x (rg, w))"
proof (cases x)
  case (Handle h)
  with handle_good [OF assms(1), of h w] show ?thesis by simp
next
  case (New z name b f peers)
  have g: "group_ok N R (new_group z name b f [WithPeers peers])" "g_name (new_group z name b f [WithPeers peers]) = name"
    using assms(2) by (auto intro!: new_group_ok simp: New)
  from New registry_wf_new [OF assms(1) g] assms(1) show ?thesis by (simp add: NewGroup_def registry_wf_def Let_def)
next
  case ListAll
  with assms(1) show ?thesis by (simp add: ListGroups_def registry_wf_def)
next
  case (CloseNamed name)
  with assms(1) close_good [OF assms(1), of name] show ?thesis
    by (auto simp: registry_wf_open [OF assms(1)] split: option.split)
qed

subsection \<open>Properties\<close>

text \<open>
  C16: a node answers every call. Start from a registry that is unlocked, whose names lead to groups
  of that name and whose groups are well formed, and let callers create groups with options in
  range, list them, close them, and call the handlers \<open>Get\<close>, \<open>Set\<close> and \<open>Delete\<close> for any groups,
  registered or not, in any order. Every call returns, none blocks or panics, each answer is of the
  kind of its call (a \<open>Set\<close> answers with the value of the request and starts no synchronisation, a
  \<open>Delete\<close> answers true exactly without an error, a listing has no duplicates), and the registry is
  well formed at the end.
\<close>

theorem service_calls_typed:
  assumes "registry_wf N R rg" and "\<forall>x \<in> set calls. service_ok N R x"
  shows "\<exists>outs rg' w'. run_outcome service_step calls (rg, w) = Returns (outs, rg', w') \<and>
    registry_wf N R rg' \<and> list_all2 answers calls outs"
  using assms
proof (induction calls arbitrary: rg w)
  case (Cons x calls)
  obtain out rg1 w1 where 1: "service_step x (rg, w) = Returns (out, rg1, w1)" "registry_wf N R rg1" "answers x out"
    using service_good [OF Cons.prems(1), of x w] Cons.prems(2) by (auto simp: good_def)
  with Cons.IH [OF this(2), of w1] Cons.prems(2) show ?case by auto
qed simp

theorem service_calls_typed_witness:
  "\<exists>outs rg' w'. run_outcome service_step
      [New (\<lambda>n p. 64, \<lambda>m n. 0) ''h'' 1000 demo_getter None, Handle (HSet rd0 100 \<lparr>rq_Group = ''h'', rq_Key = ''k'', rq_Value = Some [7]\<rparr>),
       CloseNamed ''g'', Handle (HDelete \<lparr>rq_Group = ''g'', rq_Key = ''k'', rq_Value = None\<rparr>), ListAll] (demo_registry, 0) =
      Returns (outs, rg', w') \<and> registry_wf {''a'', ''b'', ''c''} 2 rg' \<and> length outs = 5"
proof -
  let ?calls = "[New (\<lambda>n p. 64, \<lambda>m n. 0) ''h'' 1000 demo_getter None, Handle (HSet rd0 100 \<lparr>rq_Group = ''h'', rq_Key = ''k'', rq_Value = Some [7]\<rparr>),
       CloseNamed ''g'', Handle (HDelete \<lparr>rq_Group = ''g'', rq_Key = ''k'', rq_Value = None\<rparr>), ListAll] :: (unit, nat, nat) service_call list"
  have "registry_wf {''a'', ''b'', ''c''} 2 demo_registry"
    using demo_group_ok by (simp add: registry_wf_def demo_registry_def) (simp add: demo_group_def new_group_def Let_def)
  moreover have "\<forall>x \<in> set ?calls. service_ok {''a'', ''b'', ''c''} 2 x"
    using demo_opts_ok by (simp add: peers_ok_def word_le_nat_alt)
  ultimately obtain outs rg' w' where r: "run_outcome service_step ?calls (demo_registry, 0) = Returns (outs, rg', w')"
    "registry_wf {''a'', ''b'', ''c''} 2 rg'" "list_all2 answers ?calls outs"
    using service_calls_typed [of "{''a'', ''b'', ''c''}" 2 demo_registry ?calls 0] by blast
  from list_all2_lengthD [OF r(3)] have "length outs = 5" by simp
  with r(1,2) show ?thesis by blast
qed

end
