(* ===== verification/Example.thy ===== *)
theory Example
  imports Registration Server_Calls
begin

text \<open>
  \<^verbatim>\<open>example/test.go\<close>: the program that starts a node, writes the key of its node, and reads
  it and the keys of the other nodes back. The outcomes of the network, the calls of other nodes that
  arrive while the program sleeps, and the events of etcd are arguments.

  The result: the program runs to its last line, its write succeeds, and each of its reads fails,
  the one of its own key too.
\<close>

subsection \<open>The program\<close>

text \<open>The decimal digits of an \<open>int\<close>, and the texts of the program, in UTF-8.\<close>

definition dec_int :: "int \<Rightarrow> string" where
  "dec_int n = (if n < 0 then ''-'' @ dec (nat (- n)) else dec (nat n))"

definition source_value :: "string \<Rightarrow> bytes" where
  "source_value nodeID = [232, 138, 130, 231, 130, 185] @ bytes_of_string nodeID @
     [231, 154, 132, 230, 149, 176, 230, 141, 174, 230, 186, 144, 229, 128, 188]"

definition local_value :: "string \<Rightarrow> bytes" where
  "local_value nodeID = [232, 191, 153, 230, 152, 175, 232, 138, 130, 231, 130, 185] @ bytes_of_string nodeID @
     [231, 154, 132, 230, 149, 176, 230, 141, 174]"

text \<open>What happens at the node while the program sleeps: a call arrives, or its picker changes.\<close>

datatype ('n, 'w) happening = Arrives "('n, 'w) handler_call" | Changes "'n picker_op"

primrec happen :: "('n, 'w) happening \<Rightarrow> ('e, 'n, 'w) registry \<times> 'w \<Rightarrow> (unit \<times> ('e, 'n, 'w) registry \<times> 'w) outcome" where
  "happen (Arrives h) s = map_outcome (\<lambda>(_, s). ((), s)) (handle h s)"
| "happen (Changes e) s =
     Returns ((), (fst s)\<lparr>rg_heap := map (\<lambda>g. g\<lparr>g_peers := map_option (picker_step e) (g_peers g)\<rparr>) (rg_heap (fst s))\<rparr>, snd s)"

record ('c, 'e, 'n, 'w) example_env =
  ex_etcd :: "ServerOptions \<Rightarrow> bool"
  ex_load :: "string \<Rightarrow> string \<Rightarrow> 'c option"
  ex_cli :: "'e option"
  ex_fetch :: "((string \<times> string) \<times> 'n option) list option"
  ex_listen :: bool
  ex_register :: etcd_env
  ex_sizes :: sizes
  ex_wait5 :: "('n, 'w) happening list"
  ex_set :: "reads \<times> int"
  ex_wait30 :: "('n, 'w) happening list"
  ex_before :: "string \<Rightarrow> ('n, 'w) happening list"
  ex_get :: "string \<Rightarrow> reads \<times> int \<times> ('n, 'w) rpc_get"

datatype fatal = FatalServer server_new_error | FatalPicker picker_error | FatalStart | FatalSet group_error

record example_output =
  eo_peers :: "string list"
  eo_stats :: group_report
  eo_gets :: "(string \<times> (group_error + ByteView)) list"

type_synonym 's example_result = "((fatal + example_output) \<times> 's) outcome"

definition wait :: "('n, 'w) happening list \<Rightarrow> ('e, 'n, 'w) registry \<times> 'w \<Rightarrow> (('e, 'n, 'w) registry \<times> 'w) outcome" where
  "wait hs s = map_outcome snd (run_outcome happen hs s)"

text \<open>A \<open>Get\<close> of the program on its group, which is the object at address \<open>i\<close>.\<close>

definition example_get ::
  "('c, 'e, 'n, 'w) example_env \<Rightarrow> nat \<Rightarrow> string \<Rightarrow> ('e, 'n, 'w) registry \<times> 'w
    \<Rightarrow> ((string \<times> (group_error + ByteView)) \<times> ('e, 'n, 'w) registry \<times> 'w) outcome" where
  "example_get env i key s =
     bind_outcome (wait (ex_before env key) s) (\<lambda>(rg, w).
       case ex_get env key of (rd, dur, rpc) \<Rightarrow>
         (case Group_Get rd dur rpc key (rg_heap rg ! i) w of
            None \<Rightarrow> Panics
          | Some (r, ev, g, w) \<Rightarrow> Returns ((key, r), put_group i g rg, w)))"

definition otherKeys :: "string list" where
  "otherKeys = [''key_A'', ''key_B'', ''key_C'']"

text \<open>The part of \<open>main\<close> after the write has succeeded.\<close>

definition example_reads ::
  "('c, 'e, 'n, 'w) example_env \<Rightarrow> nat \<Rightarrow> string \<Rightarrow> ('e, 'n, 'w) registry \<times> 'w \<Rightarrow> (('e, 'n, 'w) registry \<times> 'w) example_result" where
  "example_reads env i localKey s =
     bind_outcome (wait (ex_wait30 env) s) (\<lambda>s.
       let g = rg_heap (fst s) ! i in
       case Group_Stats g of
         None \<Rightarrow> Panics
       | Some stats \<Rightarrow>
           map_outcome (\<lambda>(gets, s). (Inr \<lparr>eo_peers = (case g_peers g of None \<Rightarrow> [] | Some pk \<Rightarrow> map fst (pk_clients pk)),
                                          eo_stats = stats, eo_gets = gets\<rparr>, s))
             (run_outcome (example_get env i) (localKey # filter (\<lambda>key. key \<noteq> localKey) otherKeys) s))"

definition example_main ::
  "Config \<Rightarrow> ('c, 'e, 'n, 'w) example_env \<Rightarrow> int \<Rightarrow> string \<Rightarrow> ('e, 'n, 'w) registry \<Rightarrow> 'w
    \<Rightarrow> (('e, 'n, 'w) registry \<times> 'w) example_result" where
  "example_main cfg env port nodeID rg w =
     (let addr = '':'' @ dec_int port; localKey = ''key_'' @ nodeID in
      case fst (NewServer (ex_etcd env) (ex_load env) addr ''saoka-cache''
          [WithEtcdEndpoints [''localhost:2379''], WithDialTimeout (5 * time_Second)] DefaultServerOptions) of
        Inl err \<Rightarrow> Returns (Inl (FatalServer err), rg, w)
      | Inr node \<Rightarrow>
          (case NewClientPicker cfg addr [] (ex_cli env) (ex_fetch env) of
             Inl err \<Rightarrow> Returns (Inl (FatalPicker err), rg, w)
           | Inr picker \<Rightarrow>
               bind_outcome (NewGroup (ex_sizes env) ''test'' (2 * 2 ^ 20)
                   (Some (\<lambda>key w. (Some (Some (source_value nodeID)), w))) [] rg) (\<lambda>(i, rg).
                 case RegisterPeers picker (rg_heap rg ! i) of
                   None \<Rightarrow> Panics
                 | Some g \<Rightarrow>
                     let rg = put_group i g rg in
                     (case Server_Start (ex_listen env) (ex_register env) node of
                        None \<Rightarrow> Panics
                      | Some (False, _) \<Rightarrow> Returns (Inl FatalStart, rg, w)
                      | Some (True, _) \<Rightarrow>
                          bind_outcome (wait (ex_wait5 env) (rg, w)) (\<lambda>(rg, w).
                            case Group_Set (fst (ex_set env)) (snd (ex_set env)) False localKey (Some (local_value nodeID)) (rg_heap rg ! i) of
                              None \<Rightarrow> Panics
                            | Some (Some err, ev, tasks, g) \<Rightarrow> Returns (Inl (FatalSet err), put_group i g rg, w)
                            | Some (None, ev, tasks, g) \<Rightarrow> example_reads env i localKey (put_group i g rg, w))))))"

subsection \<open>The group of the program\<close>

text \<open>The registry of the program: its one group, open, with a filter that no key has entered.\<close>

definition fresh :: "('e, 'n, 'w) registry \<Rightarrow> bool" where
  "fresh rg \<longleftrightarrow> \<not> rg_locked rg \<and> rg_groups rg = [(''test'', 0)] \<and>
     (\<exists>g. rg_heap rg = [g] \<and> \<not> g_closed g \<and> virgin (g_policy g))"

definition fresh_group :: "('e, 'n, 'w) Group \<Rightarrow> bool" where
  "fresh_group g \<longleftrightarrow> \<not> g_closed g \<and> virgin (g_policy g)"

lemma fresh_put: "fresh rg \<Longrightarrow> fresh_group g \<Longrightarrow> fresh (put_group 0 g rg)"
  by (auto simp: fresh_def fresh_group_def put_group_def)

lemma fresh_get: "fresh rg \<Longrightarrow> fresh_group (rg_heap rg ! 0)"
  by (auto simp: fresh_def fresh_group_def)

lemma fresh_lookup: "fresh rg \<Longrightarrow> GetGroup name rg = Returns (if name = ''test'' then Some 0 else None)"
  by (simp add: fresh_def GetGroup_def)

lemma fresh_Get:
  assumes "fresh_group g"
  shows "\<exists>r g'. Group_Get rd dur rpc key g w = Some (r, [], g', w) \<and> fresh_group g' \<and> (key \<noteq> [] \<longrightarrow> r = Inl (ErrPolicy ErrBloomRejected))"
  using assms virgin_Get [of "g_policy g" rd "peerAwareGetter_Get rpc (g_getter g) (g_name g)" key "(g_stats g, g_peers g, w)"]
  by (auto simp: fresh_group_def Group_Get_def Let_def)

lemma fresh_Set:
  assumes "fresh_group g"
  shows "\<exists>r ev tasks g'. Group_Set rd now fp key val g = Some (r, ev, tasks, g') \<and> fresh_group g' \<and>
    (key \<noteq> [] \<longrightarrow> slice_bytes val \<noteq> [] \<longrightarrow> r = None)"
proof -
  have v: "virgin (g_policy g)" using assms by (simp add: fresh_group_def)
  let ?v = "ByteView (cloneBytes val)"
  obtain ev p' where "(if g_expiration g > 0 then Policy_SetWithExpiration rd key ?v (now + g_expiration g) (g_policy g)
      else Policy_Set rd key ?v (g_policy g)) = Some (ev, p')" "virgin p'"
    using virgin_step [OF v, of _ "PSet rd key ?v" "()"] virgin_step [OF v, of _ "PSetExp rd key ?v (now + g_expiration g)" "()"]
    by (cases "g_expiration g > 0") (auto split: bind_splits)
  then show ?thesis using assms by (simp add: Group_Set_def fresh_group_def Let_def)
qed

lemma fresh_Delete:
  assumes "fresh_group g"
  shows "\<exists>r ev tasks g'. Group_Delete fp key g = Some (r, ev, tasks, g') \<and> fresh_group g'"
proof -
  have v: "virgin (g_policy g)" using assms by (simp add: fresh_group_def)
  from virgin_step [OF v, of _ "PDelete key" "()"] assms show ?thesis
    by (auto simp: Group_Delete_def fresh_group_def split: bind_splits)
qed

lemma handle_fresh:
  assumes "fresh rg"
  shows "\<exists>out rg'. handle h (rg, w) = Returns (out, rg', w) \<and> fresh rg'"
proof (cases h)
  case (HGet rd dur rpc req)
  from fresh_Get [OF fresh_get [OF assms], of rd dur rpc "rq_Key req" w] fresh_put [OF assms] HGet assms show ?thesis
    by (auto simp: Server_Get_def fresh_lookup [OF assms])
next
  case (HSet rd now req)
  obtain r ev tasks g' where g: "Group_Set rd now True (rq_Key req) (rq_Value req) (rg_heap rg ! 0) = Some (r, ev, tasks, g')" "fresh_group g'"
    using fresh_Set [OF fresh_get [OF assms], of rd now True "rq_Key req" "rq_Value req"] by blast
  from fresh_put [OF assms g(2)] HSet assms g(1) show ?thesis by (simp add: Server_Set_def fresh_lookup [OF assms])
next
  case (HDelete req)
  from fresh_Delete [OF fresh_get [OF assms], of False "rq_Key req"] fresh_put [OF assms] HDelete assms show ?thesis
    by (auto simp: Server_Delete_def fresh_lookup [OF assms])
qed

lemma happen_fresh:
  assumes "fresh rg"
  shows "\<exists>rg'. happen x (rg, w) = Returns ((), rg', w) \<and> fresh rg'"
proof (cases x)
  case (Arrives h)
  with handle_fresh [OF assms, of h w] show ?thesis by auto
next
  case (Changes e)
  with assms show ?thesis by (auto simp: fresh_def)
qed

lemma wait_fresh: "fresh rg \<Longrightarrow> \<exists>rg'. wait hs (rg, w) = Returns (rg', w) \<and> fresh rg'"
proof (induction hs arbitrary: rg)
  case (Cons x hs)
  obtain rg1 where "happen x (rg, w) = Returns ((), rg1, w)" "fresh rg1" using happen_fresh [OF Cons.prems] by blast
  moreover obtain rg2 where "wait hs (rg1, w) = Returns (rg2, w)" "fresh rg2" using Cons.IH [OF calculation(2)] by blast
  ultimately show ?case by (cases "run_outcome happen hs (rg1, w)") (auto simp: wait_def)
qed (simp add: wait_def)

lemma example_get_fresh:
  assumes "fresh rg" and "key \<noteq> []"
  shows "\<exists>rg'. example_get env 0 key (rg, w) = Returns ((key, Inl (ErrPolicy ErrBloomRejected)), rg', w) \<and> fresh rg'"
proof -
  obtain rg1 where 1: "wait (ex_before env key) (rg, w) = Returns (rg1, w)" "fresh rg1" using wait_fresh [OF assms(1)] by blast
  obtain rd dur rpc where e: "ex_get env key = (rd, dur, rpc)" by (cases "ex_get env key") auto
  from fresh_Get [OF fresh_get [OF 1(2)], of rd dur rpc key w] fresh_put [OF 1(2)] assms(2) 1(1) e show ?thesis
    by (auto simp: example_get_def)
qed

lemma example_gets_fresh:
  "fresh rg \<Longrightarrow> [] \<notin> set keys \<Longrightarrow>
    \<exists>rg'. run_outcome (example_get env 0) keys (rg, w) = Returns (map (\<lambda>key. (key, Inl (ErrPolicy ErrBloomRejected))) keys, rg', w) \<and> fresh rg'"
proof (induction keys arbitrary: rg)
  case (Cons key keys)
  obtain rg1 where "example_get env 0 key (rg, w) = Returns ((key, Inl (ErrPolicy ErrBloomRejected)), rg1, w)" "fresh rg1"
    using example_get_fresh [OF Cons.prems(1), of key env w] Cons.prems(2) by auto
  with Cons.IH [OF this(2)] Cons.prems(2) show ?case by auto
qed simp

lemma example_reads_fresh:
  assumes "fresh rg" and "localKey \<noteq> []"
  shows "\<exists>out rg'. example_reads env 0 localKey (rg, w) = Returns (Inr out, rg', w) \<and>
    eo_gets out = map (\<lambda>key. (key, Inl (ErrPolicy ErrBloomRejected))) (localKey # filter (\<lambda>key. key \<noteq> localKey) otherKeys)"
proof -
  obtain rg1 where 1: "wait (ex_wait30 env) (rg, w) = Returns (rg1, w)" "fresh rg1" using wait_fresh [OF assms(1)] by blast
  have "policy_ok (g_policy (rg_heap rg1 ! 0))" using fresh_get [OF 1(2)] by (simp add: fresh_group_def virgin_def)
  then obtain stats where 2: "Group_Stats (rg_heap rg1 ! 0) = Some stats"
    using Cache_Stats_ok [of "p_cache (g_policy (rg_heap rg1 ! 0))"] by (auto simp: Group_Stats_def Policy_Stats_def policy_ok_def Let_def)
  let ?keys = "localKey # filter (\<lambda>key. key \<noteq> localKey) otherKeys"
  have "[] \<notin> set ?keys" using assms(2) by (auto simp: otherKeys_def)
  from example_gets_fresh [OF 1(2) this, of env w] show ?thesis
    using 1(1) 2 by (auto simp: example_reads_def Let_def simp del: run_outcome.simps list.map)
qed

definition empty_registry :: "('e, 'n, 'w) registry" where
  "empty_registry = \<lparr>rg_groups = [], rg_heap = [], rg_locked = False\<rparr>"

text \<open>The hypotheses on the sizes of the filter: it has bits, the rounding does not overflow, and it uses a hash function.\<close>

definition sizes_ok :: "sizes \<Rightarrow> bool" where
  "sizes_ok z \<longleftrightarrow> (let m = fst z 1000000 (co_FalsePositiveRate DefaultCacheOptions) in m \<noteq> 0 \<and> m \<le> - 64 \<and> snd z m 1000000 \<noteq> 0)"

lemma example_group_fresh:
  assumes "sizes_ok z"
  shows "fresh_group ((new_group z ''test'' (2 * 2 ^ 20) f [])\<lparr>g_peers := peers\<rparr>)"
proof -
  let ?o = "DefaultCacheOptions\<lparr>co_MaxBytes := 2 * 2 ^ 20\<rparr>"
  have "opts_ok (store_options ?o)" by (rule demo_opts_ok)
  moreover have "co_ExpectedElements ?o = 1000000" "co_FalsePositiveRate ?o = co_FalsePositiveRate DefaultCacheOptions"
    by (simp_all add: DefaultCacheOptions_def)
  ultimately have "virgin (NewCachePolicy (fst z) (snd z) (NewCache ?o) ?o)"
    using assms by (intro NewCachePolicy_virgin) (simp_all add: sizes_ok_def Let_def)
  then show ?thesis by (simp add: fresh_group_def new_group_def Let_def)
qed

lemma new_group_no_peers: "g_peers (new_group z name b f []) = None"
  by (simp add: new_group_def Let_def)

subsection \<open>Properties\<close>

text \<open>
  C34: every read of the example fails. When the etcd clients can be created, the services can be
  fetched and the port is free, \<open>main\<close> runs to its last line, for every port and node name,
  whatever calls of other nodes and events of etcd arrive meanwhile and whether or not the
  registration succeeds: the write of the key of the node is accepted, and the read of this key and
  the reads of the keys of the other nodes all end with \<open>ErrBloomRejected\<close>. No data source is asked.
\<close>

theorem example_reads_fail:
  fixes env :: "('c, 'e, 'n, 'w) example_env"
  assumes "\<And>opts. ex_etcd env opts" and "ex_cli env = Some e" and "ex_fetch env = Some kvs" and "ex_listen env" and "sizes_ok (ex_sizes env)"
  shows "\<exists>out rg'. example_main cfg env port nodeID empty_registry w = Returns (Inr out, rg', w) \<and>
    (let localKey = ''key_'' @ nodeID in
     map fst (eo_gets out) = localKey # filter (\<lambda>key. key \<noteq> localKey) otherKeys) \<and>
    (\<forall>r \<in> set (eo_gets out). snd r = Inl (ErrPolicy ErrBloomRejected))"
proof -
  let ?addr = "'':'' @ dec_int port" and ?f = "\<lambda>key (w :: 'w). (Some (Some (source_value nodeID)), w)"
  obtain node where node: "fst (NewServer (ex_etcd env) (ex_load env) ?addr ''saoka-cache''
      [WithEtcdEndpoints [''localhost:2379''], WithDialTimeout (5 * time_Second)] DefaultServerOptions) = Inr node"
    "sv_addr node = ?addr" "\<not> gp_stopped (sv_grpcServer node)"
    using assms(1) by (simp add: NewServer_def grpc_credentials_def DefaultServerOptions_def Let_def)
  obtain picker where picker: "NewClientPicker cfg ?addr [] (ex_cli env) (ex_fetch env) = Inr picker"
    using assms(2,3) by (simp add: NewClientPicker_def fetchAllServices_def)
  let ?g = "(new_group (ex_sizes env) ''test'' (2 * 2 ^ 20) ?f [])\<lparr>g_peers := Some picker\<rparr>"
  define rg0 where "rg0 = \<lparr>rg_groups = [(''test'', 0)], rg_heap = [?g], rg_locked = False\<rparr>"
  have fr: "fresh rg0" using example_group_fresh [OF assms(5)] by (simp add: rg0_def fresh_def fresh_group_def)
  obtain rg1 where 1: "wait (ex_wait5 env) (rg0, w) = Returns (rg1, w)" "fresh rg1" using wait_fresh [OF fr] by blast
  have val: "slice_bytes (Some (local_value nodeID)) \<noteq> []" by (simp add: slice_bytes_def local_value_def)
  obtain ev tasks g2 where 2: "Group_Set (fst (ex_set env)) (snd (ex_set env)) False (''key_'' @ nodeID) (Some (local_value nodeID)) (rg_heap rg1 ! 0) =
      Some (None, ev, tasks, g2)" "fresh_group g2"
    using fresh_Set [OF fresh_get [OF 1(2)], of "fst (ex_set env)" "snd (ex_set env)" False "''key_'' @ nodeID" "Some (local_value nodeID)"] val
    by auto
  obtain r where "Register (ex_register env) (sv_svcName node) (sv_addr node) = Some r"
    using Register_returns [of "sv_addr node"] node(2) by auto
  then obtain node' where 3: "Server_Start (ex_listen env) (ex_register env) node = Some (True, node')"
    using assms(4) node(3) by (simp add: Server_Start_def)
  have "example_main cfg env port nodeID empty_registry w = example_reads env 0 (''key_'' @ nodeID) (put_group 0 g2 rg1, w)"
    using node(1) picker 1(1) [unfolded rg0_def] 2(1) 3
    by (simp add: example_main_def empty_registry_def NewGroup_def RegisterPeers_def new_group_no_peers put_group_def Let_def)
  with example_reads_fresh [OF fresh_put [OF 1(2) 2(2)], of "''key_'' @ nodeID" env w] show ?thesis
    by (auto simp: Let_def comp_def)
qed

definition demo_example :: "(unit, unit, nat, nat) example_env" where
  "demo_example = \<lparr>ex_etcd = (\<lambda>opts. True), ex_load = (\<lambda>c k. None), ex_cli = Some (), ex_fetch = Some [], ex_listen = True,
     ex_register = demo_env, ex_sizes = (\<lambda>n p. 9585059, \<lambda>m n. 7), ex_wait5 = [],
     ex_set = (rd0, 100), ex_wait30 = [Arrives (HGet rd0 5 demo_rpc \<lparr>rq_Group = ''test'', rq_Key = ''key_A'', rq_Value = None\<rparr>), Changes (Pick ''key_A'')],
     ex_before = (\<lambda>key. []), ex_get = (\<lambda>key. (rd0, 5, demo_rpc))\<rparr>"

theorem example_reads_fail_witness:
  "\<exists>out rg'. example_main demo_cfg demo_example 8001 ''A'' empty_registry 0 = Returns (Inr out, rg', 0) \<and>
    map fst (eo_gets out) = [''key_A'', ''key_B'', ''key_C'']"
  using example_reads_fail [of demo_example "()" "[]" demo_cfg 8001 "''A''" 0]
  by (auto simp: demo_example_def sizes_ok_def otherKeys_def word_le_nat_alt Let_def)

end
